(* ===== verification/Prelude.thy ===== *)
theory Prelude
  imports Complex_Main "HOL-Library.AList" "HOL-Library.Word"
begin

text \<open>
  Shared material of the development: Python's insertion-ordered dictionaries as
  association lists with distinct keys, exceptions as values, decimal rendering of
  integers, little-endian byte strings, and the generic lemmas the component theories use.
\<close>

section \<open>Fact collections\<close>

named_theorems dict_simps \<open>lookups and key lists of updated dictionaries\<close>
named_theorems wf_intros \<open>an operation keeps its component's well-formedness invariant\<close>

section \<open>Exceptions\<close>

text \<open>
  The exceptions the modelled code can raise. A fallible operation has type
  \<open>py_error + 'a\<close>; \<open>Inl\<close> is the raise.
\<close>

datatype py_error =
    ValueError
  | KeyError
  | IndexError
  | ZeroDivisionError
  | OverflowError
  | TypeError
  | AssertionError
  | StructError

section \<open>Dictionaries\<close>

text \<open>
  A Python \<open>dict\<close> or \<open>OrderedDict\<close> iterates in insertion order, assignment to a present
  key keeps its position, and deletion closes the gap. An association list with distinct
  keys has exactly these operations: \<open>AList.update\<close> is assignment, \<open>AList.delete\<close> is
  \<open>pop(k, None)\<close>, \<open>map_of\<close> is \<open>get\<close>.
\<close>

type_synonym ('k, 'v) dict = "('k \<times> 'v) list"

abbreviation dict_get :: "('k, 'v) dict \<Rightarrow> 'k \<Rightarrow> 'v option" where
  "dict_get \<equiv> map_of"

abbreviation dict_put :: "'k \<Rightarrow> 'v \<Rightarrow> ('k, 'v) dict \<Rightarrow> ('k, 'v) dict" where
  "dict_put \<equiv> AList.update"

abbreviation dict_del :: "'k \<Rightarrow> ('k, 'v) dict \<Rightarrow> ('k, 'v) dict" where
  "dict_del \<equiv> AList.delete"

abbreviation dict_wf :: "('k, 'v) dict \<Rightarrow> bool" where
  "dict_wf d \<equiv> distinct (map fst d)"

text \<open>\<open>OrderedDict.move_to_end\<close> of a present key.\<close>

definition dict_move_to_end :: "'k \<Rightarrow> ('k, 'v) dict \<Rightarrow> ('k, 'v) dict" where
  "dict_move_to_end k d =
     (case dict_get d k of None \<Rightarrow> d | Some v \<Rightarrow> dict_del k d @ [(k, v)])"

text \<open>The sum of a quantity over the values, e.g. the bytes a store holds.\<close>

definition dict_total :: "('v \<Rightarrow> int) \<Rightarrow> ('k, 'v) dict \<Rightarrow> int" where
  "dict_total f d = sum_list (map (f \<circ> snd) d)"

lemma dict_get_put [dict_simps]:
  "dict_get (dict_put k v d) k' = (if k' = k then Some v else dict_get d k')"
  by (simp add: update_conv')

lemma dict_get_del [dict_simps]:
  "dict_get (dict_del k d) k' = (if k' = k then None else dict_get d k')"
  by (simp add: delete_conv')

lemma dict_wf_put [wf_intros]: "dict_wf d \<Longrightarrow> dict_wf (dict_put k v d)"
  by (rule distinct_update)

lemma dict_wf_del [wf_intros]: "dict_wf d \<Longrightarrow> dict_wf (dict_del k d)"
  by (rule distinct_delete)

lemma dict_keys_put:
  "set (map fst (dict_put k v d)) = insert k (set (map fst d))"
  by (auto simp: dom_update)

lemma dict_keys_del:
  "set (map fst (dict_del k d)) = set (map fst d) - {k}"
  by (auto simp: delete_keys)

lemma dict_get_None_iff: "dict_get d k = None \<longleftrightarrow> k \<notin> fst ` set d"
  by (rule map_of_eq_None_iff)

lemma dict_get_Some_in: "dict_get d k = Some v \<Longrightarrow> (k, v) \<in> set d"
  by (rule map_of_SomeD)

lemma dict_put_new: "dict_get d k = None \<Longrightarrow> dict_put k v d = d @ [(k, v)]"
  by (induction d) (auto split: if_splits)

lemma dict_del_absent: "dict_get d k = None \<Longrightarrow> dict_del k d = d"
  by (simp add: dict_get_None_iff)

lemma set_dict_put: "set (dict_put k v d) \<subseteq> insert (k, v) (set d)"
  by (induction d) auto

lemma set_dict_del: "set (dict_del k d) = {x \<in> set d. fst x \<noteq> k}"
  by (auto simp: AList.delete_eq)

lemma dict_get_move_to_end [dict_simps]:
  "dict_get (dict_move_to_end k d) k' = dict_get d k'"
  by (auto simp: dict_move_to_end_def dict_get_del map_add_def split: option.splits)

lemma dict_wf_move_to_end [wf_intros]: "dict_wf d \<Longrightarrow> dict_wf (dict_move_to_end k d)"
  by (auto simp: dict_move_to_end_def distinct_delete dict_keys_del simp flip: set_map
           split: option.splits)

lemma set_move_to_end: "dict_wf d \<Longrightarrow> set (dict_move_to_end k d) = set d"
  by (auto simp: dict_move_to_end_def AList.delete_eq map_of_eq_None_iff
           dest: map_of_SomeD eq_key_imp_eq_value split: option.splits)

lemma dict_total_Nil [simp]: "dict_total f [] = 0"
  by (simp add: dict_total_def)

lemma dict_total_Cons [simp]: "dict_total f ((k, v) # d) = f v + dict_total f d"
  by (simp add: dict_total_def)

lemma dict_total_append [simp]: "dict_total f (d @ d') = dict_total f d + dict_total f d'"
  by (simp add: dict_total_def)

lemma dict_total_del:
  "dict_wf d \<Longrightarrow> dict_get d k = Some v \<Longrightarrow> dict_total f (dict_del k d) = dict_total f d - f v"
  by (induction d) (auto simp: dict_get_None_iff dest: map_of_SomeD split: if_splits)

lemma dict_total_put:
  "dict_wf d \<Longrightarrow> dict_get d k = Some v0 \<Longrightarrow>
   dict_total f (dict_put k v d) = dict_total f d - f v0 + f v"
  by (induction d) (auto split: if_splits)

lemma dict_total_put_new:
  "dict_get d k = None \<Longrightarrow> dict_total f (dict_put k v d) = dict_total f d + f v"
  by (simp add: dict_put_new)

lemma dict_total_nonneg: "(\<And>k v. (k, v) \<in> set d \<Longrightarrow> 0 \<le> f v) \<Longrightarrow> 0 \<le> dict_total f d"
  unfolding dict_total_def by (rule sum_list_nonneg) auto

lemma dict_get_filter_keys:
  "dict_get (filter (\<lambda>(k, v). P k) d) k = (if P k then dict_get d k else None)"
  by (induction d) auto

section \<open>Decimal rendering\<close>

text \<open>\<open>str(n)\<close> and \<open>f"{n}"\<close> of a non-negative and of any integer.\<close>

fun str_of_nat :: "nat \<Rightarrow> string" where
  "str_of_nat n =
     (if n < 10 then [char_of (48 + n)] else str_of_nat (n div 10) @ [char_of (48 + n mod 10)])"

declare str_of_nat.simps [simp del]

definition str_of_int :: "int \<Rightarrow> string" where
  "str_of_int i = (if i < 0 then CHR ''-'' # str_of_nat (nat (- i)) else str_of_nat (nat i))"

lemma digit_char_inj:
  "m < 10 \<Longrightarrow> n < 10 \<Longrightarrow> char_of (48 + m) = (char_of (48 + n) :: char) \<Longrightarrow> m = (n :: nat)"
  by (simp add: char_of_eq_iff take_bit_eq_mod)

lemma str_of_nat_nonempty [simp]: "str_of_nat n \<noteq> []"
  by (subst str_of_nat.simps) simp

lemma str_of_nat_eq_iff [simp]: "str_of_nat m = str_of_nat n \<longleftrightarrow> m = n"
proof (induction m arbitrary: n rule: less_induct)
  case (less m)
  show ?case
  proof
    assume eq: "str_of_nat m = str_of_nat n"
    have rec: "str_of_nat k =
        (if k < 10 then [] else str_of_nat (k div 10)) @ [char_of (48 + k mod 10)]" for k
      by (subst str_of_nat.simps) simp
    have last: "m mod 10 = n mod 10"
      using eq digit_char_inj [of "m mod 10" "n mod 10"] by (subst (asm) (1 2) rec) simp
    have front: "(if m < 10 then [] else str_of_nat (m div 10)) =
                 (if n < 10 then [] else str_of_nat (n div 10))"
      using eq by (subst (asm) (1 2) rec) simp
    have "m div 10 = n div 10"
    proof (cases "m < 10 \<or> n < 10")
      case True
      with front show ?thesis
        by (auto simp: str_of_nat_nonempty [symmetric] split: if_splits)
    next
      case False
      then have "m div 10 < m" by simp
      with False front less.IH [of "m div 10" "n div 10"] show ?thesis by simp
    qed
    with last show "m = n" by (metis div_mult_mod_eq)
  qed simp
qed

section \<open>Little-endian byte strings\<close>

text \<open>
  \<open>int.to_bytes(n, "little", signed=False)\<close> and \<open>int.from_bytes(b, "little")\<close>. The
  former raises \<open>OverflowError\<close> for a negative or too large integer.
\<close>

type_synonym byte = "8 word"

fun le_bytes :: "nat \<Rightarrow> int \<Rightarrow> byte list" where
  "le_bytes 0 x = []"
| "le_bytes (Suc n) x = word_of_int (x mod 256) # le_bytes n (x div 256)"

fun le_int :: "byte list \<Rightarrow> int" where
  "le_int [] = 0"
| "le_int (b # bs) = uint b + 256 * le_int bs"

definition to_bytes :: "nat \<Rightarrow> int \<Rightarrow> py_error + byte list" where
  "to_bytes n x = (if 0 \<le> x \<and> x < 256 ^ n then Inr (le_bytes n x) else Inl OverflowError)"

lemma length_le_bytes [simp]: "length (le_bytes n x) = n"
  by (induction n arbitrary: x) auto

lemma le_int_le_bytes: "0 \<le> x \<Longrightarrow> x < 256 ^ n \<Longrightarrow> le_int (le_bytes n x) = x"
proof (induction n arbitrary: x)
  case 0
  then show ?case by simp
next
  case (Suc n)
  have "x div 256 < 256 ^ n"
    using Suc.prems by (simp add: div_less_iff_less_mult)
  with Suc.prems Suc.IH [of "x div 256"] have "le_int (le_bytes n (x div 256)) = x div 256"
    by (simp add: pos_imp_zdiv_nonneg_iff)
  then show ?case
    by (simp add: uint_word_of_int take_bit_eq_mod)
qed

lemma le_int_nonneg [simp]: "0 \<le> le_int bs"
  by (induction bs) auto

lemma le_int_less: "le_int bs < 256 ^ length bs"
proof (induction bs)
  case Nil
  then show ?case by simp
next
  case (Cons b bs)
  have "uint b < 256"
    using uint_lt2p [of b] by simp
  with Cons show ?case by simp
qed

lemma le_bytes_inj:
  "le_bytes n x = le_bytes n y \<Longrightarrow> 0 \<le> x \<Longrightarrow> x < 256 ^ n \<Longrightarrow> 0 \<le> y \<Longrightarrow> y < 256 ^ n \<Longrightarrow> x = y"
  by (metis le_int_le_bytes)

end
