(* ===== verification/Worker_Pool.thy ===== *)
theory Worker_Pool
  imports Prelude
begin

text \<open>
  The fleet as the router sees it: \<open>WorkerInfo\<close>, \<open>WorkerPool\<close> and \<open>CanaryVerifier\<close>
  of \<open>src/infera/common/worker_pool.py\<close>, the routing targets of
  \<open>src/infera/router/policy/target.py\<close> and the data-parallel helpers of
  \<open>src/infera/router/dp_routing.py\<close>.
\<close>

section \<open>Data\<close>

text \<open>JSON-like values, for the free-form dictionaries a registration or request carries.\<close>

datatype pyval =
    PNone
  | PBool bool
  | PInt int
  | PFloat real
  | PStr string
  | PList "pyval list"
  | PDict "(string \<times> pyval) list"

datatype WorkerStatus = ACTIVE | DRAINING | DEAD

datatype DisaggMode = MIXED | PREFILL | DECODE

datatype EngineType = SGLANG | VLLM | ATOM

record KvRegistrationMetadata =
  engine_block_size :: "int option"
  index_block_size :: int
  tokenizer :: string
  tokenizer_digest :: string
  tokenizer_canary :: "int list"
  supports_events :: bool
  event_version :: int
  events_endpoint :: "string option"
  snapshot_endpoint :: "string option"
  kv_tiers :: "string list"

record WorkerInfo =
  worker_id :: string
  url :: string
  model_name :: string
  engine :: EngineType
  status :: WorkerStatus
  disagg_mode :: DisaggMode
  disagg_meta :: "(string, pyval) dict"
  kv_events_endpoint :: "string option"
  kv_block_size :: "int option"
  dp_rank :: "int option"
  dp_size :: "int option"
  request_transport :: string
  kv :: "KvRegistrationMetadata option"

section \<open>WorkerPool\<close>

type_synonym WorkerPool = "(string, WorkerInfo) dict"

definition pool_add :: "WorkerPool \<Rightarrow> WorkerInfo \<Rightarrow> WorkerPool" where
  "pool_add p w = dict_put (worker_id w) w p"

definition pool_remove :: "WorkerPool \<Rightarrow> string \<Rightarrow> WorkerPool" where
  "pool_remove p wid = dict_del wid p"

definition pool_get :: "WorkerPool \<Rightarrow> string \<Rightarrow> WorkerInfo option" where
  "pool_get p wid = dict_get p wid"

text \<open>\<open>if model:\<close> skips the filter for \<open>None\<close> and for the empty string.\<close>

definition list_active ::
  "WorkerPool \<Rightarrow> string option \<Rightarrow> DisaggMode option \<Rightarrow> WorkerInfo list" where
  "list_active p model mode =
     (let workers = filter (\<lambda>w. status w = ACTIVE) (map snd p);
          workers = (case model of
                       None \<Rightarrow> workers
                     | Some m \<Rightarrow> if m = [] then workers
                                 else filter (\<lambda>w. model_name w = m) workers);
          workers = (case mode of
                       None \<Rightarrow> workers
                     | Some md \<Rightarrow> filter (\<lambda>w. disagg_mode w = md) workers)
      in workers)"

definition list_all_workers :: "WorkerPool \<Rightarrow> WorkerInfo list" where
  "list_all_workers p = map snd p"

text \<open>Keys are distinct and every record is filed under its own id.\<close>

definition pool_wf :: "WorkerPool \<Rightarrow> bool" where
  "pool_wf p \<longleftrightarrow> dict_wf p \<and> (\<forall>(k, w) \<in> set p. worker_id w = k)"

section \<open>CanaryVerifier\<close>

datatype canary_error = CanaryMismatch string string string "int list" "int list"

type_synonym CanaryVerifier = "(string, int list \<times> string) dict"

definition canary_verify ::
  "CanaryVerifier \<Rightarrow> string \<Rightarrow> string \<Rightarrow> int list \<Rightarrow> canary_error + CanaryVerifier" where
  "canary_verify c model wid canary =
     (case dict_get c model of
        None \<Rightarrow> Inr (dict_put model (canary, wid) c)
      | Some (expected, first_wid) \<Rightarrow>
          if expected = canary then Inr c
          else Inl (CanaryMismatch model first_wid wid expected canary))"

definition canary_forget :: "CanaryVerifier \<Rightarrow> string \<Rightarrow> CanaryVerifier" where
  "canary_forget c model = dict_del model c"

definition canary_reference :: "CanaryVerifier \<Rightarrow> string \<Rightarrow> int list option" where
  "canary_reference c model = map_option fst (dict_get c model)"

text \<open>A stream of registrations: the workers that were accepted, in order.\<close>

fun register_all ::
  "CanaryVerifier \<Rightarrow> (string \<times> string \<times> int list) list \<Rightarrow>
   CanaryVerifier \<times> (string \<times> string \<times> int list) list" where
  "register_all c [] = (c, [])"
| "register_all c ((m, w, t) # rs) =
     (case canary_verify c m w t of
        Inl e \<Rightarrow> register_all c rs
      | Inr c' \<Rightarrow> let (c'', acc) = register_all c' rs in (c'', (m, w, t) # acc))"

section \<open>Routing targets\<close>

definition is_rank_multiplexed :: "WorkerInfo \<Rightarrow> bool" where
  "is_rank_multiplexed w \<longleftrightarrow>
     (case dp_size w of None \<Rightarrow> 1 | Some n \<Rightarrow> if n = 0 then 1 else n) > 1 \<and> dp_rank w = None"

record RouteTarget =
  worker :: WorkerInfo
  target_dp_rank :: "int option"

definition route_key :: "RouteTarget \<Rightarrow> string" where
  "route_key t =
     (case target_dp_rank t of
        None \<Rightarrow> worker_id (worker t)
      | Some r \<Rightarrow> worker_id (worker t) @ ''#dp'' @ str_of_int r)"

text \<open>\<open>range(n)\<close> of a Python integer.\<close>

definition py_range :: "int \<Rightarrow> int list" where
  "py_range n = map int [0..<nat n]"

definition worker_targets :: "WorkerInfo \<Rightarrow> RouteTarget list" where
  "worker_targets w =
     (if is_rank_multiplexed w
      then map (\<lambda>r. \<lparr>worker = w, target_dp_rank = Some r\<rparr>)
             (py_range (case dp_size w of None \<Rightarrow> 0 | Some n \<Rightarrow> n))
      else [\<lparr>worker = w, target_dp_rank = None\<rparr>])"

definition expand_targets :: "WorkerInfo list \<Rightarrow> RouteTarget list" where
  "expand_targets ws = concat (map worker_targets ws)"

section \<open>Data-parallel rank on the wire\<close>

definition rank_in_body :: "RouteTarget \<Rightarrow> bool" where
  "rank_in_body t \<longleftrightarrow> engine (worker t) = ATOM"

definition dp_rank_header :: "RouteTarget \<Rightarrow> (string, string) dict option" where
  "dp_rank_header t =
     (case target_dp_rank t of
        None \<Rightarrow> None
      | Some r \<Rightarrow> if rank_in_body t then None
                  else Some [(''X-Data-Parallel-Rank'', str_of_int r)])"

definition inject_dp_rank :: "(string, pyval) dict \<Rightarrow> RouteTarget \<Rightarrow> (string, pyval) dict" where
  "inject_dp_rank body t =
     (case target_dp_rank t of
        None \<Rightarrow> body
      | Some r \<Rightarrow> if \<not> rank_in_body t then body
                  else dict_put ''data_parallel_rank'' (PInt r) body)"

definition inject_disagg_prefill_dp_rank ::
  "(string, pyval) dict \<Rightarrow> RouteTarget \<Rightarrow> EngineType \<Rightarrow> (string, pyval) dict" where
  "inject_disagg_prefill_dp_rank body prefill_target decode_engine =
     (case target_dp_rank prefill_target of
        None \<Rightarrow> body
      | Some r \<Rightarrow> if decode_engine \<noteq> SGLANG then body
                  else dict_put ''disagg_prefill_dp_rank'' (PInt r) body)"

definition align_room_to_prefill_rank :: "int \<Rightarrow> RouteTarget \<Rightarrow> int" where
  "align_room_to_prefill_rank room t =
     (case (target_dp_rank t, dp_size (worker t)) of
        (Some r, Some n) \<Rightarrow> if n = 0 then room else room - room mod n + r
      | _ \<Rightarrow> room)"

section \<open>Lemmas\<close>

lemma pool_wf_empty: "pool_wf []"
  by (simp add: pool_wf_def)

lemma pool_wf_add [wf_intros]: "pool_wf p \<Longrightarrow> pool_wf (pool_add p w)"
  using set_dict_put [of "worker_id w" w p]
  by (fastforce simp: pool_wf_def pool_add_def intro: dict_wf_put)

lemma pool_wf_remove [wf_intros]: "pool_wf p \<Longrightarrow> pool_wf (pool_remove p wid)"
  by (auto simp: pool_wf_def pool_remove_def set_dict_del dict_wf_del)

lemma expand_targets_Nil [simp]: "expand_targets [] = []"
  by (simp add: expand_targets_def)

lemma expand_targets_Cons [simp]: "expand_targets (w # ws) = worker_targets w @ expand_targets ws"
  by (simp add: expand_targets_def)

lemma worker_targets_nonempty [simp]: "worker_targets w \<noteq> []"
  by (auto simp: worker_targets_def is_rank_multiplexed_def py_range_def
           split: option.splits if_splits)

lemma expand_targets_nonempty: "ws \<noteq> [] \<Longrightarrow> expand_targets ws \<noteq> []"
  by (cases ws) auto

lemma worker_targets_worker: "t \<in> set (worker_targets w) \<Longrightarrow> worker t = w"
  by (auto simp: worker_targets_def split: if_splits)

lemma worker_targets_rank:
  assumes "t \<in> set (worker_targets w)" and "target_dp_rank t = Some r"
  shows "\<exists>n. dp_size w = Some n \<and> 0 \<le> r \<and> r < n"
  using assms
  by (auto simp: worker_targets_def is_rank_multiplexed_def py_range_def
           split: option.splits if_splits)

lemma expand_targets_rank:
  assumes "t \<in> set (expand_targets ws)" and "target_dp_rank t = Some r"
  shows "\<exists>n. dp_size (worker t) = Some n \<and> 0 \<le> r \<and> r < n"
proof -
  from assms(1) obtain w where "t \<in> set (worker_targets w)"
    by (auto simp: expand_targets_def)
  with assms(2) show ?thesis
    using worker_targets_rank worker_targets_worker by metis
qed

text \<open>The id of a target's worker is the part of its route key before the first \<open>#\<close>.\<close>

lemma takeWhile_route_key:
  assumes "CHR ''#'' \<notin> set (worker_id (worker t))"
  shows "takeWhile (\<lambda>c. c \<noteq> CHR ''#'') (route_key t) = worker_id (worker t)"
proof -
  obtain ys where "route_key t = worker_id (worker t) @ ys"
      and "takeWhile (\<lambda>c. c \<noteq> CHR ''#'') ys = []"
    by (cases "target_dp_rank t") (auto simp: route_key_def)
  moreover have "\<forall>c \<in> set (worker_id (worker t)). c \<noteq> CHR ''#''"
    using assms by auto
  ultimately show ?thesis
    by (simp add: takeWhile_append2)
qed

lemma distinct_worker_targets: "distinct (map route_key (worker_targets w))"
  by (auto simp: worker_targets_def py_range_def distinct_map inj_on_def route_key_def
                 str_of_int_def)

section \<open>Properties\<close>

text \<open>
  C18. Route keys identify targets: for workers with distinct ids, none of which contains
  \<open>#\<close> (ids are host:port addresses), expanding the pool gives targets with pairwise
  distinct route keys, so per-target bookkeeping keyed by \<open>route_key\<close> never mixes two
  targets, whether a worker is addressed as one endpoint or fanned out over its DP ranks.
\<close>

theorem expand_targets_route_keys_distinct:
  assumes "distinct (map worker_id ws)"
    and "\<forall>w \<in> set ws. CHR ''#'' \<notin> set (worker_id w)"
  shows "distinct (map route_key (expand_targets ws))"
  using assms
proof (induction ws)
  case Nil
  then show ?case by simp
next
  case (Cons w ws)
  have "route_key t \<noteq> route_key t'"
    if t: "t \<in> set (worker_targets w)" and t': "t' \<in> set (expand_targets ws)" for t t'
  proof -
    from t' obtain w' where w': "w' \<in> set ws" "t' \<in> set (worker_targets w')"
      by (auto simp: expand_targets_def)
    have "worker_id (worker t) \<noteq> worker_id (worker t')"
      using Cons.prems(1) w' t worker_targets_worker by (metis distinct.simps(2) image_eqI list.simps(9) set_map)
    moreover have "CHR ''#'' \<notin> set (worker_id (worker t))" "CHR ''#'' \<notin> set (worker_id (worker t'))"
      using Cons.prems(2) w' t worker_targets_worker by auto
    ultimately show ?thesis
      using takeWhile_route_key by metis
  qed
  with Cons show ?case
    by (auto simp: distinct_worker_targets)
qed

text \<open>A worker record for the witnesses: an SGLang worker with a given id and \<open>--dp-size\<close>.\<close>

abbreviation sample_worker :: "string \<Rightarrow> int option \<Rightarrow> WorkerInfo" where
  "sample_worker wid n \<equiv>
     \<lparr>worker_id = wid, url = ''http://h:30000'', model_name = ''m'', engine = SGLANG,
      status = ACTIVE, disagg_mode = MIXED, disagg_meta = [],
      kv_events_endpoint = Some ''tcp://h:5557'', kv_block_size = Some 2, dp_rank = None,
      dp_size = n, request_transport = ''http'', kv = None\<rparr>"

theorem expand_targets_route_keys_distinct_witness:
  "distinct (map route_key (expand_targets [sample_worker ''a:1'' (Some 2), sample_worker ''b:1'' None]))"
  by (rule expand_targets_route_keys_distinct) simp_all

text \<open>
  C19. Aligning a bootstrap room to the prefill target: for every target the router can pick
  that carries a DP rank, the rewritten room id has that rank as its residue modulo the
  worker's \<open>dp_size\<close> (what SGLang's \<open>follow_bootstrap_room\<close> balancer checks) and keeps
  the random quotient, so two rooms with different quotients stay different.
\<close>

theorem align_room_residue:
  assumes "t \<in> set (expand_targets ws)" and "target_dp_rank t = Some r"
  shows "\<exists>n. dp_size (worker t) = Some n \<and>
             align_room_to_prefill_rank room t mod n = r \<and>
             align_room_to_prefill_rank room t div n = room div n"
proof -
  from expand_targets_rank [OF assms] obtain n
    where n: "dp_size (worker t) = Some n" "0 \<le> r" "r < n" by blast
  have eq: "align_room_to_prefill_rank room t = r + room div n * n"
    using n assms(2) by (simp add: align_room_to_prefill_rank_def minus_mod_eq_div_mult)
  show ?thesis
    using n by (intro exI [of _ n]) (simp add: eq)
qed

theorem align_room_residue_witness:
  "\<exists>n. dp_size (sample_worker ''a:1'' (Some 4)) = Some n \<and>
       align_room_to_prefill_rank 1000003 \<lparr>worker = sample_worker ''a:1'' (Some 4), target_dp_rank = Some 2\<rparr> mod n = 2 \<and>
       align_room_to_prefill_rank 1000003 \<lparr>worker = sample_worker ''a:1'' (Some 4), target_dp_rank = Some 2\<rparr> div n = 1000003 div n"
proof -
  let ?t = "\<lparr>worker = sample_worker ''a:1'' (Some 4), target_dp_rank = Some 2\<rparr>"
  have "?t \<in> set (expand_targets [sample_worker ''a:1'' (Some 4)])"
    by (simp add: worker_targets_def is_rank_multiplexed_def py_range_def upt_rec)
  from align_room_residue [OF this, of 2 1000003] show ?thesis by simp
qed

lemma canary_reference_stable:
  "canary_reference c m = Some t \<Longrightarrow> canary_verify c m' w t' = Inr c' \<Longrightarrow>
   canary_reference c' m = Some t"
  by (auto simp: canary_verify_def canary_reference_def dict_simps
           split: option.splits if_splits prod.splits)

lemma canary_verify_accepts:
  "canary_verify c m w t = Inr c' \<Longrightarrow> canary_reference c' m = Some t"
  by (auto simp: canary_verify_def canary_reference_def dict_simps
           split: option.splits if_splits prod.splits)

lemma register_all_reference:
  "canary_reference c m = Some t \<Longrightarrow> canary_reference (fst (register_all c rs)) m = Some t"
proof (induction c rs rule: register_all.induct)
  case (2 c m' w' t' rs)
  then show ?case
    by (cases "canary_verify c m' w' t'")
       (auto dest: canary_reference_stable split: prod.splits)
qed simp

text \<open>
  C20. Tokenizer canaries: however registrations are ordered, the canary of every worker the
  verifier accepts is the model's reference canary at the end, so any two accepted workers of
  one model name tokenize the canary string identically; a worker whose canary differs from
  the first one's is refused.
\<close>

theorem accepted_canary_is_reference:
  "(m, w, t) \<in> set (snd (register_all c rs)) \<Longrightarrow>
   canary_reference (fst (register_all c rs)) m = Some t"
proof (induction c rs rule: register_all.induct)
  case (2 c m' w' t' rs)
  show ?case
  proof (cases "canary_verify c m' w' t'")
    case (Inl e)
    with 2 show ?thesis by simp
  next
    case (Inr c')
    have "canary_reference (fst (register_all c' rs)) m' = Some t'"
      using canary_verify_accepts [OF Inr] by (rule register_all_reference)
    with 2 Inr show ?thesis by (auto simp: case_prod_beta Let_def)
  qed
qed simp

theorem accepted_canary_is_reference_witness:
  "canary_reference (fst (register_all []
      [(''m'', ''w1'', [1, 2]), (''m'', ''w2'', [1, 3]), (''m'', ''w3'', [1, 2])])) ''m''
   = Some [1, 2]"
  by (rule accepted_canary_is_reference [of _ "''w3''"]) (simp add: canary_verify_def)

text \<open>
  A target's DP rank travels by exactly one channel: for a target that carries a rank,
  the \<open>X-Data-Parallel-Rank\<close> header is present exactly when the engine is not ATOM, and then
  the body is untouched; for ATOM the header is absent and the body's \<open>data_parallel_rank\<close> is
  the rank, whatever the client sent there. A target without a rank changes neither.
\<close>

theorem dp_rank_single_channel:
  "(case target_dp_rank t of
      None \<Rightarrow> dp_rank_header t = None \<and> inject_dp_rank body t = body
    | Some r \<Rightarrow>
        if engine (worker t) = ATOM
        then dp_rank_header t = None \<and>
             dict_get (inject_dp_rank body t) ''data_parallel_rank'' = Some (PInt r)
        else dp_rank_header t = Some [(''X-Data-Parallel-Rank'', str_of_int r)] \<and>
             inject_dp_rank body t = body)"
  by (auto simp: dp_rank_header_def inject_dp_rank_def rank_in_body_def dict_simps
           split: option.splits)

end
