(* ===== verification/Breaker.thy ===== *)
theory Breaker
  imports Prelude
begin

text \<open>
  The per-worker circuit breaker of \<open>src/infera/router/breaker.py\<close>. The injected clock
  \<open>now()\<close> is an argument of the operations that read it; the Prometheus mirror and the log
  lines have no effect on the breaker's state and are left out.
\<close>

section \<open>State\<close>

datatype BreakerState = CLOSED | OPEN | HALF_OPEN

record breaker_entry =
  consecutive_failures :: int
  entry_state :: BreakerState
  opens_until :: real
  next_cooldown :: real
  probe_started_at :: "real option"
  trips :: int

record CircuitBreaker =
  failure_threshold :: int
  cooldown :: real
  max_cooldown :: real
  probe_timeout :: real
  breaker_entries :: "(string, breaker_entry) dict"

definition is_worker_fault :: "int \<Rightarrow> bool" where
  "is_worker_fault st \<longleftrightarrow> st \<ge> 500 \<or> st = 0"

section \<open>Queries\<close>

definition fresh_entry :: "CircuitBreaker \<Rightarrow> breaker_entry" where
  "fresh_entry b =
     \<lparr>consecutive_failures = 0, entry_state = CLOSED, opens_until = 0,
      next_cooldown = cooldown b, probe_started_at = None, trips = 0\<rparr>"

definition set_entry :: "CircuitBreaker \<Rightarrow> string \<Rightarrow> breaker_entry \<Rightarrow> CircuitBreaker" where
  "set_entry b wid e = b\<lparr>breaker_entries := dict_put wid e (breaker_entries b)\<rparr>"

text \<open>\<open>_entry\<close>: the entry of a worker, created on first use.\<close>

definition entry_of :: "CircuitBreaker \<Rightarrow> string \<Rightarrow> breaker_entry \<times> CircuitBreaker" where
  "entry_of b wid =
     (case dict_get (breaker_entries b) wid of
        None \<Rightarrow> (fresh_entry b, set_entry b wid (fresh_entry b))
      | Some e \<Rightarrow> (e, b))"

definition breaker_enabled :: "CircuitBreaker \<Rightarrow> bool" where
  "breaker_enabled b \<longleftrightarrow> failure_threshold b > 0"

definition allows :: "CircuitBreaker \<Rightarrow> real \<Rightarrow> string \<Rightarrow> bool \<times> CircuitBreaker" where
  "allows b now wid =
     (if \<not> breaker_enabled b then (True, b)
      else case dict_get (breaker_entries b) wid of
        None \<Rightarrow> (True, b)
      | Some e \<Rightarrow>
          if entry_state e = CLOSED then (True, b)
          else if entry_state e = OPEN \<and> now < opens_until e then (False, b)
          else
            let e = (if entry_state e = OPEN
                     then e\<lparr>entry_state := HALF_OPEN, probe_started_at := None\<rparr> else e)
            in if (case probe_started_at e of
                     None \<Rightarrow> False
                   | Some started \<Rightarrow> now - started < probe_timeout b)
               then (False, set_entry b wid e)
               else (True, set_entry b wid (e\<lparr>probe_started_at := Some now\<rparr>)))"

text \<open>
  The list comprehension of \<open>filter\<close>: one \<open>allows\<close> per candidate, in order, each with its
  side effect. \<open>id_of\<close> is the id of a candidate.
\<close>

fun filter_allowed ::
  "('w \<Rightarrow> string) \<Rightarrow> CircuitBreaker \<Rightarrow> real \<Rightarrow> 'w list \<Rightarrow> 'w list \<times> CircuitBreaker" where
  "filter_allowed id_of b now [] = ([], b)"
| "filter_allowed id_of b now (w # ws) =
     (let (ok, b1) = allows b now (id_of w);
          (kept, b2) = filter_allowed id_of b1 now ws
      in (if ok then w # kept else kept, b2))"

definition breaker_filter ::
  "('w \<Rightarrow> string) \<Rightarrow> CircuitBreaker \<Rightarrow> real \<Rightarrow> 'w list \<Rightarrow> 'w list \<times> CircuitBreaker" where
  "breaker_filter id_of b now ws =
     (let (allowed, b') = filter_allowed id_of b now ws
      in if allowed \<noteq> [] then (allowed, b') else (ws, b'))"

definition state_of :: "CircuitBreaker \<Rightarrow> string \<Rightarrow> BreakerState" where
  "state_of b wid =
     (case dict_get (breaker_entries b) wid of None \<Rightarrow> CLOSED | Some e \<Rightarrow> entry_state e)"

section \<open>Outcomes\<close>

definition record_success :: "CircuitBreaker \<Rightarrow> string \<Rightarrow> CircuitBreaker" where
  "record_success b wid =
     (case dict_get (breaker_entries b) wid of
        None \<Rightarrow> b
      | Some e \<Rightarrow> set_entry b wid
          (e\<lparr>consecutive_failures := 0, entry_state := CLOSED, probe_started_at := None,
             next_cooldown := cooldown b\<rparr>))"

definition record_neutral :: "CircuitBreaker \<Rightarrow> string \<Rightarrow> CircuitBreaker" where
  "record_neutral b wid =
     (case dict_get (breaker_entries b) wid of
        None \<Rightarrow> b
      | Some e \<Rightarrow> set_entry b wid (e\<lparr>probe_started_at := None\<rparr>))"

definition breaker_forget :: "CircuitBreaker \<Rightarrow> string \<Rightarrow> CircuitBreaker" where
  "breaker_forget b wid = b\<lparr>breaker_entries := dict_del wid (breaker_entries b)\<rparr>"

text \<open>\<open>_open\<close>: a trip is counted on the edge into \<open>OPEN\<close> only.\<close>

definition open_entry :: "real \<Rightarrow> breaker_entry \<Rightarrow> breaker_entry" where
  "open_entry now e =
     e\<lparr>entry_state := OPEN, opens_until := now + next_cooldown e,
       trips := (if entry_state e \<noteq> OPEN then trips e + 1 else trips e)\<rparr>"

definition record_failure :: "CircuitBreaker \<Rightarrow> real \<Rightarrow> string \<Rightarrow> CircuitBreaker" where
  "record_failure b now wid =
     (if \<not> breaker_enabled b then b
      else
        let (e0, b) = entry_of b wid;
            was_probe = (entry_state e0 = HALF_OPEN);
            e = e0\<lparr>consecutive_failures := consecutive_failures e0 + 1,
                   probe_started_at := None\<rparr>
        in if was_probe then
             set_entry b wid
               (open_entry now (e\<lparr>next_cooldown := min (next_cooldown e * 2) (max_cooldown b)\<rparr>))
           else if consecutive_failures e \<ge> failure_threshold b then
             set_entry b wid (open_entry now e)
           else set_entry b wid e)"

definition breaker_snapshot ::
  "CircuitBreaker \<Rightarrow> (string, BreakerState \<times> int \<times> int) dict" where
  "breaker_snapshot b =
     map (\<lambda>(wid, e). (wid, (entry_state e, consecutive_failures e, trips e))) (breaker_entries b)"

section \<open>Histories\<close>

text \<open>
  What the routers do to a breaker, one call at a time, each with the clock's reading.
\<close>

datatype breaker_event =
    Allows string
  | Success string
  | Neutral string
  | Failure string
  | Forget string

fun event_worker :: "breaker_event \<Rightarrow> string" where
  "event_worker (Allows w) = w"
| "event_worker (Success w) = w"
| "event_worker (Neutral w) = w"
| "event_worker (Failure w) = w"
| "event_worker (Forget w) = w"

fun breaker_step :: "CircuitBreaker \<Rightarrow> real \<times> breaker_event \<Rightarrow> CircuitBreaker" where
  "breaker_step b (t, Allows w) = snd (allows b t w)"
| "breaker_step b (t, Success w) = record_success b w"
| "breaker_step b (t, Neutral w) = record_neutral b w"
| "breaker_step b (t, Failure w) = record_failure b t w"
| "breaker_step b (t, Forget w) = breaker_forget b w"

abbreviation breaker_run :: "CircuitBreaker \<Rightarrow> (real \<times> breaker_event) list \<Rightarrow> CircuitBreaker" where
  "breaker_run \<equiv> foldl breaker_step"

text \<open>The times at which a history admits a dispatch to a worker.\<close>

fun admissions :: "string \<Rightarrow> CircuitBreaker \<Rightarrow> (real \<times> breaker_event) list \<Rightarrow> real list" where
  "admissions w b [] = []"
| "admissions w b ((t, ev) # evs) =
     (if ev = Allows w \<and> fst (allows b t w)
      then t # admissions w (breaker_step b (t, ev)) evs
      else admissions w (breaker_step b (t, ev)) evs)"

section \<open>Frame and configuration lemmas\<close>

lemma set_entry_simps [simp]:
  "failure_threshold (set_entry b w e) = failure_threshold b"
  "cooldown (set_entry b w e) = cooldown b"
  "max_cooldown (set_entry b w e) = max_cooldown b"
  "probe_timeout (set_entry b w e) = probe_timeout b"
  "breaker_entries (set_entry b w e) = dict_put w e (breaker_entries b)"
  by (simp_all add: set_entry_def)

lemmas breaker_defs =
  allows_def record_success_def record_neutral_def breaker_forget_def record_failure_def
  entry_of_def fresh_entry_def breaker_enabled_def Let_def

abbreviation same_config :: "CircuitBreaker \<Rightarrow> CircuitBreaker \<Rightarrow> bool" where
  "same_config b b' \<equiv>
     failure_threshold b' = failure_threshold b \<and> cooldown b' = cooldown b \<and>
     max_cooldown b' = max_cooldown b \<and> probe_timeout b' = probe_timeout b"

lemma step_config: "same_config b (breaker_step b ev)"
  by (cases "(b, ev)" rule: breaker_step.cases)
     (auto simp: breaker_defs split: option.splits if_splits)

lemma run_config: "same_config b (breaker_run b evs)"
proof (induction evs rule: rev_induct)
  case (snoc ev evs)
  with step_config [of "breaker_run b evs" ev] show ?case by simp
qed simp

text \<open>An event about one worker leaves the entries of the others alone.\<close>

lemma step_frame:
  "event_worker (snd ev) \<noteq> w \<Longrightarrow>
   dict_get (breaker_entries (breaker_step b ev)) w = dict_get (breaker_entries b) w"
  by (cases "(b, ev)" rule: breaker_step.cases)
     (auto simp: breaker_defs dict_simps split: option.splits if_splits)

lemma step_dict_wf [wf_intros]:
  "dict_wf (breaker_entries b) \<Longrightarrow> dict_wf (breaker_entries (breaker_step b ev))"
  by (cases "(b, ev)" rule: breaker_step.cases)
     (auto simp: breaker_defs intro!: wf_intros split: option.splits if_splits)

section \<open>The probe slot\<close>

lemma allows_half_open:
  assumes "breaker_enabled b" and "dict_get (breaker_entries b) w = Some e"
    and "entry_state e = HALF_OPEN" and "probe_started_at e = Some s"
  shows "allows b t w =
    (if t - s < probe_timeout b then (False, set_entry b w e)
     else (True, set_entry b w (e\<lparr>probe_started_at := Some t\<rparr>)))"
  using assms by (simp add: allows_def)

lemma allows_open:
  assumes "breaker_enabled b" and "dict_get (breaker_entries b) w = Some e"
    and "entry_state e = OPEN"
  shows "allows b t w =
    (if t < opens_until e then (False, b)
     else (True, set_entry b w (e\<lparr>entry_state := HALF_OPEN, probe_started_at := Some t\<rparr>)))"
  using assms by (simp add: allows_def)

text \<open>No outcome of worker \<open>w\<close> is reported in the history.\<close>

definition no_outcome :: "string \<Rightarrow> (real \<times> breaker_event) list \<Rightarrow> bool" where
  "no_outcome w evs \<longleftrightarrow> (\<forall>(t, ev) \<in> set evs. event_worker ev = w \<longrightarrow> ev = Allows w)"

lemma no_outcome_simps [simp]:
  "no_outcome w []"
  "no_outcome w ((t, ev) # evs) \<longleftrightarrow> (event_worker ev = w \<longrightarrow> ev = Allows w) \<and> no_outcome w evs"
  by (auto simp: no_outcome_def)

lemma step_enabled [simp]: "breaker_enabled (breaker_step b ev) = breaker_enabled b"
  using step_config [of b ev] by (simp add: breaker_enabled_def)

lemma step_probe_timeout [simp]: "probe_timeout (breaker_step b ev) = probe_timeout b"
  using step_config [of b ev] by simp

lemma allows_config [simp]:
  "breaker_enabled (snd (allows b t w)) = breaker_enabled b"
  "probe_timeout (snd (allows b t w)) = probe_timeout b"
  using step_enabled [of b "(t, Allows w)"] step_probe_timeout [of b "(t, Allows w)"] by simp_all

lemma admissions_half_open:
  assumes "breaker_enabled b" and "dict_get (breaker_entries b) w = Some e"
    and "entry_state e = HALF_OPEN" and "probe_started_at e = Some s"
    and "no_outcome w evs"
  shows "successively (\<lambda>s t. probe_timeout b \<le> t - s) (s # admissions w b evs)"
  using assms
proof (induction evs arbitrary: b e s)
  case (Cons tev evs)
  obtain t ev where tev: "tev = (t, ev)" by fastforce
  show ?case
  proof (cases "ev = Allows w")
    case True
    show ?thesis
    proof (cases "t - s < probe_timeout b")
      case True
      with Cons.prems tev \<open>ev = Allows w\<close> show ?thesis
        using Cons.IH [of "set_entry b w e" e s]
        by (simp add: allows_half_open breaker_enabled_def dict_simps)
    next
      case False
      let ?e = "e\<lparr>probe_started_at := Some t\<rparr>"
      have "successively (\<lambda>s t. probe_timeout b \<le> t - s) (t # admissions w (set_entry b w ?e) evs)"
        using Cons.IH [of "set_entry b w ?e" ?e t] Cons.prems tev
        by (simp add: breaker_enabled_def dict_simps)
      with False Cons.prems tev \<open>ev = Allows w\<close> show ?thesis
        by (simp add: allows_half_open)
    qed
  next
    case False
    then have "event_worker ev \<noteq> w" using Cons.prems tev by auto
    with Cons.prems tev False show ?thesis
      using Cons.IH [of "breaker_step b tev" e s] by (simp add: step_frame)
  qed
qed simp

text \<open>
  C14. One probe at a time: from any state in which a worker's breaker is not closed, however
  dispatches are interleaved with events of other workers, two consecutive admissions of the
  worker with no outcome reported in between are at least \<open>probe_timeout\<close> apart, so a worker
  that may be broken never receives a burst.
\<close>

theorem probes_spaced_by_timeout:
  assumes "breaker_enabled b" and "state_of b w \<noteq> CLOSED"
    and "no_outcome w evs"
  shows "successively (\<lambda>s t. probe_timeout b \<le> t - s) (admissions w b evs)"
  using assms
proof (induction evs arbitrary: b)
  case (Cons tev evs)
  obtain t ev where tev: "tev = (t, ev)" by fastforce
  from Cons.prems(2) obtain e where e: "dict_get (breaker_entries b) w = Some e" "entry_state e \<noteq> CLOSED"
    by (auto simp: state_of_def split: option.splits)
  show ?case
  proof (cases "ev = Allows w \<and> fst (allows b t w)")
    case True
    let ?b = "breaker_step b tev"
    have "\<exists>e'. dict_get (breaker_entries ?b) w = Some e' \<and> entry_state e' = HALF_OPEN \<and> probe_started_at e' = Some t"
      using True tev e Cons.prems(1)
      by (cases "entry_state e") (auto simp: allows_def dict_simps Let_def split: if_splits)
    then obtain e' where "dict_get (breaker_entries ?b) w = Some e'" "entry_state e' = HALF_OPEN"
        "probe_started_at e' = Some t" by blast
    from admissions_half_open [OF _ this, of evs] Cons.prems True tev show ?thesis by simp
  next
    case False
    let ?b = "breaker_step b tev"
    have "state_of ?b w \<noteq> CLOSED"
    proof (cases "ev = Allows w")
      case True
      with False tev e Cons.prems(1) show ?thesis
        by (cases "entry_state e") (auto simp: allows_def state_of_def dict_simps Let_def)
    next
      case False
      then have "event_worker (snd tev) \<noteq> w" using Cons.prems(3) tev by auto
      with e show ?thesis by (simp add: state_of_def step_frame)
    qed
    with Cons.IH [of ?b] Cons.prems(1,3) tev
    have "successively (\<lambda>s t. probe_timeout b \<le> t - s) (admissions w ?b evs)" by simp
    then show ?thesis by (simp only: tev admissions.simps if_not_P [OF False])
  qed
qed simp

text \<open>A breaker with one tripped worker, for the witnesses.\<close>

abbreviation sample_breaker :: "(string, breaker_entry) dict \<Rightarrow> CircuitBreaker" where
  "sample_breaker es \<equiv>
     \<lparr>failure_threshold = 3, cooldown = 5, max_cooldown = 60, probe_timeout = 60,
      breaker_entries = es\<rparr>"

abbreviation sample_open :: breaker_entry where
  "sample_open \<equiv>
     \<lparr>consecutive_failures = 3, entry_state = OPEN, opens_until = 5, next_cooldown = 5,
      probe_started_at = None, trips = 1\<rparr>"

theorem probes_spaced_by_timeout_witness:
  "admissions ''w'' (sample_breaker [(''w'', sample_open)])
     [(0, Allows ''w''), (6, Allows ''w''), (20, Allows ''v''), (30, Allows ''w''), (66, Allows ''w'')] = [6, 66] \<and>
   successively (\<lambda>s t. 60 \<le> t - s) [6, 66 :: real]"
  using probes_spaced_by_timeout [of "sample_breaker [(''w'', sample_open)]" "''w''"
      "[(0, Allows ''w''), (6, Allows ''w''), (20, Allows ''v''), (30, Allows ''w''), (66, Allows ''w'')]"]
  by (simp add: breaker_enabled_def state_of_def allows_def Let_def)

section \<open>Tripping\<close>

definition scoring_history :: "string \<Rightarrow> (real \<times> breaker_event) list \<Rightarrow> bool" where
  "scoring_history w evs \<longleftrightarrow>
     (\<forall>(t, ev) \<in> set evs. event_worker ev = w \<longrightarrow> ev \<in> {Allows w, Neutral w, Failure w})"

definition count_failures :: "string \<Rightarrow> (real \<times> breaker_event) list \<Rightarrow> int" where
  "count_failures w evs = int (length (filter (\<lambda>(t, ev). ev = Failure w) evs))"

text \<open>The worker is closed with \<open>k\<close> failures on record.\<close>

definition closed_with :: "CircuitBreaker \<Rightarrow> string \<Rightarrow> int \<Rightarrow> bool" where
  "closed_with b w k \<longleftrightarrow>
     (case dict_get (breaker_entries b) w of
        None \<Rightarrow> k = 0
      | Some e \<Rightarrow> entry_state e = CLOSED \<and> consecutive_failures e = k \<and> next_cooldown e = cooldown b)"

lemma closed_with_state: "closed_with b w k \<Longrightarrow> state_of b w = CLOSED"
  by (auto simp: closed_with_def state_of_def split: option.splits)

lemma allows_closed: "state_of b w = CLOSED \<Longrightarrow> allows b t w = (True, b)"
  by (cases "dict_get (breaker_entries b) w") (simp_all add: allows_def state_of_def)

lemma closed_with_quiet:
  assumes "closed_with b w k" and "ev = Allows w \<or> ev = Neutral w \<or> event_worker ev \<noteq> w"
  shows "closed_with (breaker_step b (t, ev)) w k"
proof (cases "event_worker ev = w")
  case True
  with assms(2) have "ev = Allows w \<or> ev = Neutral w" by simp
  then show ?thesis
  proof
    assume "ev = Allows w"
    with assms(1) closed_with_state show ?thesis by (simp add: allows_closed)
  next
    assume "ev = Neutral w"
    with assms(1) show ?thesis
      by (auto simp: closed_with_def record_neutral_def dict_simps split: option.splits)
  qed
next
  case False
  then show ?thesis
    using assms(1) step_frame [of "(t, ev)" w b] step_config [of b "(t, ev)"]
    by (cases "dict_get (breaker_entries b) w") (auto simp: closed_with_def)
qed

lemma closed_with_failure:
  assumes "breaker_enabled b" and "closed_with b w k"
  shows "if k + 1 < failure_threshold b then closed_with (record_failure b t w) w (k + 1)
         else \<exists>e. dict_get (breaker_entries (record_failure b t w)) w = Some e \<and>
                  entry_state e = OPEN \<and> opens_until e = t + cooldown b"
  using assms
  by (auto simp: closed_with_def record_failure_def entry_of_def fresh_entry_def open_entry_def
                 Let_def dict_simps split: option.splits)

lemma run_enabled [simp]: "breaker_enabled (breaker_run b evs) = breaker_enabled b"
  using run_config [of b evs] by (simp add: breaker_enabled_def)

lemma run_closed_with:
  assumes "breaker_enabled b" and "closed_with b w 0" and "scoring_history w evs"
    and "count_failures w evs < failure_threshold b"
  shows "closed_with (breaker_run b evs) w (count_failures w evs)"
  using assms
proof (induction evs rule: rev_induct)
  case Nil
  then show ?case by (simp add: count_failures_def)
next
  case (snoc tev evs)
  obtain t ev where tev: "tev = (t, ev)" by fastforce
  have closed: "closed_with (breaker_run b evs) w (count_failures w evs)"
    using snoc by (auto simp: scoring_history_def count_failures_def split: if_splits)
  show ?case
  proof (cases "ev = Failure w")
    case True
    with closed closed_with_failure [of "breaker_run b evs" w "count_failures w evs" t]
    show ?thesis using snoc.prems tev run_config [of b evs]
      by (auto simp: count_failures_def add.commute split: if_splits)
  next
    case False
    then have "ev = Allows w \<or> ev = Neutral w \<or> event_worker ev \<noteq> w"
      using snoc.prems(3) tev by (auto simp: scoring_history_def)
    from closed_with_quiet [OF closed this, of t] tev False show ?thesis
      by (simp add: count_failures_def)
  qed
qed

text \<open>
  C15. The trip point: a worker with no history stays closed through any interleaving of
  dispatches, neutral outcomes (4xx, 429) and failures with fewer than \<open>failure_threshold\<close>
  failures and no success; the next failure that makes the count reach the threshold opens the
  breaker, and from then on the worker is refused until \<open>cooldown\<close> seconds have passed.
\<close>

theorem trips_exactly_at_threshold:
  assumes "breaker_enabled b" and "dict_get (breaker_entries b) w = None"
    and "scoring_history w evs"
    and "count_failures w evs = failure_threshold b - 1"
  shows "state_of (breaker_run b evs) w = CLOSED \<and>
         state_of (breaker_run b (evs @ [(t, Failure w)])) w = OPEN \<and>
         (\<forall>t' < t + cooldown b. \<not> fst (allows (breaker_run b (evs @ [(t, Failure w)])) t' w))"
proof -
  let ?b = "breaker_run b evs"
  have closed: "closed_with ?b w (failure_threshold b - 1)"
    using run_closed_with [of b w evs] assms by (simp add: closed_with_def)
  then obtain e where e: "dict_get (breaker_entries (record_failure ?b t w)) w = Some e"
      "entry_state e = OPEN" "opens_until e = t + cooldown b"
    using closed_with_failure [of ?b w "failure_threshold b - 1" t] run_config [of b evs] assms(1)
    by auto
  have "breaker_enabled (record_failure ?b t w)"
    using step_enabled [of ?b "(t, Failure w)"] assms(1) by simp
  then show ?thesis
    using closed_with_state [OF closed] e by (simp add: state_of_def allows_open)
qed

theorem trips_exactly_at_threshold_witness:
  "state_of (breaker_run (sample_breaker []) [(1, Failure ''w''), (2, Neutral ''w''), (3, Failure ''w'')]) ''w'' = CLOSED \<and>
   state_of (breaker_run (sample_breaker []) ([(1, Failure ''w''), (2, Neutral ''w''), (3, Failure ''w'')] @ [(4, Failure ''w'')])) ''w'' = OPEN"
  using trips_exactly_at_threshold [of "sample_breaker []" "''w''"
      "[(1, Failure ''w''), (2, Neutral ''w''), (3, Failure ''w'')]" 4]
  by (simp add: breaker_enabled_def scoring_history_def count_failures_def)

section \<open>Backing off\<close>

text \<open>Probe at \<open>ta\<close>, failure reported at \<open>tf\<close>, for each pair in turn.\<close>

fun fail_probes :: "CircuitBreaker \<Rightarrow> string \<Rightarrow> (real \<times> real) list \<Rightarrow> CircuitBreaker" where
  "fail_probes b w [] = b"
| "fail_probes b w ((ta, tf) # ps) =
     fail_probes (record_failure (snd (allows b ta w)) tf w) w ps"

text \<open>Every probe of the schedule is admitted.\<close>

fun probes_admitted :: "CircuitBreaker \<Rightarrow> string \<Rightarrow> (real \<times> real) list \<Rightarrow> bool" where
  "probes_admitted b w [] = True"
| "probes_admitted b w ((ta, tf) # ps) =
     (fst (allows b ta w) \<and> probes_admitted (record_failure (snd (allows b ta w)) tf w) w ps)"

lemma failed_probe:
  assumes "breaker_enabled b" and "dict_get (breaker_entries b) w = Some e"
    and "entry_state e = OPEN" and "fst (allows b ta w)"
  shows "\<exists>e'. dict_get (breaker_entries (record_failure (snd (allows b ta w)) tf w)) w = Some e' \<and>
              entry_state e' = OPEN \<and> next_cooldown e' = min (next_cooldown e * 2) (max_cooldown b) \<and>
              opens_until e' = tf + next_cooldown e' \<and> trips e' = trips e + 1"
  using assms
  by (auto simp: allows_open record_failure_def entry_of_def open_entry_def breaker_enabled_def
                 Let_def dict_simps split: if_splits)

lemma failed_probe_config:
  "same_config b (record_failure (snd (allows b ta w)) tf w)"
  using step_config [of b "(ta, Allows w)"] step_config [of "snd (allows b ta w)" "(tf, Failure w)"]
  by simp

text \<open>
  C16. Exponential backoff: after a trip, \<open>k\<close> probes in a row that are admitted and fail leave
  the breaker open with its cooldown at \<open>cooldown * 2 ^ k\<close> capped by \<open>max_cooldown\<close>, counted
  from the last failure, and each failed probe counts as one trip.
\<close>

theorem failed_probes_back_off:
  assumes "breaker_enabled b" and "dict_get (breaker_entries b) w = Some e"
    and "entry_state e = OPEN" and "next_cooldown e \<le> max_cooldown b" and "0 \<le> max_cooldown b"
    and "probes_admitted b w ps"
  shows "\<exists>e'. dict_get (breaker_entries (fail_probes b w ps)) w = Some e' \<and>
              entry_state e' = OPEN \<and>
              next_cooldown e' = min (next_cooldown e * 2 ^ length ps) (max_cooldown b) \<and>
              trips e' = trips e + int (length ps) \<and>
              (ps \<noteq> [] \<longrightarrow> opens_until e' = snd (last ps) + next_cooldown e')"
  using assms
proof (induction ps arbitrary: b e)
  case (Cons p ps)
  obtain ta tf where p: "p = (ta, tf)" by fastforce
  let ?b = "record_failure (snd (allows b ta w)) tf w"
  from failed_probe [of b w e ta tf] Cons.prems p obtain e1
    where e1: "dict_get (breaker_entries ?b) w = Some e1" "entry_state e1 = OPEN"
      "next_cooldown e1 = min (next_cooldown e * 2) (max_cooldown b)"
      "opens_until e1 = tf + next_cooldown e1" "trips e1 = trips e + 1" by auto
  have cfg: "breaker_enabled ?b" "max_cooldown ?b = max_cooldown b"
    using failed_probe_config [of b ta w tf] Cons.prems(1) by (simp_all add: breaker_enabled_def)
  have "next_cooldown e1 * 2 ^ length ps = min (next_cooldown e * 2 ^ Suc (length ps)) (max_cooldown b * 2 ^ length ps)"
    by (simp add: e1(3) min_mult_distrib_right)
  moreover have "max_cooldown b \<le> max_cooldown b * 2 ^ length ps"
    using Cons.prems(5) by (simp add: mult_le_cancel_left1)
  ultimately have mn: "min (next_cooldown e1 * 2 ^ length ps) (max_cooldown b) =
      min (next_cooldown e * 2 ^ Suc (length ps)) (max_cooldown b)"
    by simp
  from Cons.IH [OF cfg(1) e1(1,2)] cfg(2) e1 Cons.prems(5,6) p obtain e2 where
    e2: "dict_get (breaker_entries (fail_probes ?b w ps)) w = Some e2" "entry_state e2 = OPEN"
      "next_cooldown e2 = min (next_cooldown e1 * 2 ^ length ps) (max_cooldown b)"
      "trips e2 = trips e1 + int (length ps)"
      "ps \<noteq> [] \<longrightarrow> opens_until e2 = snd (last ps) + next_cooldown e2"
    by auto
  moreover have "ps = [] \<Longrightarrow> e2 = e1" using e2(1) e1(1) by simp
  ultimately show ?case
    using mn e1(4,5) p by (intro exI [of _ e2]) auto
qed simp

theorem failed_probes_back_off_witness:
  "\<exists>e'. dict_get (breaker_entries (fail_probes (sample_breaker [(''w'', sample_open)]) ''w'' [(5, 6), (16, 17)])) ''w'' = Some e' \<and>
        opens_until e' = 17 + 20"
  using failed_probes_back_off [of "sample_breaker [(''w'', sample_open)]" "''w''" sample_open "[(5, 6), (16, 17)]"]
  by (auto simp: breaker_enabled_def allows_def record_failure_def entry_of_def open_entry_def Let_def)

section \<open>Filtering candidates\<close>

lemma allows_cong:
  assumes "same_config b b'"
    and "dict_get (breaker_entries b') w = dict_get (breaker_entries b) w"
  shows "fst (allows b' t w) = fst (allows b t w)"
  using assms by (simp add: allows_def breaker_enabled_def Let_def split: option.splits)

lemma filter_allowed_independent:
  assumes "distinct (map id_of ws)" and "same_config b0 b"
    and "\<forall>w \<in> set ws. dict_get (breaker_entries b) (id_of w) = dict_get (breaker_entries b0) (id_of w)"
  shows "fst (filter_allowed id_of b now ws) = filter (\<lambda>w. fst (allows b0 now (id_of w))) ws"
  using assms
proof (induction ws arbitrary: b)
  case (Cons w ws)
  let ?b = "snd (allows b now (id_of w))"
  have "dict_get (breaker_entries ?b) (id_of v) = dict_get (breaker_entries b0) (id_of v)"
    if "v \<in> set ws" for v
    using that Cons.prems step_frame [of "(now, Allows (id_of w))" "id_of v" b] by force
  moreover have "same_config b0 ?b"
    using Cons.prems(2) step_config [of b "(now, Allows (id_of w))"] by simp
  ultimately have "fst (filter_allowed id_of ?b now ws) = filter (\<lambda>w. fst (allows b0 now (id_of w))) ws"
    using Cons by simp
  moreover have "fst (allows b now (id_of w)) = fst (allows b0 now (id_of w))"
    using Cons.prems by (intro allows_cong) auto
  ultimately show ?case
    by (simp add: case_prod_beta Let_def)
qed simp

text \<open>
  C17. Filtering candidates: for candidates with distinct ids the filter returns exactly the
  candidates their own breakers admit, in order; only when every one of them is refused does it
  return them all, so a non-empty candidate list never becomes empty and a partial outage never
  turns into a total one.
\<close>

theorem breaker_filter_spec:
  assumes "distinct (map id_of ws)"
  shows "fst (breaker_filter id_of b now ws) =
           (let ok = filter (\<lambda>w. fst (allows b now (id_of w))) ws in if ok \<noteq> [] then ok else ws) \<and>
         (fst (breaker_filter id_of b now ws) = [] \<longleftrightarrow> ws = [])"
  using filter_allowed_independent [OF assms, of b b now]
  by (auto simp: breaker_filter_def case_prod_beta Let_def)

theorem breaker_filter_spec_witness:
  "fst (breaker_filter id (sample_breaker [(''w'', sample_open)]) 1 [''v'', ''w'']) = [''v''] \<and>
   fst (breaker_filter id (sample_breaker [(''w'', sample_open)]) 1 [''w'']) = [''w'']"
  using breaker_filter_spec [of id "[''v'', ''w'']" "sample_breaker [(''w'', sample_open)]" 1]
    breaker_filter_spec [of id "[''w'']" "sample_breaker [(''w'', sample_open)]" 1]
  by (simp add: allows_def breaker_enabled_def)

section \<open>Recovery\<close>

text \<open>All deadlines on record lie within \<open>max_cooldown\<close> of time \<open>T\<close>, all claims before it.\<close>

definition entry_within :: "CircuitBreaker \<Rightarrow> real \<Rightarrow> breaker_entry \<Rightarrow> bool" where
  "entry_within b T e \<longleftrightarrow>
     next_cooldown e \<le> max_cooldown b \<and>
     (entry_state e = OPEN \<longrightarrow> opens_until e \<le> T + max_cooldown b) \<and>
     (case probe_started_at e of None \<Rightarrow> True | Some s \<Rightarrow> s \<le> T)"

definition breaker_within :: "real \<Rightarrow> CircuitBreaker \<Rightarrow> bool" where
  "breaker_within T b \<longleftrightarrow>
     (\<forall>w e. dict_get (breaker_entries b) w = Some e \<longrightarrow> entry_within b T e)"

lemma set_entry_within:
  "breaker_within T b \<Longrightarrow> entry_within b T e \<Longrightarrow> breaker_within T (set_entry b w e)"
  by (auto simp: breaker_within_def entry_within_def dict_simps split: if_splits)

lemma step_within [wf_intros]:
  assumes "breaker_within T b" and "fst ev \<le> T" and "cooldown b \<le> max_cooldown b"
  shows "breaker_within T (breaker_step b ev)"
proof (cases "(b, ev)" rule: breaker_step.cases)
  case (1 b' t w)
  with assms show ?thesis
    by (auto simp: allows_def Let_def breaker_within_def entry_within_def dict_simps
             split: option.splits if_splits)
next
  case (2 b' t w)
  with assms show ?thesis
    by (auto simp: record_success_def breaker_within_def entry_within_def dict_simps
             split: option.splits if_splits)
next
  case (3 b' t w)
  with assms show ?thesis
    by (auto simp: record_neutral_def breaker_within_def entry_within_def dict_simps
             split: option.splits if_splits)
next
  case (4 b' t w)
  have "entry_within b T (fst (entry_of b w))"
    using assms by (auto simp: entry_of_def fresh_entry_def breaker_within_def entry_within_def
                         split: option.splits)
  moreover have "breaker_within T (snd (entry_of b w))"
    using assms by (auto simp: entry_of_def fresh_entry_def breaker_within_def entry_within_def
                         dict_simps split: option.splits)
  moreover have "same_config b (snd (entry_of b w))"
    by (simp add: entry_of_def split: option.splits)
  ultimately show ?thesis
    using 4 assms(1,2)
    by (auto simp: record_failure_def open_entry_def entry_within_def Let_def case_prod_beta
             intro!: set_entry_within)
next
  case (5 b' t w)
  with assms show ?thesis
    by (auto simp: breaker_forget_def breaker_within_def entry_within_def dict_simps
             split: if_splits)
qed

lemma run_within:
  "breaker_within T b \<Longrightarrow> \<forall>(t, ev) \<in> set evs. t \<le> T \<Longrightarrow> cooldown b \<le> max_cooldown b \<Longrightarrow>
   breaker_within T (breaker_run b evs)"
proof (induction evs rule: rev_induct)
  case (snoc ev evs)
  then show ?case
    using run_config [of b evs] by (auto intro!: step_within)
qed simp

text \<open>
  C9. No worker is lost for good: whatever the history of a breaker that started empty, every
  worker is admitted again at any time at least \<open>max_cooldown\<close> and at least \<open>probe_timeout\<close>
  after the last recorded event, even if the outcomes of earlier probes never arrived.
\<close>

theorem every_worker_readmitted:
  assumes "breaker_entries b = []" and "cooldown b \<le> max_cooldown b"
    and "\<forall>(t, ev) \<in> set evs. t \<le> T"
    and "T + max_cooldown b \<le> now" and "T + probe_timeout b \<le> now"
  shows "fst (allows (breaker_run b evs) now w)"
proof -
  have within: "breaker_within T (breaker_run b evs)"
    using assms by (intro run_within) (auto simp: breaker_within_def)
  show ?thesis
  proof (cases "dict_get (breaker_entries (breaker_run b evs)) w")
    case None
    then show ?thesis by (simp add: allows_def)
  next
    case (Some e)
    with within have "entry_within (breaker_run b evs) T e"
      by (simp add: breaker_within_def)
    with Some assms(4,5) run_config [of b evs] show ?thesis
      by (auto simp: allows_def entry_within_def Let_def split: option.splits)
  qed
qed

theorem every_worker_readmitted_witness:
  "fst (allows (breaker_run (sample_breaker [])
     [(1, Failure ''w''), (2, Failure ''w''), (3, Failure ''w''), (9, Allows ''w'')]) 70 ''w'')"
  by (rule every_worker_readmitted [where T = 9]) simp_all

end
