(* ===== verification/Hashing.thy ===== *)
theory Hashing
  imports Prelude
begin

text \<open>
  The two block-hash chains: the router's chain of \<open>src/infera/router/kv_event/hasher.py\<close>,
  which the query side and the event side share, and the multimodal chain of
  \<open>src/infera/kv/hashing.py\<close>. XXH3-64 is a library function and a parameter here: \<open>h\<close> for
  \<open>xxh3_64_intdigest(b)\<close> and \<open>hs seed\<close> for \<open>xxh3_64_intdigest(b, seed=seed)\<close>. What the
  code relies on is that a digest is an unsigned 64-bit integer; the theorems that read a
  digest back to its input assume in addition that the inputs at hand do not collide.
\<close>

section \<open>Exceptions in sequence\<close>

fun sum_bind :: "'e + 'a \<Rightarrow> ('a \<Rightarrow> 'e + 'b) \<Rightarrow> 'e + 'b" where
  "sum_bind (Inl e) f = Inl e"
| "sum_bind (Inr x) f = f x"

fun sum_map_list :: "('a \<Rightarrow> 'e + 'b) \<Rightarrow> 'a list \<Rightarrow> 'e + 'b list" where
  "sum_map_list f [] = Inr []"
| "sum_map_list f (x # xs) =
     sum_bind (f x) (\<lambda>y. sum_bind (sum_map_list f xs) (\<lambda>ys. Inr (y # ys)))"

lemma sum_bind_Inr_iff [simp]:
  "sum_bind x f = Inr y \<longleftrightarrow> (\<exists>a. x = Inr a \<and> f a = Inr y)"
  by (cases x) auto

lemma sum_bind_Inl_iff:
  "sum_bind x f = Inl e \<longleftrightarrow> x = Inl e \<or> (\<exists>a. x = Inr a \<and> f a = Inl e)"
  by (cases x) auto

text \<open>Python's \<open>xs[lo:hi]\<close> for \<open>0 <= lo <= hi\<close>.\<close>

definition slice :: "nat \<Rightarrow> nat \<Rightarrow> 'a list \<Rightarrow> 'a list" where
  "slice lo hi xs = take (hi - lo) (drop lo xs)"

section \<open>The router's chain\<close>

definition ROUTER_SEED :: int where
  "ROUTER_SEED = 0"

definition encode_chunk :: "int \<Rightarrow> int list \<Rightarrow> py_error + byte list" where
  "encode_chunk parent token_ids =
     sum_bind (to_bytes 8 parent) (\<lambda>p.
     sum_bind (sum_map_list (to_bytes 4) token_ids) (\<lambda>ts. Inr (p @ concat ts)))"

definition hash_chunk :: "(byte list \<Rightarrow> int) \<Rightarrow> int \<Rightarrow> int list \<Rightarrow> py_error + int" where
  "hash_chunk h parent token_ids =
     sum_bind (encode_chunk parent token_ids) (\<lambda>buf. Inr (h buf))"

text \<open>The loop of \<open>hash_request\<close> over the remaining block indices.\<close>

fun hash_blocks ::
  "(byte list \<Rightarrow> int) \<Rightarrow> int list \<Rightarrow> nat \<Rightarrow> int \<Rightarrow> nat list \<Rightarrow> py_error + int list" where
  "hash_blocks h tokens bs parent [] = Inr []"
| "hash_blocks h tokens bs parent (i # is) =
     sum_bind (hash_chunk h parent (slice (i * bs) ((i + 1) * bs) tokens)) (\<lambda>p.
     sum_bind (hash_blocks h tokens bs p is) (\<lambda>rest. Inr (p # rest)))"

definition hash_request ::
  "(byte list \<Rightarrow> int) \<Rightarrow> int list \<Rightarrow> int \<Rightarrow> py_error + int list" where
  "hash_request h token_ids block_size =
     (if block_size \<le> 0 then Inr []
      else hash_blocks h token_ids (nat block_size) ROUTER_SEED
             [0..<length token_ids div nat block_size])"

text \<open>The same chain over a list of chunks, the form the event side uses.\<close>

fun chain :: "(byte list \<Rightarrow> int) \<Rightarrow> int \<Rightarrow> int list list \<Rightarrow> py_error + int list" where
  "chain h parent [] = Inr []"
| "chain h parent (c # cs) =
     sum_bind (hash_chunk h parent c) (\<lambda>p. sum_bind (chain h p cs) (\<lambda>rest. Inr (p # rest)))"

definition block_list :: "nat \<Rightarrow> 'a list \<Rightarrow> 'a list list" where
  "block_list bs xs = map (\<lambda>i. slice (i * bs) ((i + 1) * bs) xs) [0..<length xs div bs]"

text \<open>The buffers a chain digests, in order.\<close>

fun chain_buffers :: "(byte list \<Rightarrow> int) \<Rightarrow> int \<Rightarrow> int list list \<Rightarrow> byte list list" where
  "chain_buffers h parent [] = []"
| "chain_buffers h parent (c # cs) =
     (case encode_chunk parent c of Inl _ \<Rightarrow> [] | Inr b \<Rightarrow> b # chain_buffers h (h b) cs)"

definition request_buffers :: "(byte list \<Rightarrow> int) \<Rightarrow> int list \<Rightarrow> nat \<Rightarrow> byte list list" where
  "request_buffers h tokens bs = chain_buffers h ROUTER_SEED (block_list bs tokens)"

section \<open>Facts about the encoding\<close>

lemma to_bytes_Inr: "to_bytes n x = Inr b \<longleftrightarrow> 0 \<le> x \<and> x < 256 ^ n \<and> b = le_bytes n x"
  by (auto simp: to_bytes_def)

lemma sum_map_to_bytes_Inr:
  "sum_map_list (to_bytes n) xs = Inr bs \<longleftrightarrow>
     (\<forall>x \<in> set xs. 0 \<le> x \<and> x < 256 ^ n) \<and> bs = map (le_bytes n) xs"
  by (induction xs arbitrary: bs) (auto simp: to_bytes_Inr)

lemma encode_chunk_Inr:
  "encode_chunk p ts = Inr b \<longleftrightarrow>
     0 \<le> p \<and> p < 256 ^ 8 \<and> (\<forall>t \<in> set ts. 0 \<le> t \<and> t < 256 ^ 4) \<and>
     b = le_bytes 8 p @ concat (map (le_bytes 4) ts)"
  by (auto simp: encode_chunk_def to_bytes_Inr sum_map_to_bytes_Inr)

lemma concat_le_bytes_inj:
  assumes "concat (map (le_bytes n) xs) = concat (map (le_bytes n) ys)" and "0 < n"
    and "\<forall>x \<in> set xs. 0 \<le> x \<and> x < 256 ^ n" and "\<forall>y \<in> set ys. 0 \<le> y \<and> y < 256 ^ n"
  shows "xs = ys"
  using assms
proof (induction xs arbitrary: ys)
  case Nil
  then show ?case by (cases ys) (auto dest: arg_cong [where f = length])
next
  case (Cons x xs)
  then obtain y ys' where ys: "ys = y # ys'"
    by (cases ys) (auto dest: arg_cong [where f = length])
  with Cons.prems(1) have "le_bytes n x = le_bytes n y" and
      tl: "concat (map (le_bytes n) xs) = concat (map (le_bytes n) ys')"
    by (auto simp: append_eq_append_conv)
  then have "x = y" using Cons.prems(3,4) ys by (auto intro: le_bytes_inj)
  with Cons.IH [OF tl] Cons.prems ys show ?case by auto
qed

text \<open>The buffer determines the parent and the tokens.\<close>

lemma encode_chunk_inj:
  assumes "encode_chunk p ts = Inr b" and "encode_chunk p' ts' = Inr b"
  shows "p = p' \<and> ts = ts'"
proof -
  from assms have eq: "le_bytes 8 p = le_bytes 8 p'"
      "concat (map (le_bytes 4) ts) = concat (map (le_bytes 4) ts')"
    by (auto simp: encode_chunk_Inr append_eq_append_conv)
  moreover from eq(1) have "p = p'"
    using assms by (intro le_bytes_inj [of 8]) (auto simp: encode_chunk_Inr)
  ultimately show ?thesis
    using assms by (auto simp: encode_chunk_Inr intro: concat_le_bytes_inj [of 4])
qed

section \<open>Facts about the chain\<close>

lemma hash_blocks_chain:
  "hash_blocks h tokens bs parent is =
     chain h parent (map (\<lambda>i. slice (i * bs) ((i + 1) * bs) tokens) is)"
  by (induction "is" arbitrary: parent) auto

lemma hash_request_chain:
  "0 < bs \<Longrightarrow> hash_request h tokens bs = chain h ROUTER_SEED (block_list (nat bs) tokens)"
  by (simp add: hash_request_def hash_blocks_chain block_list_def)

lemma length_chain: "chain h p cs = Inr hs \<Longrightarrow> length hs = length cs"
  by (induction cs arbitrary: p hs) auto

lemma chain_append:
  "chain h p (cs @ ds) =
     sum_bind (chain h p cs) (\<lambda>us. sum_bind (chain h (last (p # us)) ds) (\<lambda>vs. Inr (us @ vs)))"
proof (induction cs arbitrary: p)
  case Nil
  then show ?case by (cases "chain h p ds") auto
next
  case (Cons c cs)
  show ?case
  proof (cases "hash_chunk h p c")
    case (Inr q)
    show ?thesis
    proof (cases "chain h q cs")
      case (Inr us)
      then have "chain h q (cs @ ds) = sum_bind (chain h (last (q # us)) ds) (\<lambda>vs. Inr (us @ vs))"
        using Cons.IH by simp
      with Inr \<open>hash_chunk h p c = Inr q\<close> show ?thesis
        by (cases "chain h (last (q # us)) ds") auto
    qed (use Inr Cons.IH in simp)
  qed simp
qed

lemma block_list_append:
  assumes "0 < bs" and "length xs mod bs = 0"
  shows "block_list bs (xs @ ys) = block_list bs xs @ block_list bs ys"
proof -
  from assms obtain k where k: "length xs = k * bs"
    by (metis mod_0_imp_dvd dvd_div_mult_self)
  have n: "length (xs @ ys) div bs = k + length ys div bs"
    using assms(1) k by (simp add: div_mult_self1 add.commute)
  have low: "slice (i * bs) ((i + 1) * bs) (xs @ ys) = slice (i * bs) ((i + 1) * bs) xs"
    if "i < k" for i
  proof -
    have "(i + 1) * bs \<le> length xs" using that k by (metis Suc_eq_plus1 Suc_leI mult_le_mono1)
    then show ?thesis by (simp add: slice_def)
  qed
  have high: "slice ((k + j) * bs) ((k + j + 1) * bs) (xs @ ys) = slice (j * bs) ((j + 1) * bs) ys" for j
    using k by (simp add: slice_def add_mult_distrib drop_append)
  have "block_list bs (xs @ ys) = map (\<lambda>i. slice (i * bs) ((i + 1) * bs) (xs @ ys)) ([0..<k] @ [k..<k + length ys div bs])"
    by (simp only: block_list_def n upt_add_eq_append [of 0 k])
  also have "\<dots> = map (\<lambda>i. slice (i * bs) ((i + 1) * bs) xs) [0..<k] @
      map (\<lambda>j. slice (j * bs) ((j + 1) * bs) ys) [0..<length ys div bs]"
    using low high by (auto intro!: nth_equalityI simp del: upt_add_eq_append)
  finally show ?thesis
    using k assms(1) by (simp add: block_list_def)
qed

lemma chain_nth:
  assumes "chain h p cs = Inr us" and "i < length cs"
  shows "\<exists>b. encode_chunk ((p # us) ! i) (cs ! i) = Inr b \<and> us ! i = h b \<and>
    b \<in> set (chain_buffers h p cs)"
  using assms
proof (induction cs arbitrary: p us i)
  case (Cons c cs)
  then obtain b vs where b: "encode_chunk p c = Inr b" "chain h (h b) cs = Inr vs" "us = h b # vs"
    by (auto simp: hash_chunk_def)
  show ?case
  proof (cases i)
    case (Suc j)
    with Cons.IH [OF b(2), of j] Cons.prems b show ?thesis by auto
  qed (use b in auto)
qed simp

text \<open>Without collisions, and with no digest equal to the seed, a digest names its prefix.\<close>

lemma chain_digest_names_prefix:
  assumes cs: "chain h p cs = Inr us" and ds: "chain h p ds = Inr vs"
    and inj: "inj_on h (set (chain_buffers h p cs) \<union> set (chain_buffers h p ds))"
    and seed: "p \<notin> set us" "p \<notin> set vs"
  shows "i < length us \<Longrightarrow> j < length vs \<Longrightarrow> us ! i = vs ! j \<Longrightarrow>
    i = j \<and> take (Suc i) cs = take (Suc i) ds"
proof (induction i arbitrary: j)
  case (0 j)
  from chain_nth [OF cs, of 0] chain_nth [OF ds, of j] 0 cs ds
  obtain b c where bc: "encode_chunk p (cs ! 0) = Inr b" "us ! 0 = h b" "b \<in> set (chain_buffers h p cs)"
    "encode_chunk ((p # vs) ! j) (ds ! j) = Inr c" "vs ! j = h c" "c \<in> set (chain_buffers h p ds)"
    by (auto simp: length_chain)
  with inj 0 have "b = c" by (auto dest: inj_onD)
  with bc have eq: "p = (p # vs) ! j" "cs ! 0 = ds ! j"
    by (auto dest: encode_chunk_inj)
  with seed 0 have "j = 0" by (cases j) (auto simp: nth_mem)
  with eq 0 cs ds show ?case
    by (cases cs; cases ds) (auto dest: length_chain)
next
  case (Suc i j)
  from chain_nth [OF cs, of "Suc i"] chain_nth [OF ds, of j] Suc.prems cs ds
  obtain b c where bc: "encode_chunk (us ! i) (cs ! Suc i) = Inr b" "us ! Suc i = h b"
    "b \<in> set (chain_buffers h p cs)"
    "encode_chunk ((p # vs) ! j) (ds ! j) = Inr c" "vs ! j = h c" "c \<in> set (chain_buffers h p ds)"
    by (auto simp: length_chain)
  with inj Suc.prems have "b = c" by (auto dest: inj_onD)
  with bc have eq: "us ! i = (p # vs) ! j" "cs ! Suc i = ds ! j"
    by (auto dest: encode_chunk_inj)
  from eq(1) seed Suc.prems obtain j' where j: "j = Suc j'"
    by (cases j) (auto simp: nth_mem)
  with Suc.IH [of j'] Suc.prems eq(1) have "i = j'" "take (Suc i) cs = take (Suc i) ds" by auto
  with eq(2) j Suc.prems length_chain [OF cs] length_chain [OF ds] show ?case
    by (simp add: take_Suc_conv_app_nth)
qed

lemma take_concat_block_list:
  assumes "0 < bs" and "n \<le> length xs div bs"
  shows "concat (take n (block_list bs xs)) = take (n * bs) xs"
  using assms(2)
proof (induction n)
  case (Suc n)
  then have len: "n < length (block_list bs xs)" by (simp add: block_list_def)
  have "concat (take (Suc n) (block_list bs xs)) = take (n * bs) xs @ block_list bs xs ! n"
    using Suc len by (simp add: take_Suc_conv_app_nth)
  also have "\<dots> = take (n * bs) xs @ take bs (drop (n * bs) xs)"
    using Suc.prems by (simp add: block_list_def slice_def)
  also have "\<dots> = take (Suc n * bs) xs"
    using take_add [of "n * bs" bs xs] by (simp add: add.commute)
  finally show ?case .
qed simp

section \<open>Properties of the router's chain\<close>

text \<open>C21. Hashing is prefix-stable: extending a block-aligned prompt by any tokens keeps
  every block hash it had, in the same positions, so a cached prefix is found again.\<close>

theorem hash_request_prefix:
  assumes "0 < bs" and "length xs mod nat bs = 0"
    and "hash_request h (xs @ ys) bs = Inr hs"
  shows "hash_request h xs bs = Inr (take (length xs div nat bs) hs)"
proof -
  have "chain h ROUTER_SEED (block_list (nat bs) xs @ block_list (nat bs) ys) = Inr hs"
    using assms by (simp add: hash_request_chain block_list_append)
  then obtain us vs where us: "chain h ROUTER_SEED (block_list (nat bs) xs) = Inr us" "hs = us @ vs"
    by (auto simp: chain_append)
  moreover have "length us = length xs div nat bs"
    using length_chain [OF us(1)] by (simp add: block_list_def)
  ultimately show ?thesis using assms(1) by (simp add: hash_request_chain)
qed

theorem hash_request_prefix_witness:
  "hash_request (\<lambda>b. le_int b mod 65521) [7, 8] 2 = Inr [12059] \<and>
   hash_request (\<lambda>b. le_int b mod 65521) [7, 8, 9] 2 = Inr [12059]"
proof -
  have e: "hash_request (\<lambda>b. le_int b mod 65521) ([7, 8] @ [9]) 2 = Inr [12059]"
    by code_simp
  show ?thesis using hash_request_prefix [OF _ _ e] e by simp
qed

text \<open>C7. A hash hit is a true prefix hit: if the digests of the buffers the two requests feed
  to XXH3 do not collide and none equals the chain's seed, then block hash i of one request
  equals block hash j of another only if i = j and the requests agree on all tokens up to and
  including that block.\<close>

theorem hash_request_hit_is_prefix_hit:
  assumes "0 < bs" and "hash_request h xs bs = Inr us" and "hash_request h ys bs = Inr vs"
    and "inj_on h (set (request_buffers h xs (nat bs)) \<union> set (request_buffers h ys (nat bs)))"
    and "ROUTER_SEED \<notin> set us" and "ROUTER_SEED \<notin> set vs"
    and "i < length us" and "j < length vs" and "us ! i = vs ! j"
  shows "i = j \<and> take ((i + 1) * nat bs) xs = take ((i + 1) * nat bs) ys"
proof -
  let ?n = "nat bs"
  have cs: "chain h ROUTER_SEED (block_list ?n xs) = Inr us"
    and ds: "chain h ROUTER_SEED (block_list ?n ys) = Inr vs"
    using assms(1-3) by (simp_all add: hash_request_chain)
  have *: "i = j \<and> take (Suc i) (block_list ?n xs) = take (Suc i) (block_list ?n ys)"
    using assms chain_digest_names_prefix [OF cs ds] by (simp add: request_buffers_def)
  moreover have "Suc i \<le> length xs div ?n" "Suc j \<le> length ys div ?n"
    using assms length_chain [OF cs] length_chain [OF ds] by (simp_all add: block_list_def)
  ultimately show ?thesis
    using assms(1) take_concat_block_list [of ?n "Suc i" xs] take_concat_block_list [of ?n "Suc i" ys]
    by auto
qed

theorem hash_request_hit_is_prefix_hit_witness:
  "hash_request (\<lambda>b. le_int b mod 65521) [7, 8, 9] 2 = Inr [12059] \<and>
   hash_request (\<lambda>b. le_int b mod 65521) [7, 8] 2 = Inr [12059] \<and>
   take 2 [7, 8, 9 :: int] = take 2 [7, 8]"
proof -
  let ?h = "\<lambda>b. le_int b mod 65521"
  have e: "hash_request ?h [7, 8, 9] 2 = Inr [12059]" "hash_request ?h [7, 8] 2 = Inr [12059]"
    by code_simp+
  have b: "request_buffers ?h [7, 8, 9] (nat 2) = [[0,0,0,0,0,0,0,0,7,0,0,0,8,0,0,0]]"
    "request_buffers ?h [7, 8] (nat 2) = [[0,0,0,0,0,0,0,0,7,0,0,0,8,0,0,0]]"
    by code_simp+
  show ?thesis
    using hash_request_hit_is_prefix_hit [OF _ e, of 0 0] e by (simp add: b ROUTER_SEED_def)
qed

end
