(* ===== verification/Mm_Hashing.thy ===== *)
theory Mm_Hashing
  imports Hashing
begin

text \<open>
  The block-hash chain of \<open>src/infera/kv/hashing.py\<close> with its multimodal slot encoding, and
  the types \<open>BlockKey\<close> and \<open>MmRun\<close> of \<open>src/infera/kv/types.py\<close>. \<open>hs seed buf\<close> stands for
  \<open>xxh3_64_intdigest(buf, seed=seed)\<close> and \<open>h buf\<close> for the unseeded digest.
\<close>

unbundle bit_operations_syntax

section \<open>Types\<close>

record BlockKey =
  sequence_hash :: int
  block_hash :: int
  parent_sequence_hash :: "int option"

record MmRun =
  mm_hash :: int
  run_start :: int
  run_end :: int

text \<open>The dataclass constructor with its \<open>__post_init__\<close> check.\<close>

definition make_MmRun :: "int \<Rightarrow> int \<Rightarrow> int \<Rightarrow> py_error + MmRun" where
  "make_MmRun mm s e =
     (if e \<le> s then Inl ValueError else Inr \<lparr>mm_hash = mm, run_start = s, run_end = e\<rparr>)"

abbreviation run_ok :: "MmRun \<Rightarrow> bool" where
  "run_ok r \<equiv> run_start r < run_end r"

definition run_len :: "MmRun \<Rightarrow> int" where
  "run_len r = run_end r - run_start r"

section \<open>Operations\<close>

definition BASE_SEED :: int where
  "BASE_SEED = 1337"

definition seed_for_lora :: "(byte list \<Rightarrow> int) \<Rightarrow> byte list option \<Rightarrow> int" where
  "seed_for_lora h lora_name =
     (case lora_name of
        None \<Rightarrow> BASE_SEED
      | Some name \<Rightarrow>
          if name = [] then BASE_SEED else (BASE_SEED XOR h name) AND 0xFFFFFFFFFFFFFFFF)"

definition project_mm_runs_to_block :: "MmRun list \<Rightarrow> int \<Rightarrow> int \<Rightarrow> (MmRun \<times> int \<times> int) list" where
  "project_mm_runs_to_block runs block_start block_end =
     map (\<lambda>run. (run, max (run_start run) block_start - block_start,
                      min (run_end run) block_end - block_start))
       (filter (\<lambda>run. \<not> (run_end run \<le> block_start \<or> run_start run \<ge> block_end)) runs)"

definition block_bytes_text_only :: "int list \<Rightarrow> nat \<Rightarrow> nat \<Rightarrow> py_error + byte list" where
  "block_bytes_text_only tokens lo hi =
     sum_bind (sum_map_list (to_bytes 4) (slice lo hi tokens)) (\<lambda>bs. Inr (concat bs))"

text \<open>The per-slot placeholder table: a later run overwrites an earlier one.\<close>

definition placeholder_table ::
  "nat \<Rightarrow> nat \<Rightarrow> (MmRun \<times> int \<times> int) list \<Rightarrow> (int \<times> int) option list" where
  "placeholder_table block_start block_size mm_in_block =
     foldl (\<lambda>ph (run, lo, hi).
        foldl (\<lambda>ph slot. ph[nat slot := Some (mm_hash run, int block_start + slot - run_start run)])
          ph [lo..hi - 1])
       (replicate block_size None) mm_in_block"

text \<open>One 13-byte frame: a tag, a little-endian u32 and a little-endian u64.\<close>

fun slot_frame :: "int \<Rightarrow> (int \<times> int) option \<Rightarrow> py_error + byte list" where
  "slot_frame token_id None =
     sum_bind (to_bytes 4 token_id) (\<lambda>t. Inr (0 # t @ replicate 8 0))"
| "slot_frame token_id (Some (mm, run_offset)) =
     sum_bind (to_bytes 4 run_offset) (\<lambda>off.
     sum_bind (to_bytes 8 mm) (\<lambda>m. Inr (1 # off @ m)))"

definition block_bytes_with_mm ::
  "int list \<Rightarrow> nat \<Rightarrow> nat \<Rightarrow> (MmRun \<times> int \<times> int) list \<Rightarrow> py_error + byte list" where
  "block_bytes_with_mm tokens block_start block_end mm_in_block =
     (let block_size = block_end - block_start;
          ph = placeholder_table block_start block_size mm_in_block
      in sum_bind (sum_map_list (\<lambda>slot. slot_frame (tokens ! (block_start + slot)) (ph ! slot))
                     [0..<block_size]) (\<lambda>frames. Inr (concat frames)))"

definition block_bytes :: "int list \<Rightarrow> MmRun list \<Rightarrow> nat \<Rightarrow> nat \<Rightarrow> py_error + byte list" where
  "block_bytes tokens runs lo hi =
     (let mm_in_block = project_mm_runs_to_block runs (int lo) (int hi)
      in if mm_in_block \<noteq> [] then block_bytes_with_mm tokens lo hi mm_in_block
         else block_bytes_text_only tokens lo hi)"

definition seq_hash :: "(int \<Rightarrow> byte list \<Rightarrow> int) \<Rightarrow> int \<Rightarrow> int option \<Rightarrow> int \<Rightarrow> py_error + int" where
  "seq_hash hs seed prev_seq bh =
     (case prev_seq of
        None \<Rightarrow> Inr bh
      | Some q \<Rightarrow>
          sum_bind (to_bytes 8 q) (\<lambda>a. sum_bind (to_bytes 8 bh) (\<lambda>b. Inr (hs seed (a @ b)))))"

fun hash_token_loop ::
  "(int \<Rightarrow> byte list \<Rightarrow> int) \<Rightarrow> int \<Rightarrow> int list \<Rightarrow> nat \<Rightarrow> MmRun list \<Rightarrow> int option \<Rightarrow> nat list
   \<Rightarrow> py_error + BlockKey list" where
  "hash_token_loop hs seed tokens bs runs prev_seq [] = Inr []"
| "hash_token_loop hs seed tokens bs runs prev_seq (i # is) =
     sum_bind (block_bytes tokens runs (i * bs) (i * bs + bs)) (\<lambda>buf.
     sum_bind (seq_hash hs seed prev_seq (hs seed buf)) (\<lambda>seq.
     sum_bind (hash_token_loop hs seed tokens bs runs (Some seq) is) (\<lambda>rest.
       Inr (\<lparr>sequence_hash = seq, block_hash = hs seed buf,
             parent_sequence_hash = prev_seq\<rparr> # rest))))"

definition hash_token_blocks ::
  "(byte list \<Rightarrow> int) \<Rightarrow> (int \<Rightarrow> byte list \<Rightarrow> int) \<Rightarrow> int list \<Rightarrow> int \<Rightarrow> MmRun list \<Rightarrow> byte list option
   \<Rightarrow> py_error + BlockKey list" where
  "hash_token_blocks h hs tokens block_size mm_runs lora_name =
     (if block_size \<le> 0 then Inl ValueError
      else if tokens = [] then Inr []
      else let n_full_blocks = length tokens div nat block_size in
        if n_full_blocks = 0 then Inr []
        else if \<exists>run \<in> set mm_runs. run_end run > int (length tokens) \<or> run_start run < 0
        then Inl ValueError
        else hash_token_loop hs (seed_for_lora h lora_name) tokens (nat block_size) mm_runs None
               [0..<n_full_blocks])"

record HashedPrompt =
  hp_chain :: "BlockKey list"
  hp_block_size :: int
  n_tokens :: int
  n_full_blocks :: int
  n_trailing_tokens :: int
  n_mm_runs :: nat

definition covered_token_count :: "HashedPrompt \<Rightarrow> int" where
  "covered_token_count p = n_full_blocks p * hp_block_size p"

definition hash_prompt ::
  "(byte list \<Rightarrow> int) \<Rightarrow> (int \<Rightarrow> byte list \<Rightarrow> int) \<Rightarrow> int list \<Rightarrow> int \<Rightarrow> MmRun list \<Rightarrow> byte list option
   \<Rightarrow> py_error + HashedPrompt" where
  "hash_prompt h hs tokens block_size mm_runs lora_name =
     sum_bind (hash_token_blocks h hs tokens block_size mm_runs lora_name) (\<lambda>ch.
       let n = int (length tokens);
           n_full = (if block_size > 0 then n div block_size else 0)
       in Inr \<lparr>hp_chain = ch, hp_block_size = block_size, n_tokens = n, n_full_blocks = n_full,
               n_trailing_tokens = n - n_full * block_size, n_mm_runs = length mm_runs\<rparr>)"

section \<open>What a slot holds\<close>

text \<open>The specification the encoding is measured against: a position covered by a run is the
  offset within the last such run, any other position is its token.\<close>

datatype slot = TokenSlot int | MmSlot int int

definition slot_of :: "int list \<Rightarrow> MmRun list \<Rightarrow> nat \<Rightarrow> slot" where
  "slot_of tokens runs pos =
     (case filter (\<lambda>r. run_start r \<le> int pos \<and> int pos < run_end r) runs of
        [] \<Rightarrow> TokenSlot (tokens ! pos)
      | r # rs \<Rightarrow> let q = last (r # rs) in MmSlot (mm_hash q) (int pos - run_start q))"

definition table_entry :: "MmRun list \<Rightarrow> nat \<Rightarrow> (int \<times> int) option" where
  "table_entry runs pos =
     (case filter (\<lambda>r. run_start r \<le> int pos \<and> int pos < run_end r) runs of
        [] \<Rightarrow> None
      | r # rs \<Rightarrow> let q = last (r # rs) in Some (mm_hash q, int pos - run_start q))"

lemma foldl_update_range:
  assumes "0 \<le> lo"
  shows "foldl (\<lambda>ph slot. ph[nat slot := f slot]) ph [lo..hi - 1] =
    map (\<lambda>s. if lo \<le> int s \<and> int s < hi then f (int s) else ph ! s) [0..<length ph]"
  using assms
proof (induction "nat (hi - lo)" arbitrary: lo ph)
  case 0
  then show ?case by (auto intro!: nth_equalityI)
next
  case (Suc n)
  then have lt: "lo < hi" by simp
  have "foldl (\<lambda>ph slot. ph[nat slot := f slot]) ph [lo..hi - 1] =
    foldl (\<lambda>ph slot. ph[nat slot := f slot]) (ph[nat lo := f lo]) [lo + 1..hi - 1]"
    using lt by (subst upto_rec1) auto
  also have "\<dots> = map (\<lambda>s. if lo + 1 \<le> int s \<and> int s < hi then f (int s) else ph[nat lo := f lo] ! s)
      [0..<length (ph[nat lo := f lo])]"
    using Suc by (intro Suc.hyps(1)) auto
  finally show ?case
    using lt Suc.prems by (auto intro!: nth_equalityI simp: nth_list_update)
qed

lemma length_placeholder_table:
  "length (placeholder_table b n mm) = n"
proof -
  have inner: "length (foldl (\<lambda>ph slot. ph[nat slot := g slot]) ph xs) = length ph"
    for g :: "int \<Rightarrow> 'b" and ph xs by (induction xs arbitrary: ph) auto
  have "length (foldl (\<lambda>ph (run, lo, hi). foldl (\<lambda>ph slot.
      ph[nat slot := Some (mm_hash run, int b + slot - run_start run)]) ph [lo..hi - 1]) ph mm) = length ph"
    for ph by (induction mm arbitrary: ph) (auto simp: inner)
  then show ?thesis by (simp add: placeholder_table_def)
qed

lemma table_entry_snoc:
  "table_entry (runs @ [r]) pos =
     (if run_start r \<le> int pos \<and> int pos < run_end r
      then Some (mm_hash r, int pos - run_start r) else table_entry runs pos)"
  by (cases "filter (\<lambda>r. run_start r \<le> int pos \<and> int pos < run_end r) runs")
     (auto simp: table_entry_def)

lemma placeholder_table_nth:
  assumes "s < n"
  shows "placeholder_table b n (project_mm_runs_to_block runs (int b) (int (b + n))) ! s =
    table_entry runs (b + s)"
  using assms
proof (induction runs rule: rev_induct)
  case Nil
  then show ?case
    by (simp add: placeholder_table_def project_mm_runs_to_block_def table_entry_def)
next
  case (snoc r runs)
  let ?mm = "project_mm_runs_to_block runs (int b) (int (b + n))"
  let ?t = "placeholder_table b n ?mm"
  show ?case
  proof (cases "run_end r \<le> int b \<or> run_start r \<ge> int (b + n)")
    case True
    then have "project_mm_runs_to_block (runs @ [r]) (int b) (int (b + n)) = ?mm"
      by (auto simp: project_mm_runs_to_block_def)
    with True snoc show ?thesis by (auto simp: table_entry_snoc)
  next
    case False
    let ?lo = "max (run_start r) (int b) - int b" and ?hi = "min (run_end r) (int (b + n)) - int b"
    from False have "project_mm_runs_to_block (runs @ [r]) (int b) (int (b + n)) = ?mm @ [(r, ?lo, ?hi)]"
      by (auto simp: project_mm_runs_to_block_def)
    then have "placeholder_table b n (project_mm_runs_to_block (runs @ [r]) (int b) (int (b + n))) =
      foldl (\<lambda>ph slot. ph[nat slot := Some (mm_hash r, int b + slot - run_start r)]) ?t [?lo..?hi - 1]"
      by (simp add: placeholder_table_def)
    also have "\<dots> = map (\<lambda>s. if ?lo \<le> int s \<and> int s < ?hi
        then Some (mm_hash r, int b + int s - run_start r) else ?t ! s) [0..<n]"
      by (subst foldl_update_range) (simp_all add: length_placeholder_table)
    finally show ?thesis
      using snoc by (auto simp: table_entry_snoc)
  qed
qed

text \<open>The encoding as a function of the slots alone.\<close>

fun slot_bytes :: "slot \<Rightarrow> py_error + byte list" where
  "slot_bytes (TokenSlot t) = slot_frame t None"
| "slot_bytes (MmSlot mm off) = slot_frame 0 (Some (mm, off))"

abbreviation is_mm :: "slot \<Rightarrow> bool" where
  "is_mm s \<equiv> (case s of TokenSlot _ \<Rightarrow> False | MmSlot _ _ \<Rightarrow> True)"

fun text_slot_bytes :: "slot \<Rightarrow> py_error + byte list" where
  "text_slot_bytes (TokenSlot t) = to_bytes 4 t"
| "text_slot_bytes (MmSlot mm off) = Inl AssertionError"

definition slots_bytes :: "slot list \<Rightarrow> py_error + byte list" where
  "slots_bytes ss =
     sum_bind (sum_map_list (if \<exists>s \<in> set ss. is_mm s then slot_bytes else text_slot_bytes) ss)
       (\<lambda>fs. Inr (concat fs))"

lemma slot_frame_slot_of:
  "slot_frame (tokens ! pos) (table_entry runs pos) = slot_bytes (slot_of tokens runs pos)"
  by (auto simp: table_entry_def slot_of_def Let_def split: list.split)

lemma is_mm_slot_of:
  "is_mm (slot_of tokens runs pos) \<longleftrightarrow> (\<exists>r \<in> set runs. run_start r \<le> int pos \<and> int pos < run_end r)"
proof (cases "filter (\<lambda>r. run_start r \<le> int pos \<and> int pos < run_end r) runs")
  case Nil
  then show ?thesis by (auto simp: slot_of_def filter_empty_conv)
next
  case (Cons q qs)
  then have "q \<in> set (filter (\<lambda>r. run_start r \<le> int pos \<and> int pos < run_end r) runs)" by simp
  then have "q \<in> set runs" "run_start q \<le> int pos" "int pos < run_end q" by auto
  then show ?thesis using Cons by (auto simp: slot_of_def Let_def)
qed

lemma sum_map_list_map: "sum_map_list f (map g xs) = sum_map_list (\<lambda>x. f (g x)) xs"
  by (induction xs) auto

lemma sum_map_list_cong:
  "xs = ys \<Longrightarrow> (\<And>x. x \<in> set ys \<Longrightarrow> f x = g x) \<Longrightarrow> sum_map_list f xs = sum_map_list g ys"
  by (induction xs arbitrary: ys) auto

lemma project_mm_empty_iff:
  assumes "0 < n" and "\<forall>r \<in> set runs. run_ok r"
  shows "project_mm_runs_to_block runs (int b) (int (b + n)) \<noteq> [] \<longleftrightarrow>
    (\<exists>s < n. is_mm (slot_of tokens runs (b + s)))"
proof -
  have "(\<not> (run_end r \<le> int b \<or> run_start r \<ge> int (b + n))) \<longleftrightarrow>
      (\<exists>s < n. run_start r \<le> int (b + s) \<and> int (b + s) < run_end r)" if "run_ok r" for r
  proof
    assume "\<not> (run_end r \<le> int b \<or> run_start r \<ge> int (b + n))"
    then show "\<exists>s < n. run_start r \<le> int (b + s) \<and> int (b + s) < run_end r"
      using that assms(1) by (intro exI [of _ "nat (max (run_start r) (int b) - int b)"]) linarith
  qed auto
  then show ?thesis
    using assms(2) by (fastforce simp: project_mm_runs_to_block_def filter_empty_conv is_mm_slot_of)
qed

lemma block_bytes_slots:
  assumes "0 < n" and "\<forall>r \<in> set runs. run_ok r" and "b + n \<le> length tokens"
  shows "block_bytes tokens runs b (b + n) = slots_bytes (map (\<lambda>s. slot_of tokens runs (b + s)) [0..<n])"
proof (cases "\<exists>s < n. is_mm (slot_of tokens runs (b + s))")
  case True
  then have "project_mm_runs_to_block runs (int b) (int (b + n)) \<noteq> []"
    using project_mm_empty_iff [OF assms(1,2)] by blast
  then have "block_bytes tokens runs b (b + n) =
    sum_bind (sum_map_list (\<lambda>s. slot_bytes (slot_of tokens runs (b + s))) [0..<n]) (\<lambda>fs. Inr (concat fs))"
    unfolding block_bytes_def block_bytes_with_mm_def Let_def
    by (auto simp: placeholder_table_nth [unfolded of_nat_add] slot_frame_slot_of
        intro!: arg_cong [where f = "\<lambda>x. sum_bind x _"] sum_map_list_cong [OF refl])
  moreover have "\<exists>s \<in> set (map (\<lambda>s. slot_of tokens runs (b + s)) [0..<n]). is_mm s"
    using True by auto
  ultimately show ?thesis by (simp add: slots_bytes_def sum_map_list_map)
next
  case False
  then have "project_mm_runs_to_block runs (int b) (int (b + n)) = []"
    using project_mm_empty_iff [OF assms(1,2)] by blast
  moreover have "slice b (b + n) tokens = map (\<lambda>s. tokens ! (b + s)) [0..<n]"
    using assms(3) by (auto simp: slice_def intro!: nth_equalityI)
  moreover have "slot_of tokens runs (b + s) = TokenSlot (tokens ! (b + s))" if "s < n" for s
    using False that by (cases "slot_of tokens runs (b + s)")
      (auto simp: slot_of_def Let_def split: list.splits)
  moreover have "\<not> (\<exists>s \<in> set (map (\<lambda>s. slot_of tokens runs (b + s)) [0..<n]). is_mm s)"
    using False by auto
  ultimately have "sum_map_list (to_bytes 4) (slice b (b + n) tokens) =
      sum_map_list text_slot_bytes (map (\<lambda>s. slot_of tokens runs (b + s)) [0..<n])"
    by (auto simp: sum_map_list_map intro!: sum_map_list_cong [OF refl])
  with \<open>project_mm_runs_to_block runs (int b) (int (b + n)) = []\<close>
    \<open>\<not> (\<exists>s \<in> set (map (\<lambda>s. slot_of tokens runs (b + s)) [0..<n]). is_mm s)\<close>
  show ?thesis
    by (simp only: slots_bytes_def block_bytes_def block_bytes_text_only_def Let_def if_False
        not_False_eq_True simp_thms if_not_P)
qed

lemma slot_bytes_Inr:
  "slot_bytes s = Inr u \<Longrightarrow> length u = 13"
  by (cases s) (auto simp: to_bytes_Inr)

lemma le_bytes_eq_iff:
  assumes "0 \<le> x" and "x < 256 ^ n" and "0 \<le> y" and "y < 256 ^ n"
  shows "le_bytes n x = le_bytes n y \<longleftrightarrow> x = y"
  using assms by (auto intro: le_bytes_inj)

lemmas le_bytes_eq_iffs = le_bytes_eq_iff [of _ 4, simplified] le_bytes_eq_iff [of _ 8, simplified]

lemma slot_bytes_inj:
  assumes "slot_bytes s = Inr u" and "slot_bytes s' = Inr u" shows "s = s'"
  using assms by (cases s; cases s') (auto simp: to_bytes_Inr le_bytes_eq_iffs)

lemma text_slot_bytes_Inr:
  "text_slot_bytes s = Inr u \<Longrightarrow> length u = 4"
  by (cases s) (auto simp: to_bytes_Inr)

lemma text_slot_bytes_inj:
  assumes "text_slot_bytes s = Inr u" and "text_slot_bytes s' = Inr u" shows "s = s'"
  using assms by (cases s; cases s') (auto simp: to_bytes_Inr le_bytes_eq_iffs)

lemma sum_map_list_Inr_nth:
  "sum_map_list f xs = Inr us \<longleftrightarrow> length us = length xs \<and> (\<forall>i < length xs. f (xs ! i) = Inr (us ! i))"
proof (induction xs arbitrary: us)
  case (Cons x xs)
  show ?case by (cases us) (auto simp: Cons less_Suc_eq_0_disj)
qed auto

lemma fixed_width_map_inj:
  assumes "sum_map_list f xs = Inr us" and "sum_map_list f ys = Inr vs"
    and "length xs = length ys" and "concat us = concat vs"
    and "\<And>x u. f x = Inr u \<Longrightarrow> length u = k"
    and "\<And>x y u. f x = Inr u \<Longrightarrow> f y = Inr u \<Longrightarrow> x = y"
  shows "xs = ys"
proof -
  have "length (us ! i) = k" "length (vs ! i) = k" if "i < length us" for i
    using that assms(1-3) assms(5) [of "xs ! i"] assms(5) [of "ys ! i"]
    by (auto simp: sum_map_list_Inr_nth)
  then have "us = vs"
    using assms(1-4) by (intro concat_injective) (auto simp: sum_map_list_Inr_nth set_zip)
  then show ?thesis
    using assms(1-3,6) by (intro nth_equalityI) (auto simp: sum_map_list_Inr_nth)
qed

lemma length_concat_fixed:
  assumes "sum_map_list f xs = Inr us" and "\<And>x u. f x = Inr u \<Longrightarrow> length u = k"
  shows "length (concat us) = k * length xs"
  using assms(1) by (induction xs arbitrary: us) (auto dest: assms(2))

lemma slots_bytes_inj:
  assumes "slots_bytes ss = Inr u" and "slots_bytes ss' = Inr u" and "length ss = length ss'"
    and "ss \<noteq> []"
  shows "ss = ss'"
proof -
  let ?p = "\<lambda>ss. \<exists>s \<in> set ss. is_mm s"
  let ?f = "\<lambda>ss. if ?p ss then slot_bytes else text_slot_bytes"
  from assms obtain us vs where us: "sum_map_list (?f ss) ss = Inr us" "u = concat us"
    and vs: "sum_map_list (?f ss') ss' = Inr vs" "u = concat vs"
    by (auto simp: slots_bytes_def)
  have w: "length (concat ws) = (if ?p zs then 13 else 4) * length zs"
    if "sum_map_list (?f zs) zs = Inr ws" for zs ws
    by (rule length_concat_fixed [OF that])
       (auto dest: slot_bytes_Inr text_slot_bytes_Inr split: if_splits)
  have "(if ?p ss then 13 else 4) * length ss = (if ?p ss' then 13 else 4) * length ss"
    using w [OF us(1)] w [OF vs(1)] us(2) vs(2) assms(3) by (simp del: length_concat)
  then have "?p ss = ?p ss'" using assms(4) by (simp split: if_splits)
  then have f: "?f ss' = ?f ss" by simp
  show ?thesis
  proof (rule fixed_width_map_inj [OF us(1) vs(1) [unfolded f] assms(3)])
    show "concat us = concat vs" using us vs by simp
    show "length v = (if ?p ss then 13 else 4)" if "?f ss x = Inr v" for x v
      using that by (auto dest: slot_bytes_Inr text_slot_bytes_Inr split: if_splits)
    show "x = y" if "?f ss x = Inr v" "?f ss y = Inr v" for x y v
      using that by (auto dest: slot_bytes_inj text_slot_bytes_inj split: if_splits)
  qed
qed

section \<open>Properties\<close>

text \<open>C22. The per-block encoding is exact: two full blocks, taken anywhere in any two prompts,
  get the same bytes (and so the same block hash) if and only if they agree slot by slot, a
  slot being a token or an offset within a multimodal object. So the same image at another
  prompt position hashes to the same blocks, and different slots never share an encoding.\<close>

theorem block_bytes_iff_same_slots:
  assumes "0 < n" and "\<forall>r \<in> set runs. run_ok r" and "\<forall>r \<in> set runs'. run_ok r"
    and "b + n \<le> length tokens" and "b' + n \<le> length tokens'"
    and "block_bytes tokens runs b (b + n) = Inr u"
    and "block_bytes tokens' runs' b' (b' + n) = Inr v"
  shows "u = v \<longleftrightarrow> (\<forall>s < n. slot_of tokens runs (b + s) = slot_of tokens' runs' (b' + s))"
proof -
  let ?ss = "map (\<lambda>s. slot_of tokens runs (b + s)) [0..<n]"
  let ?ss' = "map (\<lambda>s. slot_of tokens' runs' (b' + s)) [0..<n]"
  have uv: "slots_bytes ?ss = Inr u" "slots_bytes ?ss' = Inr v"
    using assms by (simp_all add: block_bytes_slots)
  have "u = v \<longleftrightarrow> ?ss = ?ss'"
  proof
    assume "u = v"
    then show "?ss = ?ss'" using uv slots_bytes_inj [of ?ss u ?ss'] assms(1) by simp
  next
    assume "?ss = ?ss'"
    with uv show "u = v" by (metis sum.inject(2))
  qed
  also have "\<dots> \<longleftrightarrow> (\<forall>s < n. slot_of tokens runs (b + s) = slot_of tokens' runs' (b' + s))"
    by auto
  finally show ?thesis .
qed

theorem block_bytes_iff_same_slots_witness:
  "map (slot_of [9, 9, 5, 5] [\<lparr>mm_hash = 77, run_start = 2, run_end = 4\<rparr>]) [2, 3] =
   map (slot_of [5, 5, 1] [\<lparr>mm_hash = 77, run_start = 0, run_end = 2\<rparr>]) [0, 1]"
proof -
  let ?r = "\<lparr>mm_hash = 77, run_start = 2, run_end = 4\<rparr>"
  let ?r' = "\<lparr>mm_hash = 77, run_start = 0, run_end = 2\<rparr>"
  let ?u = "[1,0,0,0,0,77,0,0,0,0,0,0,0, 1,1,0,0,0,77,0,0,0,0,0,0,0] :: byte list"
  have e: "block_bytes [9, 9, 5, 5] [?r] 2 (2 + 2) = Inr ?u" "block_bytes [5, 5, 1] [?r'] 0 (0 + 2) = Inr ?u"
    by code_simp+
  have "(?u = ?u) = (\<forall>s < 2. slot_of [9, 9, 5, 5] [?r] (2 + s) = slot_of [5, 5, 1] [?r'] (0 + s))"
    by (rule block_bytes_iff_same_slots [OF _ _ _ _ _ e]) simp_all
  then have eq: "\<forall>s < 2. slot_of [9, 9, 5, 5] [?r] (2 + s) = slot_of [5, 5, 1] [?r'] (0 + s)"
    by (rule iffD1) (rule refl)
  from eq [rule_format, of 0] eq [rule_format, of 1] show ?thesis by simp
qed

lemma hash_token_loop_nth:
  assumes "hash_token_loop hs seed tokens bs runs prev is = Inr ks"
  shows "length ks = length is"
    and "i < length is \<Longrightarrow> \<exists>buf. block_bytes tokens runs (is ! i * bs) (is ! i * bs + bs) = Inr buf \<and>
      block_hash (ks ! i) = hs seed buf \<and>
      parent_sequence_hash (ks ! i) = (if i = 0 then prev else Some (sequence_hash (ks ! (i - 1)))) \<and>
      seq_hash hs seed (parent_sequence_hash (ks ! i)) (hs seed buf) = Inr (sequence_hash (ks ! i))"
  using assms
proof (induction "is" arbitrary: prev ks i)
  case (Cons j js)
  {
    case 1
    then show ?case using Cons.IH(1) by auto
  next
    case 2
    then obtain buf seq rest where r: "block_bytes tokens runs (j * bs) (j * bs + bs) = Inr buf"
      "seq_hash hs seed prev (hs seed buf) = Inr seq"
      "hash_token_loop hs seed tokens bs runs (Some seq) js = Inr rest"
      "ks = \<lparr>sequence_hash = seq, block_hash = hs seed buf, parent_sequence_hash = prev\<rparr> # rest"
      by auto
    show ?case
    proof (cases i)
      case (Suc k)
      with Cons.IH(2) [OF _ r(3), of k] 2 r(4) show ?thesis by (cases k) auto
    qed (use r in auto)
  }
qed simp_all



end
