(* ===== verification/Kv_Index.thy ===== *)
theory Kv_Index
  imports Mm_Hashing
begin

text \<open>
  The prefix index of \<open>src/infera/kv/index.py\<close>: one radix tree per model, compatibility key and
  publisher, whose nodes are shared between the trees and a flat table from sequence hash to node.
  Nodes are mutable objects, so the model keeps them in a heap (a list, an address is a position in
  it) and the trees and the table hold addresses. What the index promises is a table from sequence
  hash to the tiers that hold the block; the operations are proved to implement it.
\<close>

declare split_paired_Ex [simp del] split_paired_All [simp del]

section \<open>State\<close>

datatype Tier = DEVICE | HOST | DISK | FABRIC

definition Tier_of :: "string \<Rightarrow> py_error + Tier" where
  "Tier_of s =
     (if s = ''device'' then Inr DEVICE else if s = ''host'' then Inr HOST
      else if s = ''disk'' then Inr DISK else if s = ''fabric'' then Inr FABRIC else Inl ValueError)"

record OverlapBlocks =
  device :: nat
  host :: nat
  disk :: nat
  fabric :: nat

definition no_overlap :: OverlapBlocks where
  "no_overlap = \<lparr>device = 0, host = 0, disk = 0, fabric = 0\<rparr>"

type_synonym IndexKey = "string \<times> string \<times> string"

abbreviation ik_model :: "IndexKey \<Rightarrow> string" where "ik_model k \<equiv> fst k"
abbreviation ik_compat :: "IndexKey \<Rightarrow> string" where "ik_compat k \<equiv> fst (snd k)"
abbreviation ik_publisher :: "IndexKey \<Rightarrow> string" where "ik_publisher k \<equiv> snd (snd k)"

record IndexNode =
  n_block_hash :: int
  n_sequence_hash :: int
  n_parent_sequence_hash :: "int option"
  n_children :: "(int, nat) dict"
  n_tiers :: "Tier set"
  n_inserted_ts_ms :: int
  n_last_access_ts_ms :: int
  n_optimistic_until_ms :: "int option"

definition is_optimistic :: "IndexNode \<Rightarrow> bool" where
  "is_optimistic n \<longleftrightarrow> n_optimistic_until_ms n \<noteq> None"

record KVIndex =
  default_ttl_s :: real
  ix_heap :: "IndexNode list"
  ix_trees :: "(IndexKey, nat) dict"
  ix_by_seq :: "(IndexKey \<times> int, nat) dict"

definition make_index :: "real \<Rightarrow> KVIndex" where
  "make_index ttl = \<lparr>default_ttl_s = ttl, ix_heap = [], ix_trees = [], ix_by_seq = []\<rparr>"

text \<open>Reading, allocating and assigning to node objects.\<close>

abbreviation ix_node :: "KVIndex \<Rightarrow> nat \<Rightarrow> IndexNode" where
  "ix_node ix a \<equiv> ix_heap ix ! a"

definition ix_new :: "KVIndex \<Rightarrow> IndexNode \<Rightarrow> nat \<times> KVIndex" where
  "ix_new ix n = (length (ix_heap ix), ix\<lparr>ix_heap := ix_heap ix @ [n]\<rparr>)"

definition ix_set :: "KVIndex \<Rightarrow> nat \<Rightarrow> (IndexNode \<Rightarrow> IndexNode) \<Rightarrow> KVIndex" where
  "ix_set ix a f = ix\<lparr>ix_heap := (ix_heap ix)[a := f (ix_node ix a)]\<rparr>"

section \<open>Internals\<close>

definition ensure_root :: "KVIndex \<Rightarrow> IndexKey \<Rightarrow> nat \<times> KVIndex" where
  "ensure_root ix key =
     (case dict_get (ix_trees ix) key of
        Some r \<Rightarrow> (r, ix)
      | None \<Rightarrow>
          (case ix_new ix \<lparr>n_block_hash = 0, n_sequence_hash = 0, n_parent_sequence_hash = None,
                 n_children = [], n_tiers = {}, n_inserted_ts_ms = 0, n_last_access_ts_ms = 0,
                 n_optimistic_until_ms = None\<rparr> of
             (r, ix) \<Rightarrow> (r, ix\<lparr>ix_trees := dict_put key r (ix_trees ix)\<rparr>)))"

text \<open>The parent of a new node; the root stands in for a parent that is not indexed.\<close>

definition attach_point :: "KVIndex \<Rightarrow> nat \<Rightarrow> IndexKey \<Rightarrow> BlockKey \<Rightarrow> nat" where
  "attach_point ix rt key b =
     (case parent_sequence_hash b of
        None \<Rightarrow> rt
      | Some ps \<Rightarrow> (case dict_get (ix_by_seq ix) (key, ps) of None \<Rightarrow> rt | Some p \<Rightarrow> p))"

definition upsert_node :: "KVIndex \<Rightarrow> nat \<Rightarrow> IndexKey \<Rightarrow> BlockKey \<Rightarrow> int \<Rightarrow> nat \<times> KVIndex" where
  "upsert_node ix rt key b now =
     (let p = attach_point ix rt key b in
      case dict_get (n_children (ix_node ix p)) (block_hash b) of
        Some e \<Rightarrow> (e, ix_set ix e (\<lambda>n. n\<lparr>n_last_access_ts_ms := now\<rparr>))
      | None \<Rightarrow>
          (case ix_new ix \<lparr>n_block_hash = block_hash b, n_sequence_hash = sequence_hash b,
                 n_parent_sequence_hash = parent_sequence_hash b, n_children = [], n_tiers = {},
                 n_inserted_ts_ms = now, n_last_access_ts_ms = now, n_optimistic_until_ms = None\<rparr> of
             (a, ix) \<Rightarrow>
               let ix = ix_set ix p (\<lambda>n. n\<lparr>n_children := dict_put (block_hash b) a (n_children n)\<rparr>)
               in (a, ix\<lparr>ix_by_seq := dict_put (key, sequence_hash b) a (ix_by_seq ix)\<rparr>)))"

definition parent_addr :: "KVIndex \<Rightarrow> IndexKey \<Rightarrow> int option \<Rightarrow> nat option" where
  "parent_addr ix key ps =
     (case ps of None \<Rightarrow> dict_get (ix_trees ix) key | Some s \<Rightarrow> dict_get (ix_by_seq ix) (key, s))"

definition unlink_leaf :: "KVIndex \<Rightarrow> IndexKey \<Rightarrow> nat \<Rightarrow> KVIndex" where
  "unlink_leaf ix key a =
     (let n = ix_node ix a;
          ix = (case parent_addr ix key (n_parent_sequence_hash n) of
                  None \<Rightarrow> ix
                | Some p \<Rightarrow> ix_set ix p (\<lambda>m. m\<lparr>n_children := dict_del (n_block_hash n) (n_children m)\<rparr>))
      in ix\<lparr>ix_by_seq := dict_del (key, n_sequence_hash n) (ix_by_seq ix)\<rparr>)"

definition drop_tree_at :: "KVIndex \<Rightarrow> IndexKey \<Rightarrow> KVIndex" where
  "drop_tree_at ix key =
     (if dict_get (ix_trees ix) key = None then ix
      else ix\<lparr>ix_by_seq := foldl (\<lambda>d k. dict_del k d) (ix_by_seq ix)
                             (filter (\<lambda>k. fst k = key) (map fst (ix_by_seq ix))),
              ix_trees := dict_del key (ix_trees ix)\<rparr>)"

definition is_dead :: "IndexNode \<Rightarrow> bool" where
  "is_dead n \<longleftrightarrow> n_tiers n = {} \<and> n_children n = []"

fun strip_marks :: "IndexKey \<Rightarrow> Tier \<Rightarrow> KVIndex \<Rightarrow> ((IndexKey \<times> int) \<times> nat) list \<Rightarrow> nat list \<times> KVIndex" where
  "strip_marks key t ix [] = ([], ix)"
| "strip_marks key t ix (((ik, s), a) # items) =
     (if ik \<noteq> key then strip_marks key t ix items
      else let ix = ix_set ix a (\<lambda>n. n\<lparr>n_tiers := n_tiers n - {t}\<rparr>)
           in case strip_marks key t ix items of
                (us, ix') \<Rightarrow> (if is_dead (ix_node ix a) then a # us else us, ix'))"

definition strip_tier :: "KVIndex \<Rightarrow> IndexKey \<Rightarrow> Tier \<Rightarrow> KVIndex" where
  "strip_tier ix key t =
     (case strip_marks key t ix (ix_by_seq ix) of
        (us, ix) \<Rightarrow> foldl (\<lambda>ix a. unlink_leaf ix key a) ix us)"

section \<open>Mutations\<close>

definition apply_stored :: "KVIndex \<Rightarrow> IndexKey \<Rightarrow> BlockKey \<Rightarrow> Tier \<Rightarrow> int \<Rightarrow> KVIndex" where
  "apply_stored ix key b t now =
     (case ensure_root ix key of
        (rt, ix) \<Rightarrow>
          (case upsert_node ix rt key b now of
             (a, ix) \<Rightarrow> ix_set ix a (\<lambda>n. n\<lparr>n_tiers := insert t (n_tiers n), n_optimistic_until_ms := None,
                                             n_last_access_ts_ms := now\<rparr>)))"

definition apply_removed :: "KVIndex \<Rightarrow> IndexKey \<Rightarrow> int \<Rightarrow> Tier \<Rightarrow> KVIndex" where
  "apply_removed ix key s t =
     (case dict_get (ix_by_seq ix) (key, s) of
        None \<Rightarrow> ix
      | Some a \<Rightarrow>
          let ix = ix_set ix a (\<lambda>n. n\<lparr>n_tiers := n_tiers n - {t}\<rparr>)
          in if is_dead (ix_node ix a) then unlink_leaf ix key a else ix)"

text \<open>\<open>s.startswith(p)\<close> and \<open>s.removeprefix(p)\<close>.\<close>

definition startswith :: "string \<Rightarrow> string \<Rightarrow> bool" where
  "startswith s p \<longleftrightarrow> take (length p) s = p"

definition removeprefix :: "string \<Rightarrow> string \<Rightarrow> string" where
  "removeprefix s p = (if startswith s p then drop (length p) s else s)"

definition scope_drops :: "string \<Rightarrow> IndexKey \<Rightarrow> bool" where
  "scope_drops scope ik \<longleftrightarrow>
     scope = ''all'' \<or>
     (startswith scope ''model:'' \<and> ik_model ik = removeprefix scope ''model:'') \<or>
     (startswith scope ''compat_key:'' \<and> ik_compat ik = removeprefix scope ''compat_key:'')"

definition apply_cleared :: "KVIndex \<Rightarrow> string \<Rightarrow> string \<Rightarrow> KVIndex" where
  "apply_cleared ix pub scope =
     (let mine = filter (\<lambda>ik. ik_publisher ik = pub) (map fst (ix_trees ix));
          to_drop = filter (scope_drops scope) mine
      in if startswith scope ''tier:'' then
           (case Tier_of (removeprefix scope ''tier:'') of
              Inl _ \<Rightarrow> ix
            | Inr t \<Rightarrow> foldl (\<lambda>ix ik. strip_tier ix ik t) ix mine)
         else foldl drop_tree_at ix to_drop)"

definition drop_publisher :: "KVIndex \<Rightarrow> string \<Rightarrow> KVIndex" where
  "drop_publisher ix pub = foldl drop_tree_at ix (filter (\<lambda>ik. ik_publisher ik = pub) (map fst (ix_trees ix)))"

text \<open>\<open>int(x)\<close> of a float.\<close>

definition py_trunc :: "real \<Rightarrow> int" where
  "py_trunc x = (if x < 0 then \<lceil>x\<rceil> else \<lfloor>x\<rfloor>)"

fun record_chain :: "nat \<Rightarrow> IndexKey \<Rightarrow> Tier \<Rightarrow> int \<Rightarrow> int \<Rightarrow> KVIndex \<Rightarrow> BlockKey list \<Rightarrow> KVIndex" where
  "record_chain rt key t deadline now ix [] = ix"
| "record_chain rt key t deadline now ix (b # bs) =
     (let was_confirmed =
            (case dict_get (ix_by_seq ix) (key, sequence_hash b) of
               None \<Rightarrow> False
             | Some e \<Rightarrow> \<not> is_optimistic (ix_node ix e) \<and> n_tiers (ix_node ix e) \<noteq> {})
      in case upsert_node ix rt key b now of
           (a, ix) \<Rightarrow>
             record_chain rt key t deadline now
               (ix_set ix a (\<lambda>n. n\<lparr>n_tiers := insert t (n_tiers n), n_last_access_ts_ms := now,
                    n_optimistic_until_ms := if was_confirmed then n_optimistic_until_ms n else Some deadline\<rparr>)) bs)"

definition optimistically_record :: "KVIndex \<Rightarrow> IndexKey \<Rightarrow> BlockKey list \<Rightarrow> Tier \<Rightarrow> real \<Rightarrow> int \<Rightarrow> KVIndex" where
  "optimistically_record ix key ch t ttl_s now =
     (case ensure_root ix key of
        (rt, ix) \<Rightarrow> record_chain rt key t (now + py_trunc (ttl_s * 1000)) now ix ch)"

section \<open>Queries\<close>

definition count_tiers :: "Tier set \<Rightarrow> OverlapBlocks \<Rightarrow> OverlapBlocks" where
  "count_tiers ts ov =
     \<lparr>device = (if DEVICE \<in> ts then device ov + 1 else device ov),
      host = (if HOST \<in> ts then host ov + 1 else host ov),
      disk = (if DISK \<in> ts then disk ov + 1 else disk ov),
      fabric = (if FABRIC \<in> ts then fabric ov + 1 else fabric ov)\<rparr>"

fun find_walk :: "int \<Rightarrow> nat \<Rightarrow> OverlapBlocks \<Rightarrow> KVIndex \<Rightarrow> BlockKey list \<Rightarrow> OverlapBlocks \<times> KVIndex" where
  "find_walk now cursor ov ix [] = (ov, ix)"
| "find_walk now cursor ov ix (b # bs) =
     (case dict_get (n_children (ix_node ix cursor)) (block_hash b) of
        None \<Rightarrow> (ov, ix)
      | Some c \<Rightarrow>
          if n_sequence_hash (ix_node ix c) \<noteq> sequence_hash b then (ov, ix)
          else find_walk now c (count_tiers (n_tiers (ix_node ix c)) ov)
                 (ix_set ix c (\<lambda>n. n\<lparr>n_last_access_ts_ms := now\<rparr>)) bs)"

definition find_one :: "KVIndex \<Rightarrow> IndexKey \<Rightarrow> BlockKey list \<Rightarrow> int \<Rightarrow> OverlapBlocks \<times> KVIndex" where
  "find_one ix key ch now =
     (case dict_get (ix_trees ix) key of
        None \<Rightarrow> (no_overlap, ix)
      | Some rt \<Rightarrow> if ch = [] then (no_overlap, ix) else find_walk now rt no_overlap ix ch)"

fun find_matches :: "KVIndex \<Rightarrow> string \<Rightarrow> string \<Rightarrow> BlockKey list \<Rightarrow> int \<Rightarrow> string list \<Rightarrow> (string, OverlapBlocks) dict \<Rightarrow>
    (string, OverlapBlocks) dict \<times> KVIndex" where
  "find_matches ix model ck ch now [] out = (out, ix)"
| "find_matches ix model ck ch now (pub # pubs) out =
     (case find_one ix (model, ck, pub) ch now of
        (ov, ix) \<Rightarrow> find_matches ix model ck ch now pubs (dict_put pub ov out))"

section \<open>Maintenance\<close>

definition is_stale :: "int \<Rightarrow> int \<Rightarrow> IndexNode \<Rightarrow> bool" where
  "is_stale ttl_ms now n \<longleftrightarrow>
     (case n_optimistic_until_ms n of
        Some d \<Rightarrow> d < now
      | None \<Rightarrow> now - n_last_access_ts_ms n > ttl_ms)"

definition clear_stale :: "int \<Rightarrow> int \<Rightarrow> KVIndex \<Rightarrow> KVIndex" where
  "clear_stale ttl_ms now ix =
     foldl (\<lambda>ix (k, a). if is_stale ttl_ms now (ix_node ix a) then ix_set ix a (\<lambda>n. n\<lparr>n_tiers := {}\<rparr>) else ix)
       ix (ix_by_seq ix)"

text \<open>One round over a snapshot of the keys, with the number of nodes it unlinks.\<close>

fun evict_round :: "KVIndex \<Rightarrow> (IndexKey \<times> int) list \<Rightarrow> nat \<times> KVIndex" where
  "evict_round ix [] = (0, ix)"
| "evict_round ix (k # ks) =
     (case dict_get (ix_by_seq ix) k of
        None \<Rightarrow> evict_round ix ks
      | Some a \<Rightarrow>
          if is_dead (ix_node ix a)
          then case evict_round (unlink_leaf ix (fst k) a) ks of (n, ix') \<Rightarrow> (n + 1, ix')
          else evict_round ix ks)"

partial_function (option) evict_rounds :: "KVIndex \<Rightarrow> nat \<Rightarrow> (nat \<times> KVIndex) option" where
  "evict_rounds ix removed =
     (case evict_round ix (map fst (ix_by_seq ix)) of
        (n, ix') \<Rightarrow> if n = 0 then Some (removed, ix') else evict_rounds ix' (removed + n))"

definition evict_expired :: "KVIndex \<Rightarrow> int \<Rightarrow> (nat \<times> KVIndex) option" where
  "evict_expired ix now = evict_rounds (clear_stale (py_trunc (default_ttl_s ix * 1000)) now ix) 0"

record IndexStats =
  st_nodes :: nat
  st_confirmed_nodes :: nat
  st_optimistic_nodes :: nat
  st_publishers :: nat
  st_models :: nat
  st_compat_keys :: nat

definition index_stats :: "KVIndex \<Rightarrow> IndexStats" where
  "index_stats ix =
     (let ns = map (\<lambda>(k, a). ix_node ix a) (ix_by_seq ix); iks = map fst (ix_trees ix)
      in \<lparr>st_nodes = length ns, st_confirmed_nodes = length (filter (\<lambda>n. \<not> is_optimistic n) ns),
          st_optimistic_nodes = length (filter is_optimistic ns),
          st_publishers = length (remdups (map ik_publisher iks)), st_models = length (remdups (map ik_model iks)),
          st_compat_keys = length (remdups (map ik_compat iks))\<rparr>)"

section \<open>The tree and the table agree\<close>

definition node_key :: "IndexNode \<Rightarrow> BlockKey" where
  "node_key n = \<lparr>sequence_hash = n_sequence_hash n, block_hash = n_block_hash n,
                 parent_sequence_hash = n_parent_sequence_hash n\<rparr>"

text \<open>The blocks met so far: a sequence hash stands for one block under one parent.\<close>

definition link_ok :: "BlockKey set \<Rightarrow> bool" where
  "link_ok U \<longleftrightarrow> (\<forall>b \<in> U. \<forall>c \<in> U. (sequence_hash b = sequence_hash c) =
     (block_hash b = block_hash c \<and> parent_sequence_hash b = parent_sequence_hash c))"

text \<open>Every indexed node hangs below its parent under its block hash, every child is indexed, and no
  object is shared.\<close>

definition ix_ok :: "BlockKey set \<Rightarrow> KVIndex \<Rightarrow> bool" where
  "ix_ok U ix \<longleftrightarrow> dict_wf (ix_by_seq ix) \<and>
     (\<forall>k ps p. parent_addr ix k ps = Some p \<longrightarrow> p < length (ix_heap ix)) \<and>
     (\<forall>k ps k' ps' p. parent_addr ix k ps = Some p \<longrightarrow> parent_addr ix k' ps' = Some p \<longrightarrow> k = k' \<and> ps = ps') \<and>
     (\<forall>k s a. dict_get (ix_by_seq ix) (k, s) = Some a \<longrightarrow> node_key (ix_node ix a) \<in> U) \<and>
     (\<forall>k s a. dict_get (ix_by_seq ix) (k, s) = Some a \<longrightarrow> n_sequence_hash (ix_node ix a) = s) \<and>
     (\<forall>k s a. dict_get (ix_by_seq ix) (k, s) = Some a \<longrightarrow>
        (\<exists>p. parent_addr ix k (n_parent_sequence_hash (ix_node ix a)) = Some p \<and>
             dict_get (n_children (ix_node ix p)) (n_block_hash (ix_node ix a)) = Some a)) \<and>
     (\<forall>k ps p h a. parent_addr ix k ps = Some p \<longrightarrow> dict_get (n_children (ix_node ix p)) h = Some a \<longrightarrow>
        (\<exists>s. dict_get (ix_by_seq ix) (k, s) = Some a \<and> n_parent_sequence_hash (ix_node ix a) = ps \<and>
             n_block_hash (ix_node ix a) = h))"

lemma parent_addr_simps [simp]:
  "parent_addr ix k None = dict_get (ix_trees ix) k"
  "parent_addr ix k (Some s) = dict_get (ix_by_seq ix) (k, s)"
  by (simp_all add: parent_addr_def)

lemma ix_okD:
  assumes "ix_ok U ix"
  shows ix_ok_wf: "dict_wf (ix_by_seq ix)"
    and ix_ok_bound: "parent_addr ix k ps = Some p \<Longrightarrow> p < length (ix_heap ix)"
    and ix_ok_inj: "parent_addr ix k ps = Some p \<Longrightarrow> parent_addr ix k' ps' = Some p \<Longrightarrow> k = k' \<and> ps = ps'"
    and ix_ok_key: "dict_get (ix_by_seq ix) (k, s) = Some a \<Longrightarrow> node_key (ix_node ix a) \<in> U"
    and ix_ok_seq: "dict_get (ix_by_seq ix) (k, s) = Some a \<Longrightarrow> n_sequence_hash (ix_node ix a) = s"
    and ix_ok_parent: "dict_get (ix_by_seq ix) (k, s) = Some a \<Longrightarrow>
      \<exists>p. parent_addr ix k (n_parent_sequence_hash (ix_node ix a)) = Some p \<and>
          dict_get (n_children (ix_node ix p)) (n_block_hash (ix_node ix a)) = Some a"
    and ix_ok_child: "parent_addr ix k ps = Some p \<Longrightarrow> dict_get (n_children (ix_node ix p)) h = Some a \<Longrightarrow>
      \<exists>s. dict_get (ix_by_seq ix) (k, s) = Some a \<and> n_parent_sequence_hash (ix_node ix a) = ps \<and>
          n_block_hash (ix_node ix a) = h"
proof -
  note A = assms [unfolded ix_ok_def]
  note T = A [THEN conjunct2]
  show "dict_wf (ix_by_seq ix)" by (rule A [THEN conjunct1])
  show "p < length (ix_heap ix)" if "parent_addr ix k ps = Some p"
    using that by (rule T [THEN conjunct1, rule_format])
  show "k = k' \<and> ps = ps'" if "parent_addr ix k ps = Some p" "parent_addr ix k' ps' = Some p"
    using that by (rule T [THEN conjunct2, THEN conjunct1, rule_format])
  show "node_key (ix_node ix a) \<in> U" if "dict_get (ix_by_seq ix) (k, s) = Some a"
    using that by (rule T [THEN conjunct2, THEN conjunct2, THEN conjunct1, rule_format])
  show "n_sequence_hash (ix_node ix a) = s" if "dict_get (ix_by_seq ix) (k, s) = Some a"
    using that by (rule T [THEN conjunct2, THEN conjunct2, THEN conjunct2, THEN conjunct1, rule_format])
  show "\<exists>p. parent_addr ix k (n_parent_sequence_hash (ix_node ix a)) = Some p \<and>
          dict_get (n_children (ix_node ix p)) (n_block_hash (ix_node ix a)) = Some a"
    if "dict_get (ix_by_seq ix) (k, s) = Some a"
    using that by (rule T [THEN conjunct2, THEN conjunct2, THEN conjunct2, THEN conjunct2, THEN conjunct1, rule_format])
  show "\<exists>s. dict_get (ix_by_seq ix) (k, s) = Some a \<and> n_parent_sequence_hash (ix_node ix a) = ps \<and>
          n_block_hash (ix_node ix a) = h"
    if "parent_addr ix k ps = Some p" "dict_get (n_children (ix_node ix p)) h = Some a"
    using that by (rule T [THEN conjunct2, THEN conjunct2, THEN conjunct2, THEN conjunct2, THEN conjunct2, rule_format])
qed

lemma ix_okI:
  assumes "dict_wf (ix_by_seq ix)"
    and "\<And>k ps p. parent_addr ix k ps = Some p \<Longrightarrow> p < length (ix_heap ix)"
    and "\<And>k ps k' ps' p. parent_addr ix k ps = Some p \<Longrightarrow> parent_addr ix k' ps' = Some p \<Longrightarrow> k = k' \<and> ps = ps'"
    and "\<And>k s a. dict_get (ix_by_seq ix) (k, s) = Some a \<Longrightarrow> node_key (ix_node ix a) \<in> U"
    and "\<And>k s a. dict_get (ix_by_seq ix) (k, s) = Some a \<Longrightarrow> n_sequence_hash (ix_node ix a) = s"
    and "\<And>k s a. dict_get (ix_by_seq ix) (k, s) = Some a \<Longrightarrow>
      \<exists>p. parent_addr ix k (n_parent_sequence_hash (ix_node ix a)) = Some p \<and>
          dict_get (n_children (ix_node ix p)) (n_block_hash (ix_node ix a)) = Some a"
    and "\<And>k ps p h a. parent_addr ix k ps = Some p \<Longrightarrow> dict_get (n_children (ix_node ix p)) h = Some a \<Longrightarrow>
      \<exists>s. dict_get (ix_by_seq ix) (k, s) = Some a \<and> n_parent_sequence_hash (ix_node ix a) = ps \<and>
          n_block_hash (ix_node ix a) = h"
  shows "ix_ok U ix"
  unfolding ix_ok_def
  by (intro conjI; (intro allI impI)?; (rule assms; assumption)?)

lemma make_index_ok: "ix_ok U (make_index ttl)"
  by (rule ix_okI) (simp_all add: make_index_def parent_addr_def split: option.splits)

text \<open>An index that differs only in the payload of its nodes.\<close>

definition same_shape :: "KVIndex \<Rightarrow> KVIndex \<Rightarrow> bool" where
  "same_shape ix ix' \<longleftrightarrow> ix_trees ix' = ix_trees ix \<and> ix_by_seq ix' = ix_by_seq ix \<and>
     length (ix_heap ix') = length (ix_heap ix) \<and> default_ttl_s ix' = default_ttl_s ix \<and>
     (\<forall>a. node_key (ix_node ix' a) = node_key (ix_node ix a) \<and> n_children (ix_node ix' a) = n_children (ix_node ix a))"

lemma same_shapeD:
  assumes "same_shape ix ix'"
  shows "ix_trees ix' = ix_trees ix" "ix_by_seq ix' = ix_by_seq ix" "length (ix_heap ix') = length (ix_heap ix)"
    "default_ttl_s ix' = default_ttl_s ix" "n_children (ix_node ix' a) = n_children (ix_node ix a)"
    "n_block_hash (ix_node ix' a) = n_block_hash (ix_node ix a)" "n_sequence_hash (ix_node ix' a) = n_sequence_hash (ix_node ix a)"
    "n_parent_sequence_hash (ix_node ix' a) = n_parent_sequence_hash (ix_node ix a)" "node_key (ix_node ix' a) = node_key (ix_node ix a)"
    "parent_addr ix' k ps = parent_addr ix k ps"
  using assms by (simp_all add: same_shape_def node_key_def parent_addr_def split: option.split)

lemma same_shape_refl [simp]: "same_shape ix ix"
  by (simp add: same_shape_def)

lemma same_shape_trans: "same_shape ix ix' \<Longrightarrow> same_shape ix' ix'' \<Longrightarrow> same_shape ix ix''"
  by (simp add: same_shape_def)

lemma same_shape_ok:
  assumes "same_shape ix ix'"
  shows "ix_ok U ix' = ix_ok U ix"
  unfolding ix_ok_def same_shapeD [OF assms] ..

definition shape_keeping :: "(IndexNode \<Rightarrow> IndexNode) \<Rightarrow> bool" where
  "shape_keeping f \<longleftrightarrow> (\<forall>n. node_key (f n) = node_key n \<and> n_children (f n) = n_children n)"

lemma ix_set_fields [simp]:
  "ix_trees (ix_set ix a f) = ix_trees ix" "ix_by_seq (ix_set ix a f) = ix_by_seq ix"
  "length (ix_heap (ix_set ix a f)) = length (ix_heap ix)" "default_ttl_s (ix_set ix a f) = default_ttl_s ix"
  "parent_addr (ix_set ix a f) = parent_addr ix"
  by (simp_all add: ix_set_def parent_addr_def fun_eq_iff split: option.split)

lemma ix_set_node: "ix_node (ix_set ix a f) x = (if x = a \<and> a < length (ix_heap ix) then f (ix_node ix a) else ix_node ix x)"
  by (cases "a < length (ix_heap ix)") (simp_all add: ix_set_def nth_list_update list_update_beyond)

lemma ix_set_shape: "shape_keeping f \<Longrightarrow> same_shape ix (ix_set ix a f)"
  by (simp add: same_shape_def shape_keeping_def ix_set_node)

lemma shape_keeping_payload [simp]:
  "shape_keeping (\<lambda>n. n\<lparr>n_last_access_ts_ms := now\<rparr>)" "shape_keeping (\<lambda>n. n\<lparr>n_tiers := F n\<rparr>)"
  "shape_keeping (\<lambda>n. n\<lparr>n_tiers := F n, n_optimistic_until_ms := G n, n_last_access_ts_ms := now\<rparr>)"
  "shape_keeping (\<lambda>n. n\<lparr>n_tiers := F n, n_last_access_ts_ms := now, n_optimistic_until_ms := G n\<rparr>)"
  by (simp_all add: shape_keeping_def node_key_def)

section \<open>What the index stands for\<close>

text \<open>The tiers of a block, when it was last used and until when it is only assumed to be there.\<close>

type_synonym residency = "Tier set \<times> int \<times> int option"

type_synonym index_table = "IndexKey \<times> int \<Rightarrow> residency option"

definition node_residency :: "IndexNode \<Rightarrow> residency option" where
  "node_residency n = (if n_tiers n = {} then None else Some (n_tiers n, n_last_access_ts_ms n, n_optimistic_until_ms n))"

definition table_of :: "KVIndex \<Rightarrow> index_table" where
  "table_of ix k = (case dict_get (ix_by_seq ix) k of None \<Rightarrow> None | Some a \<Rightarrow> node_residency (ix_node ix a))"

lemma ix_ok_addr_inj:
  assumes "ix_ok U ix" and "dict_get (ix_by_seq ix) x = Some a" and "dict_get (ix_by_seq ix) y = Some a"
  shows "x = y"
  using ix_ok_inj [OF assms(1), of "fst x" "Some (snd x)" a "fst y" "Some (snd y)"] assms(2,3) by (simp add: prod_eq_iff)

lemma table_of_set:
  assumes "ix_ok U ix" and "dict_get (ix_by_seq ix) x = Some a"
  shows "table_of (ix_set ix a f) = (table_of ix)(x := node_residency (f (ix_node ix a)))"
proof
  fix y
  have len: "a < length (ix_heap ix)" using ix_ok_bound [OF assms(1), of "fst x" "Some (snd x)"] assms(2) by simp
  show "table_of (ix_set ix a f) y = ((table_of ix)(x := node_residency (f (ix_node ix a)))) y"
  proof (cases "y = x")
    case False
    then have "dict_get (ix_by_seq ix) y \<noteq> Some a" using ix_ok_addr_inj [OF assms(1,2)] by blast
    then show ?thesis using False by (simp add: table_of_def ix_set_node split: option.split)
  qed (simp add: table_of_def ix_set_node assms(2) len)
qed

section \<open>The building blocks\<close>

text \<open>A new object: a root, or a node below an indexed parent.\<close>

lemma ix_ok_grow:
  assumes ok: "ix_ok U ix" and wf: "dict_wf (ix_by_seq ix')" and len: "length (ix_heap ix') = Suc (length (ix_heap ix))"
    and pa: "\<And>x ps. parent_addr ix' x ps = (if x = k \<and> ps = q then Some (length (ix_heap ix)) else parent_addr ix x ps)"
    and q: "parent_addr ix k q = None"
    and old: "\<And>a. a < length (ix_heap ix) \<Longrightarrow> node_key (ix_node ix' a) = node_key (ix_node ix a)"
    and ch: "\<And>p h. p < length (ix_heap ix) \<Longrightarrow> dict_get (n_children (ix_node ix' p)) h =
      (if q \<noteq> None \<and> parent_addr ix k (n_parent_sequence_hash (ix_node ix' (length (ix_heap ix)))) = Some p \<and>
          h = n_block_hash (ix_node ix' (length (ix_heap ix)))
       then Some (length (ix_heap ix)) else dict_get (n_children (ix_node ix p)) h)"
    and nil: "n_children (ix_node ix' (length (ix_heap ix))) = []"
    and new: "\<And>s. q = Some s \<Longrightarrow> node_key (ix_node ix' (length (ix_heap ix))) \<in> U \<and>
      n_sequence_hash (ix_node ix' (length (ix_heap ix))) = s \<and>
      (\<exists>p. parent_addr ix k (n_parent_sequence_hash (ix_node ix' (length (ix_heap ix)))) = Some p)"
    and free: "\<And>s p. q = Some s \<Longrightarrow> parent_addr ix k (n_parent_sequence_hash (ix_node ix' (length (ix_heap ix)))) = Some p \<Longrightarrow>
      dict_get (n_children (ix_node ix p)) (n_block_hash (ix_node ix' (length (ix_heap ix)))) = None"
  shows "ix_ok U ix'"
proof (rule ix_okI)
  let ?len = "length (ix_heap ix)"
  let ?n = "ix_node ix' ?len"
  have by': "dict_get (ix_by_seq ix') (x, s) = (if x = k \<and> q = Some s then Some ?len else dict_get (ix_by_seq ix) (x, s))" for x s
    using pa [of x "Some s"] by auto
  have fields: "n_parent_sequence_hash (ix_node ix' a) = n_parent_sequence_hash (ix_node ix a)"
    "n_block_hash (ix_node ix' a) = n_block_hash (ix_node ix a)" "n_sequence_hash (ix_node ix' a) = n_sequence_hash (ix_node ix a)"
    if "a < ?len" for a using old [OF that] by (simp_all add: node_key_def)
  have bd: "a < ?len" if "dict_get (ix_by_seq ix) (x, s) = Some a" for x s a
    using ix_ok_bound [OF ok, of x "Some s"] that by simp
  show "dict_wf (ix_by_seq ix')" by (rule wf)
  show "p < length (ix_heap ix')" if "parent_addr ix' x ps = Some p" for x ps p
    using that ix_ok_bound [OF ok, of x ps p] by (auto simp: pa len split: if_splits)
  show "x = x' \<and> ps = ps'" if "parent_addr ix' x ps = Some p" "parent_addr ix' x' ps' = Some p" for x ps x' ps' p
    using that ix_ok_inj [OF ok, of x ps p x' ps'] ix_ok_bound [OF ok, of x ps p] ix_ok_bound [OF ok, of x' ps' p]
    by (auto simp: pa split: if_splits)
  show "node_key (ix_node ix' a) \<in> U" "n_sequence_hash (ix_node ix' a) = s" if b: "dict_get (ix_by_seq ix') (x, s) = Some a" for x s a
    using b new old [OF bd] fields(3) [OF bd] ix_ok_key [OF ok] ix_ok_seq [OF ok] by (auto simp: by' split: if_splits)
  show "\<exists>p. parent_addr ix' x (n_parent_sequence_hash (ix_node ix' a)) = Some p \<and>
      dict_get (n_children (ix_node ix' p)) (n_block_hash (ix_node ix' a)) = Some a"
    if b: "dict_get (ix_by_seq ix') (x, s) = Some a" for x s a
  proof (cases "x = k \<and> q = Some s")
    case True
    then obtain p where p: "parent_addr ix k (n_parent_sequence_hash ?n) = Some p" using new by blast
    then have "parent_addr ix' k (n_parent_sequence_hash ?n) = Some p" using q by (auto simp: pa)
    then show ?thesis using True b ch [OF ix_ok_bound [OF ok p]] p by (auto simp: by')
  next
    case False
    then have b: "dict_get (ix_by_seq ix) (x, s) = Some a" using b by (auto simp: by')
    obtain p where p: "parent_addr ix x (n_parent_sequence_hash (ix_node ix a)) = Some p"
      "dict_get (n_children (ix_node ix p)) (n_block_hash (ix_node ix a)) = Some a" using ix_ok_parent [OF ok b] by blast
    have "parent_addr ix' x (n_parent_sequence_hash (ix_node ix' a)) = Some p" using p q by (auto simp: pa fields [OF bd [OF b]])
    moreover have "dict_get (n_children (ix_node ix' p)) (n_block_hash (ix_node ix' a)) = Some a"
      using p(2) free [of _ p] by (auto simp: ch [OF ix_ok_bound [OF ok p(1)]] fields [OF bd [OF b]])
    ultimately show ?thesis by blast
  qed
  show "\<exists>s. dict_get (ix_by_seq ix') (x, s) = Some a \<and> n_parent_sequence_hash (ix_node ix' a) = ps \<and> n_block_hash (ix_node ix' a) = h"
    if p: "parent_addr ix' x ps = Some p" and c: "dict_get (n_children (ix_node ix' p)) h = Some a" for x ps p h a
  proof -
    have "\<not> (x = k \<and> ps = q)" using p c nil by (auto simp: pa)
    then have p: "parent_addr ix x ps = Some p" using p by (auto simp: pa)
    note c' = c [unfolded ch [OF ix_ok_bound [OF ok p]]]
    show ?thesis
    proof (cases "q \<noteq> None \<and> parent_addr ix k (n_parent_sequence_hash ?n) = Some p \<and> h = n_block_hash ?n")
      case True
      then have "x = k \<and> ps = n_parent_sequence_hash ?n" using ix_ok_inj [OF ok p] by blast
      then show ?thesis using True c' by (auto simp: by')
    next
      case False
      then have "dict_get (n_children (ix_node ix p)) h = Some a" using c' by (simp only: if_False)
      from ix_ok_child [OF ok p this] obtain s where s: "dict_get (ix_by_seq ix) (x, s) = Some a"
        "n_parent_sequence_hash (ix_node ix a) = ps" "n_block_hash (ix_node ix a) = h" by blast
      then have "\<not> (x = k \<and> q = Some s)" using q by auto
      then show ?thesis using s fields [OF bd [OF s(1)]] by (auto simp: by')
    qed
  qed
qed

lemma ensure_root_ok:
  assumes ok: "ix_ok U ix" and e: "ensure_root ix k = (rt, ix')"
  shows "ix_ok U ix'" and "dict_get (ix_trees ix') k = Some rt" and "table_of ix' = table_of ix"
    and "ix_by_seq ix' = ix_by_seq ix" and "default_ttl_s ix' = default_ttl_s ix"
proof -
  have "ix_ok U ix' \<and> dict_get (ix_trees ix') k = Some rt \<and> table_of ix' = table_of ix \<and> ix_by_seq ix' = ix_by_seq ix \<and>
    default_ttl_s ix' = default_ttl_s ix"
  proof (cases "dict_get (ix_trees ix) k")
    case (Some r)
    then show ?thesis using ok e by (simp add: ensure_root_def)
  next
    case None
    let ?len = "length (ix_heap ix)"
    have rt: "rt = ?len" and new: "ix_trees ix' = dict_put k ?len (ix_trees ix)" "ix_by_seq ix' = ix_by_seq ix"
      "default_ttl_s ix' = default_ttl_s ix" "length (ix_heap ix') = Suc ?len" "n_children (ix_node ix' ?len) = []"
      using e None by (auto simp: ensure_root_def ix_new_def)
    have old: "ix_node ix' a = ix_node ix a" if "a < ?len" for a
      using e None that by (auto simp: ensure_root_def ix_new_def nth_append)
    have pa: "parent_addr ix' x ps = (if x = k \<and> ps = None then Some ?len else parent_addr ix x ps)" for x ps
      by (cases ps) (simp_all add: new dict_simps)
    have "ix_ok U ix'"
      by (rule ix_ok_grow [OF ok _ new(4) pa]) (simp_all add: new None old ix_ok_wf [OF ok])
    moreover have "table_of ix' = table_of ix"
    proof
      fix y show "table_of ix' y = table_of ix y"
        using old [OF ix_ok_bound [OF ok, of "fst y" "Some (snd y)"]] by (simp add: table_of_def new(2) split: option.split)
    qed
    ultimately show ?thesis by (simp add: new dict_simps rt)
  qed
  then show "ix_ok U ix'" "dict_get (ix_trees ix') k = Some rt" "table_of ix' = table_of ix"
    "ix_by_seq ix' = ix_by_seq ix" "default_ttl_s ix' = default_ttl_s ix" by simp_all
qed

text \<open>An upsert whose parent is indexed: afterwards the block is indexed, and the table is as before
  except for the time of the last use.\<close>

lemma link_okD:
  "link_ok U \<Longrightarrow> b \<in> U \<Longrightarrow> c \<in> U \<Longrightarrow>
   (sequence_hash b = sequence_hash c) = (block_hash b = block_hash c \<and> parent_sequence_hash b = parent_sequence_hash c)"
  by (simp add: link_ok_def)

lemma indexed_child:
  assumes "ix_ok U ix" and "link_ok U" and "b \<in> U" and "parent_addr ix k (parent_sequence_hash b) = Some p"
  shows "dict_get (ix_by_seq ix) (k, sequence_hash b) = dict_get (n_children (ix_node ix p)) (block_hash b)"
proof (cases "dict_get (ix_by_seq ix) (k, sequence_hash b)")
  case (Some a)
  have "block_hash b = n_block_hash (ix_node ix a) \<and> parent_sequence_hash b = n_parent_sequence_hash (ix_node ix a)"
    using link_okD [OF assms(2,3) ix_ok_key [OF assms(1) Some]] ix_ok_seq [OF assms(1) Some] by (simp add: node_key_def)
  then show ?thesis using ix_ok_parent [OF assms(1) Some] Some assms(4) by auto
next
  case None
  show ?thesis
  proof (cases "dict_get (n_children (ix_node ix p)) (block_hash b)")
    case (Some a)
    obtain s where s: "dict_get (ix_by_seq ix) (k, s) = Some a" "n_parent_sequence_hash (ix_node ix a) = parent_sequence_hash b"
      "n_block_hash (ix_node ix a) = block_hash b" using ix_ok_child [OF assms(1,4) Some] by blast
    have "sequence_hash b = s"
      using link_okD [OF assms(2,3) ix_ok_key [OF assms(1) s(1)]] ix_ok_seq [OF assms(1) s(1)] s(2,3) by (simp add: node_key_def)
    then show ?thesis using s None by simp
  qed (simp add: None)
qed

lemma attach_point_parent:
  "dict_get (ix_trees ix) k = Some rt \<Longrightarrow> parent_addr ix k (parent_sequence_hash b) = Some p \<Longrightarrow> attach_point ix rt k b = p"
  by (cases "parent_sequence_hash b") (simp_all add: attach_point_def)

lemma upsert_node_ok:
  assumes ok: "ix_ok U ix" and U: "link_ok U" "b \<in> U" and rt: "dict_get (ix_trees ix) k = Some rt"
    and p: "parent_addr ix k (parent_sequence_hash b) = Some p" and e: "upsert_node ix rt k b now = (a, ix')"
  shows "ix_ok U ix' \<and> dict_get (ix_by_seq ix') (k, sequence_hash b) = Some a \<and> ix_trees ix' = ix_trees ix \<and>
    default_ttl_s ix' = default_ttl_s ix \<and>
    table_of ix' = (table_of ix)((k, sequence_hash b) := map_option (\<lambda>(ts, ac, op). (ts, now, op)) (table_of ix (k, sequence_hash b))) \<and>
    n_tiers (ix_node ix' a) = (case table_of ix (k, sequence_hash b) of None \<Rightarrow> {} | Some (ts, ac, op) \<Rightarrow> ts)"
proof (cases "dict_get (n_children (ix_node ix p)) (block_hash b)")
  case (Some c)
  have b: "dict_get (ix_by_seq ix) (k, sequence_hash b) = Some c" using indexed_child [OF ok U p] Some by simp
  have "c < length (ix_heap ix)" using ix_ok_bound [OF ok, of k "Some (sequence_hash b)"] b by simp
  moreover have "a = c" "ix' = ix_set ix c (\<lambda>n. n\<lparr>n_last_access_ts_ms := now\<rparr>)"
    using e by (auto simp: upsert_node_def attach_point_parent [OF rt p] Some)
  ultimately show ?thesis
    using b same_shape_ok [OF ix_set_shape [OF shape_keeping_payload(1)]] ok table_of_set [OF ok b, of "\<lambda>n. n\<lparr>n_last_access_ts_ms := now\<rparr>"]
    by (simp add: ix_set_node node_residency_def table_of_def)
next
  case None
  let ?len = "length (ix_heap ix)"
  have b: "dict_get (ix_by_seq ix) (k, sequence_hash b) = None" using indexed_child [OF ok U p] None by simp
  have plt: "p < ?len" by (rule ix_ok_bound [OF ok p])
  have new: "a = ?len" "ix_by_seq ix' = dict_put (k, sequence_hash b) ?len (ix_by_seq ix)" "ix_trees ix' = ix_trees ix"
    "default_ttl_s ix' = default_ttl_s ix" "length (ix_heap ix') = Suc ?len"
    "ix_node ix' ?len = \<lparr>n_block_hash = block_hash b, n_sequence_hash = sequence_hash b,
                 n_parent_sequence_hash = parent_sequence_hash b, n_children = [], n_tiers = {},
                 n_inserted_ts_ms = now, n_last_access_ts_ms = now, n_optimistic_until_ms = None\<rparr>"
    using e plt by (auto simp: upsert_node_def attach_point_parent [OF rt p] None ix_new_def ix_set_def Let_def nth_append)
  have old: "ix_node ix' x = (if x = p then (ix_node ix p)\<lparr>n_children := dict_put (block_hash b) ?len (n_children (ix_node ix p))\<rparr> else ix_node ix x)"
    if "x < ?len" for x
    using e plt that by (auto simp: upsert_node_def attach_point_parent [OF rt p] None ix_new_def ix_set_def Let_def nth_append nth_list_update)
  have pa: "parent_addr ix' x ps = (if x = k \<and> ps = Some (sequence_hash b) then Some ?len else parent_addr ix x ps)" for x ps
    by (cases ps) (simp_all add: new dict_simps)
  have "node_key (ix_node ix' ?len) = b" by (simp add: new(6) node_key_def)
  then have "ix_ok U ix'"
    by (intro ix_ok_grow [OF ok _ new(5) pa])
      (use None U p b in \<open>simp_all add: new(2,6) old wf_intros ix_ok_wf [OF ok] dict_simps, simp add: node_key_def\<close>)
  moreover have "table_of ix' = table_of ix"
  proof
    fix y show "table_of ix' y = table_of ix y"
      using ix_ok_bound [OF ok, of "fst y" "Some (snd y)"] b
      by (auto simp: table_of_def new(2,6) dict_simps node_residency_def old split: option.split)
  qed
  moreover have "table_of ix (k, sequence_hash b) = None" by (simp add: table_of_def b)
  ultimately show ?thesis by (simp add: new dict_simps fun_upd_idem)
qed

lemma unlink_leaf_ok:
  assumes ok: "ix_ok U ix" and b: "dict_get (ix_by_seq ix) (k, s) = Some a" and leaf: "n_children (ix_node ix a) = []"
  shows "ix_ok U (unlink_leaf ix k a)" and "ix_by_seq (unlink_leaf ix k a) = dict_del (k, s) (ix_by_seq ix)"
    and "ix_trees (unlink_leaf ix k a) = ix_trees ix" and "default_ttl_s (unlink_leaf ix k a) = default_ttl_s ix"
    and "n_tiers (ix_node (unlink_leaf ix k a) x) = n_tiers (ix_node ix x)"
    and "node_residency (ix_node (unlink_leaf ix k a) x) = node_residency (ix_node ix x)"
    and "n_children (ix_node ix x) = [] \<Longrightarrow> n_children (ix_node (unlink_leaf ix k a) x) = []"
proof -
  let ?n = "ix_node ix a" and ?ix = "unlink_leaf ix k a"
  obtain p where p: "parent_addr ix k (n_parent_sequence_hash ?n) = Some p" "dict_get (n_children (ix_node ix p)) (n_block_hash ?n) = Some a"
    using ix_ok_parent [OF ok b] by blast
  have plt: "p < length (ix_heap ix)" by (rule ix_ok_bound [OF ok p(1)])
  have u: "?ix = (ix_set ix p (\<lambda>m. m\<lparr>n_children := dict_del (n_block_hash ?n) (n_children m)\<rparr>))\<lparr>ix_by_seq := dict_del (k, s) (ix_by_seq ix)\<rparr>"
    by (simp add: unlink_leaf_def p(1) ix_ok_seq [OF ok b] Let_def)
  have node: "ix_node ?ix x = (if x = p then (ix_node ix p)\<lparr>n_children := dict_del (n_block_hash ?n) (n_children (ix_node ix p))\<rparr> else ix_node ix x)" for x
    by (simp add: u ix_set_node plt)
  have len: "length (ix_heap ?ix) = length (ix_heap ix)" by (simp add: u)
  have sh: "node_key (ix_node ?ix x) = node_key (ix_node ix x)" "n_sequence_hash (ix_node ?ix x) = n_sequence_hash (ix_node ix x)"
    "n_parent_sequence_hash (ix_node ?ix x) = n_parent_sequence_hash (ix_node ix x)" "n_block_hash (ix_node ?ix x) = n_block_hash (ix_node ix x)" for x
    by (simp_all add: node node_key_def)
  have ch: "dict_get (n_children (ix_node ?ix x)) h = (if x = p \<and> h = n_block_hash ?n then None else dict_get (n_children (ix_node ix x)) h)" for x h
    by (simp add: node dict_simps)
  show by': "ix_by_seq ?ix = dict_del (k, s) (ix_by_seq ix)" and tr: "ix_trees ?ix = ix_trees ix" and "default_ttl_s ?ix = default_ttl_s ix"
    by (simp_all add: u)
  show "n_tiers (ix_node ?ix x) = n_tiers (ix_node ix x)" "node_residency (ix_node ?ix x) = node_residency (ix_node ix x)"
    "n_children (ix_node ix x) = [] \<Longrightarrow> n_children (ix_node ?ix x) = []" by (auto simp: node node_residency_def)
  have pa: "parent_addr ?ix x ps = (if x = k \<and> ps = Some s then None else parent_addr ix x ps)" for x ps
    by (cases ps) (simp_all add: by' tr dict_simps)
  show "ix_ok U ?ix"
  proof (rule ix_okI)
    show "dict_wf (ix_by_seq ?ix)" by (simp add: by' wf_intros ix_ok_wf [OF ok])
    show "q < length (ix_heap ?ix)" if "parent_addr ?ix x ps = Some q" for x ps q
      using that ix_ok_bound [OF ok, of x ps q] by (simp add: pa len split: if_splits)
    show "x = x' \<and> ps = ps'" if "parent_addr ?ix x ps = Some q" "parent_addr ?ix x' ps' = Some q" for x ps x' ps' q
      using that ix_ok_inj [OF ok, of x ps q x' ps'] by (simp add: pa split: if_splits)
    fix x t c assume c: "dict_get (ix_by_seq ?ix) (x, t) = Some c"
    have ne: "(x, t) \<noteq> (k, s)" and c: "dict_get (ix_by_seq ix) (x, t) = Some c" using c by (auto simp: by' dict_simps split: if_splits)
    then have "c \<noteq> a" using ix_ok_addr_inj [OF ok b] by blast
    show "node_key (ix_node ?ix c) \<in> U" "n_sequence_hash (ix_node ?ix c) = t" using ix_ok_key [OF ok c] ix_ok_seq [OF ok c] by (simp_all add: sh)
    obtain q where q: "parent_addr ix x (n_parent_sequence_hash (ix_node ix c)) = Some q" "dict_get (n_children (ix_node ix q)) (n_block_hash (ix_node ix c)) = Some c"
      using ix_ok_parent [OF ok c] by blast
    have "q \<noteq> a" using q(2) leaf by auto
    then have "parent_addr ?ix x (n_parent_sequence_hash (ix_node ?ix c)) = Some q" using q(1) b by (auto simp: pa sh)
    moreover have "dict_get (n_children (ix_node ?ix q)) (n_block_hash (ix_node ?ix c)) = Some c"
      using q(2) p(2) \<open>c \<noteq> a\<close> by (auto simp: ch sh)
    ultimately show "\<exists>q. parent_addr ?ix x (n_parent_sequence_hash (ix_node ?ix c)) = Some q \<and>
        dict_get (n_children (ix_node ?ix q)) (n_block_hash (ix_node ?ix c)) = Some c" by blast
  next
    fix x ps q h c assume q: "parent_addr ?ix x ps = Some q" and c: "dict_get (n_children (ix_node ?ix q)) h = Some c"
    have q': "parent_addr ix x ps = Some q" using q by (simp add: pa split: if_splits)
    have c': "dict_get (n_children (ix_node ix q)) h = Some c" "\<not> (q = p \<and> h = n_block_hash ?n)" using c by (auto simp: ch split: if_splits)
    obtain t where t: "dict_get (ix_by_seq ix) (x, t) = Some c" "n_parent_sequence_hash (ix_node ix c) = ps" "n_block_hash (ix_node ix c) = h"
      using ix_ok_child [OF ok q' c'(1)] by blast
    have "(x, t) \<noteq> (k, s)" using t b p(1) q' c'(2) by auto
    then show "\<exists>t. dict_get (ix_by_seq ?ix) (x, t) = Some c \<and> n_parent_sequence_hash (ix_node ?ix c) = ps \<and> n_block_hash (ix_node ?ix c) = h"
      using t by (auto simp: by' dict_simps sh)
  qed
qed

lemma table_of_unlink:
  assumes "ix_ok U ix" and "dict_get (ix_by_seq ix) (k, s) = Some a" and "is_dead (ix_node ix a)"
  shows "table_of (unlink_leaf ix k a) = table_of ix"
proof
  have leaf: "n_children (ix_node ix a) = []" "node_residency (ix_node ix a) = None"
    using assms(3) by (simp_all add: is_dead_def node_residency_def)
  fix y show "table_of (unlink_leaf ix k a) y = table_of ix y"
    using assms(2) leaf(2) by (auto simp: table_of_def unlink_leaf_ok [OF assms(1,2) leaf(1)] dict_simps split: option.split)
qed

text \<open>A publisher's nodes only exist below its root.\<close>

definition rooted :: "KVIndex \<Rightarrow> bool" where
  "rooted ix \<longleftrightarrow> (\<forall>k s. dict_get (ix_by_seq ix) (k, s) \<noteq> None \<longrightarrow> dict_get (ix_trees ix) k \<noteq> None)"

lemma rooted_mono:
  assumes "rooted ix" and "\<And>k. dict_get (ix_trees ix) k \<noteq> None \<Longrightarrow> dict_get (ix_trees ix') k \<noteq> None"
    and "\<And>k s. dict_get (ix_by_seq ix') (k, s) \<noteq> None \<Longrightarrow> dict_get (ix_by_seq ix) (k, s) \<noteq> None \<or> dict_get (ix_trees ix') k \<noteq> None"
  shows "rooted ix'"
  unfolding rooted_def using assms(1) [unfolded rooted_def] assms(2,3) by blast

lemma same_shape_rooted: "same_shape ix ix' \<Longrightarrow> rooted ix' = rooted ix"
  by (auto simp: rooted_def same_shapeD)

lemma dict_get_del_all: "dict_get (foldl (\<lambda>d k. dict_del k d) d ks) x = (if x \<in> set ks then None else dict_get d x)"
  by (induction ks arbitrary: d) (simp_all add: dict_simps)

lemma dict_wf_del_all: "dict_wf d \<Longrightarrow> dict_wf (foldl (\<lambda>d k. dict_del k d) d ks)"
  by (induction ks arbitrary: d) (simp_all add: wf_intros)

lemma drop_tree_ok:
  assumes ok: "ix_ok U ix" and r: "rooted ix"
  shows "ix_ok U (drop_tree_at ix k)" and "rooted (drop_tree_at ix k)"
    and "table_of (drop_tree_at ix k) = (\<lambda>x. if fst x = k then None else table_of ix x)"
    and "default_ttl_s (drop_tree_at ix k) = default_ttl_s ix"
proof -
  let ?ix = "drop_tree_at ix k"
  have by': "dict_get (ix_by_seq ?ix) x = (if fst x = k then None else dict_get (ix_by_seq ix) x)" for x
  proof (cases "dict_get (ix_trees ix) k")
    case None
    then have "dict_get (ix_by_seq ix) (k, snd x) = None" using r unfolding rooted_def by blast
    then show ?thesis using None by (cases x) (auto simp: drop_tree_at_def)
  next
    case (Some t)
    then have "dict_get (ix_by_seq ?ix) x = (if fst x = k \<and> x \<in> fst ` set (ix_by_seq ix) then None else dict_get (ix_by_seq ix) x)"
      by (simp add: drop_tree_at_def dict_get_del_all conj_commute)
    then show ?thesis by (simp add: dict_get_None_iff)
  qed
  have tr: "dict_get (ix_trees ?ix) x = (if x = k then None else dict_get (ix_trees ix) x)" for x
    by (simp add: drop_tree_at_def dict_simps)
  have heap: "ix_heap ?ix = ix_heap ix" and ttl: "default_ttl_s ?ix = default_ttl_s ix" by (simp_all add: drop_tree_at_def)
  have pa: "parent_addr ?ix x ps = (if x = k then None else parent_addr ix x ps)" for x ps
    by (cases ps) (simp_all add: by' tr)
  have wf: "dict_wf (ix_by_seq ?ix)" using ix_ok_wf [OF ok] dict_wf_del_all by (auto simp: drop_tree_at_def)
  show "ix_ok U ?ix"
  proof (rule ix_okI [OF wf])
    show "p < length (ix_heap ?ix)" if "parent_addr ?ix x ps = Some p" for x ps p
      using that ix_ok_bound [OF ok] by (simp add: pa heap split: if_splits)
    show "x = x' \<and> ps = ps'" if "parent_addr ?ix x ps = Some q" "parent_addr ?ix x' ps' = Some q" for x ps x' ps' q
      using that ix_ok_inj [OF ok, of x ps q x' ps'] by (simp add: pa split: if_splits)
    fix x s a assume b: "dict_get (ix_by_seq ?ix) (x, s) = Some a"
    have b: "x \<noteq> k" "dict_get (ix_by_seq ix) (x, s) = Some a" using b by (auto simp: by' split: if_splits)
    show "node_key (ix_node ?ix a) \<in> U" "n_sequence_hash (ix_node ?ix a) = s"
      using ix_ok_key [OF ok b(2)] ix_ok_seq [OF ok b(2)] by (simp_all add: heap)
    show "\<exists>p. parent_addr ?ix x (n_parent_sequence_hash (ix_node ?ix a)) = Some p \<and>
        dict_get (n_children (ix_node ?ix p)) (n_block_hash (ix_node ?ix a)) = Some a"
      using ix_ok_parent [OF ok b(2)] b(1) by (simp add: pa heap)
  next
    show "\<exists>s. dict_get (ix_by_seq ?ix) (x, s) = Some a \<and> n_parent_sequence_hash (ix_node ?ix a) = ps \<and> n_block_hash (ix_node ?ix a) = h"
      if "parent_addr ?ix x ps = Some p" "dict_get (n_children (ix_node ?ix p)) h = Some a" for x ps p h a
      using that ix_ok_child [OF ok, of x ps p h a] by (simp add: pa heap by' split: if_splits)
  qed
  show "rooted ?ix" using r by (simp add: rooted_def by' tr)
  show "table_of ?ix = (\<lambda>x. if fst x = k then None else table_of ix x)"
    by (simp add: fun_eq_iff table_of_def by' heap split_paired_All split: option.split)
  show "default_ttl_s ?ix = default_ttl_s ix" by (rule ttl)
qed

section \<open>The operations on the table\<close>

definition tiers_at :: "index_table \<Rightarrow> IndexKey \<times> int \<Rightarrow> Tier set" where
  "tiers_at T x = (case T x of None \<Rightarrow> {} | Some (ts, ac, op) \<Rightarrow> ts)"

definition table_stored :: "index_table \<Rightarrow> IndexKey \<Rightarrow> BlockKey \<Rightarrow> Tier \<Rightarrow> int \<Rightarrow> index_table" where
  "table_stored T k b t now = T((k, sequence_hash b) \<mapsto> (insert t (tiers_at T (k, sequence_hash b)), now, None))"

definition drop_mark :: "Tier \<Rightarrow> residency option \<Rightarrow> residency option" where
  "drop_mark t r = (case r of None \<Rightarrow> None | Some (ts, ac, op) \<Rightarrow> if ts - {t} = {} then None else Some (ts - {t}, ac, op))"

definition table_removed :: "index_table \<Rightarrow> IndexKey \<Rightarrow> int \<Rightarrow> Tier \<Rightarrow> index_table" where
  "table_removed T k s t = T((k, s) := drop_mark t (T (k, s)))"

definition table_cleared :: "index_table \<Rightarrow> string \<Rightarrow> string \<Rightarrow> index_table" where
  "table_cleared T pub scope =
     (\<lambda>x. if ik_publisher (fst x) \<noteq> pub then T x
          else if startswith scope ''tier:'' then
            (case Tier_of (removeprefix scope ''tier:'') of Inl _ \<Rightarrow> T x | Inr t \<Rightarrow> drop_mark t (T x))
          else if scope_drops scope (fst x) then None else T x)"

definition table_dropped :: "index_table \<Rightarrow> (IndexKey \<Rightarrow> bool) \<Rightarrow> index_table" where
  "table_dropped T P = (\<lambda>x. if P (fst x) then None else T x)"

text \<open>An assumed block does not weaken a confirmed one.\<close>

definition table_assumed :: "index_table \<Rightarrow> IndexKey \<Rightarrow> Tier \<Rightarrow> int \<Rightarrow> int \<Rightarrow> BlockKey \<Rightarrow> index_table" where
  "table_assumed T k t deadline now b =
     T((k, sequence_hash b) \<mapsto> (insert t (tiers_at T (k, sequence_hash b)), now,
          (case T (k, sequence_hash b) of Some (ts, ac, None) \<Rightarrow> None | _ \<Rightarrow> Some deadline)))"

definition table_touched :: "index_table \<Rightarrow> IndexKey \<Rightarrow> BlockKey list \<Rightarrow> int \<Rightarrow> index_table" where
  "table_touched T k bs now =
     (\<lambda>x. if fst x = k \<and> snd x \<in> sequence_hash ` set bs then map_option (\<lambda>(ts, ac, op). (ts, now, op)) (T x) else T x)"

definition residency_stale :: "int \<Rightarrow> int \<Rightarrow> residency \<Rightarrow> bool" where
  "residency_stale ttl_ms now r = (case r of (ts, ac, op) \<Rightarrow> (case op of Some d \<Rightarrow> d < now | None \<Rightarrow> now - ac > ttl_ms))"

definition table_evicted :: "int \<Rightarrow> int \<Rightarrow> index_table \<Rightarrow> index_table" where
  "table_evicted ttl_ms now T =
     (\<lambda>x. case T x of None \<Rightarrow> None | Some r \<Rightarrow> if residency_stale ttl_ms now r then None else Some r)"

section \<open>Each operation implements its effect on the table\<close>

text \<open>A well-formed index that stands for the table \<open>T\<close>.\<close>

definition implements :: "BlockKey set \<Rightarrow> KVIndex \<Rightarrow> index_table \<Rightarrow> bool" where
  "implements U ix T \<longleftrightarrow> ix_ok U ix \<and> rooted ix \<and> table_of ix = T"

lemma implementsD:
  assumes "implements U ix T"
  shows "ix_ok U ix" "rooted ix" "table_of ix = T"
  using assms by (simp_all add: implements_def)

lemma make_index_implements: "implements U (make_index ttl) (\<lambda>_. None)"
  using make_index_ok [of U ttl] by (simp add: implements_def rooted_def make_index_def table_of_def fun_eq_iff)

lemma resident_indexed: "table_of ix x \<noteq> None \<Longrightarrow> dict_get (ix_by_seq ix) x \<noteq> None"
  by (simp add: table_of_def split: option.splits)

text \<open>The parent of a block is indexed when it is resident, or when the block has none.\<close>

definition has_parent :: "index_table \<Rightarrow> IndexKey \<Rightarrow> BlockKey \<Rightarrow> bool" where
  "has_parent T k b \<longleftrightarrow> (case parent_sequence_hash b of None \<Rightarrow> True | Some s \<Rightarrow> T (k, s) \<noteq> None)"

lemma has_parent_addr:
  assumes "has_parent (table_of ix) k b" and "dict_get (ix_trees ix) k = Some rt"
  obtains p where "parent_addr ix k (parent_sequence_hash b) = Some p"
proof (cases "parent_sequence_hash b")
  case (Some s)
  then have "dict_get (ix_by_seq ix) (k, s) \<noteq> None" using assms(1) resident_indexed by (simp add: has_parent_def)
  then show ?thesis using that Some by auto
qed (use that assms(2) in simp)

lemma upsert_by_seq:
  "upsert_node ix rt k b now = (a, ix') \<Longrightarrow> x \<noteq> (k, sequence_hash b) \<Longrightarrow> dict_get (ix_by_seq ix') x = dict_get (ix_by_seq ix) x"
  by (auto simp: upsert_node_def Let_def ix_new_def dict_simps split: option.splits)

lemma upsert_implements:
  assumes i: "implements U ix T" and U: "link_ok U" "b \<in> U" and rt: "dict_get (ix_trees ix) k = Some rt"
    and p: "has_parent T k b" and e: "upsert_node ix rt k b now = (a, ix')" and f: "shape_keeping f"
    and r: "\<And>n. n_tiers n = tiers_at T (k, sequence_hash b) \<Longrightarrow> node_residency (f n) = R n"
  shows "implements U (ix_set ix' a f) (T((k, sequence_hash b) := R (ix_node ix' a)))"
    and "dict_get (ix_trees (ix_set ix' a f)) k = Some rt" and "default_ttl_s (ix_set ix' a f) = default_ttl_s ix"
proof -
  note I = implementsD [OF i]
  obtain q where q: "parent_addr ix k (parent_sequence_hash b) = Some q" using has_parent_addr p rt I(3) by metis
  note u = upsert_node_ok [OF I(1) U rt q e]
  have t: "n_tiers (ix_node ix' a) = tiers_at T (k, sequence_hash b)" using u I(3) by (simp add: tiers_at_def)
  have ok: "ix_ok U ix'" and b: "dict_get (ix_by_seq ix') (k, sequence_hash b) = Some a" using u by blast+
  have "table_of (ix_set ix' a f) = T((k, sequence_hash b) := R (ix_node ix' a))"
    using table_of_set [OF ok b, of f] u I(3) by (simp add: r [OF t])
  moreover have "rooted ix'"
  proof (rule rooted_mono [OF I(2)])
    show "dict_get (ix_by_seq ix) (x, s) \<noteq> None \<or> dict_get (ix_trees ix') x \<noteq> None" if "dict_get (ix_by_seq ix') (x, s) \<noteq> None" for x s
      using that u rt upsert_by_seq [OF e, of "(x, s)"] by (cases "(x, s) = (k, sequence_hash b)") auto
  qed (use u in simp)
  ultimately show "implements U (ix_set ix' a f) (T((k, sequence_hash b) := R (ix_node ix' a)))"
    using ok same_shape_ok [OF ix_set_shape [OF f]] same_shape_rooted [OF ix_set_shape [OF f]] by (simp add: implements_def)
  show "dict_get (ix_trees (ix_set ix' a f)) k = Some rt" "default_ttl_s (ix_set ix' a f) = default_ttl_s ix" using u rt by simp_all
qed

lemma ensure_root_implements:
  assumes "implements U ix T" and "ensure_root ix k = (rt, ix')"
  shows "implements U ix' T" and "dict_get (ix_trees ix') k = Some rt" and "default_ttl_s ix' = default_ttl_s ix"
proof -
  note I = implementsD [OF assms(1)] and E = ensure_root_ok [OF implementsD(1) [OF assms(1)] assms(2)]
  have "rooted ix'"
    by (rule rooted_mono [OF I(2)]) (use assms(2) in \<open>auto simp: ensure_root_def ix_new_def dict_simps split: option.splits\<close>)
  then show "implements U ix' T" using E(1,3) I(3) by (simp add: implements_def)
  show "dict_get (ix_trees ix') k = Some rt" "default_ttl_s ix' = default_ttl_s ix" by (rule E(2), rule E(5))
qed

lemma apply_stored_implements:
  assumes "implements U ix T" and "link_ok U" "b \<in> U" and "has_parent T k b"
  shows "implements U (apply_stored ix k b t now) (table_stored T k b t now)" and "default_ttl_s (apply_stored ix k b t now) = default_ttl_s ix"
proof -
  let ?f = "\<lambda>n. n\<lparr>n_tiers := insert t (n_tiers n), n_optimistic_until_ms := None, n_last_access_ts_ms := now\<rparr>"
  obtain rt ix1 where e: "ensure_root ix k = (rt, ix1)" by (cases "ensure_root ix k")
  obtain a ix2 where u: "upsert_node ix1 rt k b now = (a, ix2)" by (cases "upsert_node ix1 rt k b now")
  note E = ensure_root_implements [OF assms(1) e]
  have r: "node_residency (?f n) = Some (insert t (tiers_at T (k, sequence_hash b)), now, None)"
    if "n_tiers n = tiers_at T (k, sequence_hash b)" for n using that by (simp add: node_residency_def)
  note S = upsert_implements [OF E(1) assms(2,3) E(2) assms(4) u shape_keeping_payload(3) r]
  show "implements U (apply_stored ix k b t now) (table_stored T k b t now)" "default_ttl_s (apply_stored ix k b t now) = default_ttl_s ix"
    using S(1,3) E(3) by (simp_all add: apply_stored_def e u table_stored_def)
qed

lemma set_implements:
  assumes "implements U ix T" and "dict_get (ix_by_seq ix) x = Some a" and "shape_keeping f"
  shows "implements U (ix_set ix a f) (T(x := node_residency (f (ix_node ix a))))"
  using implementsD [OF assms(1)] table_of_set [of U ix x a f] assms(2) same_shape_ok [OF ix_set_shape [OF assms(3)]]
    same_shape_rooted [OF ix_set_shape [OF assms(3)]] by (simp add: implements_def)

lemma unlink_implements:
  assumes "implements U ix T" and "dict_get (ix_by_seq ix) (k, s) = Some a" and "is_dead (ix_node ix a)"
  shows "implements U (unlink_leaf ix k a) T"
proof -
  note I = implementsD [OF assms(1)]
  have leaf: "n_children (ix_node ix a) = []" using assms(3) by (simp add: is_dead_def)
  note u = unlink_leaf_ok [OF I(1) assms(2) leaf]
  have "rooted (unlink_leaf ix k a)" by (rule rooted_mono [OF I(2)]) (auto simp: u dict_simps split: if_splits)
  then show ?thesis using u(1) table_of_unlink [OF I(1) assms(2,3)] I(3) by (simp add: implements_def)
qed

lemma residency_strip:
  assumes "table_of ix x = T x" and "dict_get (ix_by_seq ix) x = Some a"
  shows "node_residency ((ix_node ix a)\<lparr>n_tiers := n_tiers (ix_node ix a) - {t}\<rparr>) = drop_mark t (T x)"
  using assms(2) unfolding assms(1) [symmetric] by (auto simp: table_of_def drop_mark_def node_residency_def)

lemma apply_removed_implements:
  assumes "implements U ix T"
  shows "implements U (apply_removed ix k s t) (table_removed T k s t)" and "default_ttl_s (apply_removed ix k s t) = default_ttl_s ix"
proof -
  note I = implementsD [OF assms(1)]
  have "implements U (apply_removed ix k s t) (table_removed T k s t) \<and> default_ttl_s (apply_removed ix k s t) = default_ttl_s ix"
  proof (cases "dict_get (ix_by_seq ix) (k, s)")
    case None
    then have "T (k, s) = None" using I(3) by (auto simp: table_of_def)
    then show ?thesis using None assms by (simp add: apply_removed_def table_removed_def drop_mark_def fun_upd_idem)
  next
    case (Some a)
    let ?ix = "ix_set ix a (\<lambda>n. n\<lparr>n_tiers := n_tiers n - {t}\<rparr>)"
    have r: "node_residency ((ix_node ix a)\<lparr>n_tiers := n_tiers (ix_node ix a) - {t}\<rparr>) = drop_mark t (T (k, s))"
      by (rule residency_strip [OF _ Some]) (simp add: I(3))
    have i: "implements U ?ix (table_removed T k s t)"
      using set_implements [OF assms(1) Some shape_keeping_payload(2) [of "\<lambda>n. n_tiers n - {t}"]] r by (simp add: table_removed_def)
    have b: "dict_get (ix_by_seq ?ix) (k, s) = Some a" using Some by simp
    show ?thesis
    proof (cases "is_dead (ix_node ?ix a)")
      case True
      then have "n_children (ix_node ?ix a) = []" by (simp add: is_dead_def)
      then show ?thesis using True Some unlink_implements [OF i b True] unlink_leaf_ok(4) [OF implementsD(1) [OF i] b]
        by (simp add: apply_removed_def)
    qed (use i Some in \<open>simp add: apply_removed_def\<close>)
  qed
  then show "implements U (apply_removed ix k s t) (table_removed T k s t)" "default_ttl_s (apply_removed ix k s t) = default_ttl_s ix"
    by simp_all
qed

text \<open>A chain that is assumed to be there: the parent of a block may come earlier in the chain.\<close>

fun chain_ready :: "(IndexKey \<times> int) set \<Rightarrow> IndexKey \<Rightarrow> BlockKey list \<Rightarrow> bool" where
  "chain_ready D k [] = True"
| "chain_ready D k (b # bs) =
     ((case parent_sequence_hash b of None \<Rightarrow> True | Some s \<Rightarrow> (k, s) \<in> D) \<and> chain_ready (insert (k, sequence_hash b) D) k bs)"

lemma dom_table_assumed: "dom (table_assumed T k t d now b) = insert (k, sequence_hash b) (dom T)"
  by (auto simp: table_assumed_def dom_def)

lemma record_chain_implements:
  assumes "implements U ix T" and "link_ok U" and "set bs \<subseteq> U" and "dict_get (ix_trees ix) k = Some rt" and "chain_ready (dom T) k bs"
  shows "implements U (record_chain rt k t d now ix bs) (foldl (\<lambda>T. table_assumed T k t d now) T bs) \<and>
    default_ttl_s (record_chain rt k t d now ix bs) = default_ttl_s ix"
  using assms
proof (induction bs arbitrary: ix T)
  case (Cons b bs)
  let ?x = "(k, sequence_hash b)"
  define c where "c \<longleftrightarrow> (case dict_get (ix_by_seq ix) ?x of None \<Rightarrow> False
      | Some e \<Rightarrow> \<not> is_optimistic (ix_node ix e) \<and> n_tiers (ix_node ix e) \<noteq> {})"
  let ?f = "\<lambda>n. n\<lparr>n_tiers := insert t (n_tiers n), n_last_access_ts_ms := now,
      n_optimistic_until_ms := if c then n_optimistic_until_ms n else Some d\<rparr>"
  note I = implementsD [OF Cons.prems(1)]
  obtain a ix1 where u: "upsert_node ix rt k b now = (a, ix1)" by (cases "upsert_node ix rt k b now")
  have hp: "has_parent T k b" using Cons.prems(5) by (auto simp: has_parent_def dom_def split: option.splits)
  have U: "b \<in> U" using Cons.prems(3) by simp
  have r: "node_residency (?f n) = Some (insert t (tiers_at T ?x), now, if c then n_optimistic_until_ms n else Some d)"
    if "n_tiers n = tiers_at T ?x" for n using that by (simp add: node_residency_def)
  note S = upsert_implements [OF Cons.prems(1,2) U Cons.prems(4) hp u shape_keeping_payload(4) r]
  have cT: "c = (\<exists>ts ac. T ?x = Some (ts, ac, None))"
    by (auto simp: c_def I(3) [symmetric] table_of_def node_residency_def is_optimistic_def split: option.splits)
  have kept: "n_optimistic_until_ms (ix_node ix1 a) = None" if "c"
  proof -
    have "\<exists>e. dict_get (ix_by_seq ix) ?x = Some e \<and> n_optimistic_until_ms (ix_node ix e) = None"
      using that by (cases "dict_get (ix_by_seq ix) ?x") (simp_all add: c_def is_optimistic_def)
    then obtain e where e: "dict_get (ix_by_seq ix) ?x = Some e" "n_optimistic_until_ms (ix_node ix e) = None" by blast
    obtain q where q: "parent_addr ix k (parent_sequence_hash b) = Some q" using has_parent_addr hp Cons.prems(4) I(3) by metis
    have ch: "dict_get (n_children (ix_node ix q)) (block_hash b) = Some e" using indexed_child [OF I(1) Cons.prems(2) U q] e(1) by simp
    have "a = e" "ix1 = ix_set ix e (\<lambda>n. n\<lparr>n_last_access_ts_ms := now\<rparr>)"
      using u by (auto simp: upsert_node_def attach_point_parent [OF Cons.prems(4) q] ch)
    then show ?thesis using e(2) by (simp add: ix_set_node)
  qed
  have "table_assumed T k t d now b = T(?x \<mapsto> (insert t (tiers_at T ?x), now, if c then n_optimistic_until_ms (ix_node ix1 a) else Some d))"
    using kept cT by (auto simp: table_assumed_def split: option.splits)
  then have i: "implements U (ix_set ix1 a ?f) (table_assumed T k t d now b)" using S(1) by simp
  have "chain_ready (dom (table_assumed T k t d now b)) k bs" using Cons.prems(5) by (simp add: dom_table_assumed)
  from Cons.IH [OF i Cons.prems(2) _ S(2) this] Cons.prems(3) S(3) show ?case
    by (simp add: u c_def Let_def)
qed simp

lemma optimistic_implements:
  assumes "implements U ix T" and "link_ok U" and "set bs \<subseteq> U" and "chain_ready (dom T) k bs"
  shows "implements U (optimistically_record ix k bs t ttl now) (foldl (\<lambda>T. table_assumed T k t (now + py_trunc (ttl * 1000)) now) T bs)"
    and "default_ttl_s (optimistically_record ix k bs t ttl now) = default_ttl_s ix"
proof -
  obtain rt ix1 where e: "ensure_root ix k = (rt, ix1)" by (cases "ensure_root ix k")
  note E = ensure_root_implements [OF assms(1) e]
  show "implements U (optimistically_record ix k bs t ttl now) (foldl (\<lambda>T. table_assumed T k t (now + py_trunc (ttl * 1000)) now) T bs)"
    "default_ttl_s (optimistically_record ix k bs t ttl now) = default_ttl_s ix"
    using record_chain_implements [OF E(1) assms(2,3) E(2) assms(4)] E(3) by (simp_all add: optimistically_record_def e)
qed

subsection \<open>Clearing\<close>

lemma strip_marks_implements:
  assumes "implements U ix T" and "set items \<subseteq> set (ix_by_seq ix)" and "distinct (map fst items)"
    and "strip_marks k t ix items = (us, ix')"
  shows "implements U ix' (\<lambda>x. if fst x = k \<and> x \<in> fst ` set items then drop_mark t (T x) else T x) \<and> same_shape ix ix' \<and>
    distinct us \<and> (\<forall>a \<in> set us. \<exists>s. ((k, s), a) \<in> set items \<and> is_dead (ix_node ix' a)) \<and>
    (\<forall>x a. dict_get (ix_by_seq ix) x = Some a \<longrightarrow> x \<notin> fst ` set items \<longrightarrow> ix_node ix' a = ix_node ix a)"
  using assms
proof (induction k t ix items arbitrary: T us ix' rule: strip_marks.induct)
  case (1 k t ix)
  then show ?case by simp
next
  case (2 k t ix ik s a items)
  show ?case
  proof (cases "ik = k")
    case False
    then have "strip_marks k t ix items = (us, ix')" using 2(6) by simp
    from 2(1) [OF False 2(3) _ _ this] 2(4,5)
    have IH: "implements U ix' (\<lambda>x. if fst x = k \<and> x \<in> fst ` set items then drop_mark t (T x) else T x)" "same_shape ix ix'" "distinct us"
      "\<forall>a \<in> set us. \<exists>s. ((k, s), a) \<in> set items \<and> is_dead (ix_node ix' a)"
      "\<forall>x a. dict_get (ix_by_seq ix) x = Some a \<longrightarrow> x \<notin> fst ` set items \<longrightarrow> ix_node ix' a = ix_node ix a" by simp_all
    have eq: "(\<lambda>x. if fst x = k \<and> x \<in> fst ` set (((ik, s), a) # items) then drop_mark t (T x) else T x) =
        (\<lambda>x. if fst x = k \<and> x \<in> fst ` set items then drop_mark t (T x) else T x)" using False by (auto simp: fun_eq_iff)
    show ?thesis unfolding eq using IH by (intro conjI) (blast | simp)+
  next
    case True
    let ?ix = "ix_set ix a (\<lambda>n. n\<lparr>n_tiers := n_tiers n - {t}\<rparr>)"
    note I = implementsD [OF 2(3)]
    obtain vs where v: "strip_marks k t ?ix items = (vs, ix')" and us: "us = (if is_dead (ix_node ?ix a) then a # vs else vs)"
      using 2(6) True by (auto simp: Let_def split: prod.splits)
    have mem: "((k, s), a) \<in> set (ix_by_seq ix)" using 2(4) True by simp
    have b: "dict_get (ix_by_seq ix) (k, s) = Some a" using map_of_is_SomeI [OF ix_ok_wf [OF I(1)] mem] .
    have r: "node_residency ((ix_node ix a)\<lparr>n_tiers := n_tiers (ix_node ix a) - {t}\<rparr>) = drop_mark t (T (k, s))"
      by (rule residency_strip [OF _ b]) (simp add: I(3))
    have i: "implements U ?ix (T((k, s) := drop_mark t (T (k, s))))"
      using set_implements [OF 2(3) b shape_keeping_payload(2) [of "\<lambda>n. n_tiers n - {t}"]] r by simp
    have "set items \<subseteq> set (ix_by_seq ?ix)" "distinct (map fst items)" and new: "(k, s) \<notin> fst ` set items"
      using 2(4,5) True by auto
    from 2(2) [OF _ refl i this(1,2) v] True
    have IH: "implements U ix' (\<lambda>x. if fst x = k \<and> x \<in> fst ` set items then drop_mark t ((T((k, s) := drop_mark t (T (k, s)))) x)
          else (T((k, s) := drop_mark t (T (k, s)))) x)" "same_shape ?ix ix'" "distinct vs"
      "\<forall>c \<in> set vs. \<exists>s. ((k, s), c) \<in> set items \<and> is_dead (ix_node ix' c)"
      "\<forall>x c. dict_get (ix_by_seq ?ix) x = Some c \<longrightarrow> x \<notin> fst ` set items \<longrightarrow> ix_node ix' c = ix_node ?ix c" by blast+
    have eq: "(\<lambda>x. if fst x = k \<and> x \<in> fst ` set items then drop_mark t ((T((k, s) := drop_mark t (T (k, s)))) x)
          else (T((k, s) := drop_mark t (T (k, s)))) x) =
        (\<lambda>x. if fst x = k \<and> x \<in> fst ` set (((ik, s), a) # items) then drop_mark t (T x) else T x)"
      using new True by (auto simp: fun_eq_iff)
    have same: "ix_node ix' a = ix_node ?ix a" using IH(5) b new by simp
    have fresh: "a \<notin> set vs"
    proof
      assume "a \<in> set vs"
      then obtain u where u: "((k, u), a) \<in> set items" using IH(4) by blast
      then have "((k, u), a) \<in> set (ix_by_seq ix)" using 2(4) by auto
      from map_of_is_SomeI [OF ix_ok_wf [OF I(1)] this] have "u = s" using ix_ok_addr_inj [OF I(1) b] by blast
      then show False using u new by force
    qed
    have other: "ix_node ix' c = ix_node ix c" if "dict_get (ix_by_seq ix) x = Some c" "x \<notin> fst ` set (((ik, s), a) # items)" for x c
    proof -
      have "c \<noteq> a" using that True ix_ok_addr_inj [OF I(1) b, of x] by auto
      then show ?thesis using IH(5) that by (simp add: ix_set_node)
    qed
    have "\<forall>c \<in> set us. \<exists>s'. ((k, s'), c) \<in> set (((ik, s), a) # items) \<and> is_dead (ix_node ix' c)"
      using IH(4) us same True by (auto split: if_splits)
    moreover have "distinct us" using IH(3) fresh us by simp
    moreover have "same_shape ix ix'" using same_shape_trans [OF ix_set_shape [OF shape_keeping_payload(2)] IH(2)] .
    ultimately show ?thesis using IH(1) [unfolded eq] other by blast
  qed
qed

lemma unlink_all_implements:
  assumes "implements U ix T" and "distinct us" and "\<forall>a \<in> set us. \<exists>s. dict_get (ix_by_seq ix) (k, s) = Some a \<and> is_dead (ix_node ix a)"
  shows "implements U (foldl (\<lambda>ix a. unlink_leaf ix k a) ix us) T \<and>
    default_ttl_s (foldl (\<lambda>ix a. unlink_leaf ix k a) ix us) = default_ttl_s ix \<and>
    ix_trees (foldl (\<lambda>ix a. unlink_leaf ix k a) ix us) = ix_trees ix"
  using assms
proof (induction us arbitrary: ix)
  case (Cons a us)
  obtain s where s: "dict_get (ix_by_seq ix) (k, s) = Some a" "is_dead (ix_node ix a)" using Cons.prems(3) by auto
  have leaf: "n_children (ix_node ix a) = []" using s(2) by (simp add: is_dead_def)
  note u = unlink_leaf_ok [OF implementsD(1) [OF Cons.prems(1)] s(1) leaf]
  have "\<exists>s'. dict_get (ix_by_seq (unlink_leaf ix k a)) (k, s') = Some c \<and> is_dead (ix_node (unlink_leaf ix k a) c)" if cu: "c \<in> set us" for c
  proof -
    obtain s' where s': "dict_get (ix_by_seq ix) (k, s') = Some c" "is_dead (ix_node ix c)" using Cons.prems(3) cu by (meson list.set_intros(2))
    moreover have "c \<noteq> a" using cu Cons.prems(2) by auto
    ultimately show ?thesis using s(1) u(5,7) by (intro exI [of _ s']) (auto simp: u(2) dict_simps is_dead_def)
  qed
  then show ?case using Cons.IH [OF unlink_implements [OF Cons.prems(1) s]] Cons.prems(2) u(3,4) by simp
qed simp

lemma strip_tier_implements:
  assumes "implements U ix T"
  shows "implements U (strip_tier ix k t) (\<lambda>x. if fst x = k then drop_mark t (T x) else T x)"
    and "default_ttl_s (strip_tier ix k t) = default_ttl_s ix" and "ix_trees (strip_tier ix k t) = ix_trees ix"
proof -
  note I = implementsD [OF assms]
  obtain us ix1 where m: "strip_marks k t ix (ix_by_seq ix) = (us, ix1)" by (cases "strip_marks k t ix (ix_by_seq ix)")
  note M = strip_marks_implements [OF assms subset_refl ix_ok_wf [OF I(1)] m]
  have "T x = None" if "x \<notin> fst ` set (ix_by_seq ix)" for x
    using that I(3) by (auto simp: table_of_def dict_get_None_iff [symmetric])
  then have eq: "(\<lambda>x. if fst x = k \<and> x \<in> fst ` set (ix_by_seq ix) then drop_mark t (T x) else T x) =
      (\<lambda>x. if fst x = k then drop_mark t (T x) else T x)" by (auto simp: fun_eq_iff drop_mark_def)
  have i: "implements U ix1 (\<lambda>x. if fst x = k then drop_mark t (T x) else T x)" and sh: "same_shape ix ix1"
    and d: "distinct us" using M unfolding eq by blast+
  have "\<forall>a \<in> set us. \<exists>s. dict_get (ix_by_seq ix1) (k, s) = Some a \<and> is_dead (ix_node ix1 a)"
  proof
    fix a assume "a \<in> set us"
    then obtain s where s: "((k, s), a) \<in> set (ix_by_seq ix)" "is_dead (ix_node ix1 a)" using M by blast
    have "dict_get (ix_by_seq ix1) (k, s) = Some a"
      unfolding same_shapeD(2) [OF sh] by (rule map_of_is_SomeI [OF ix_ok_wf [OF I(1)] s(1)])
    then show "\<exists>s. dict_get (ix_by_seq ix1) (k, s) = Some a \<and> is_dead (ix_node ix1 a)" using s(2) by blast
  qed
  note u = unlink_all_implements [OF i d this]
  have st: "strip_tier ix k t = foldl (\<lambda>ix a. unlink_leaf ix k a) ix1 us" by (simp add: strip_tier_def m)
  show "implements U (strip_tier ix k t) (\<lambda>x. if fst x = k then drop_mark t (T x) else T x)"
    unfolding st by (rule u [THEN conjunct1])
  show "default_ttl_s (strip_tier ix k t) = default_ttl_s ix" "ix_trees (strip_tier ix k t) = ix_trees ix"
    unfolding st u [THEN conjunct2, THEN conjunct1] u [THEN conjunct2, THEN conjunct2] by (rule same_shapeD [OF sh])+
qed

lemma drop_mark_idem: "drop_mark t (drop_mark t r) = drop_mark t r"
  by (auto simp: drop_mark_def split: option.splits if_splits)

lemma strip_all_implements:
  assumes "implements U ix T"
  shows "implements U (foldl (\<lambda>ix k. strip_tier ix k t) ix ks) (\<lambda>x. if fst x \<in> set ks then drop_mark t (T x) else T x)"
    and "default_ttl_s (foldl (\<lambda>ix k. strip_tier ix k t) ix ks) = default_ttl_s ix"
  using assms
proof (induction ks arbitrary: ix T)
  case (Cons k ks)
  {
    case 1
    have "(\<lambda>x. if fst x \<in> set ks then drop_mark t (if fst x = k then drop_mark t (T x) else T x) else (if fst x = k then drop_mark t (T x) else T x)) =
        (\<lambda>x. if fst x \<in> set (k # ks) then drop_mark t (T x) else T x)" by (rule ext) (simp add: drop_mark_idem)
    then show ?case using Cons.IH(1) [OF strip_tier_implements(1) [OF 1, of k t]] by simp
  next
    case 2
    show ?case using Cons.IH(2) [OF strip_tier_implements(1) [OF 2, of k t]] strip_tier_implements(2) [OF 2] by simp
  }
qed simp_all

lemma drop_all_implements:
  assumes "implements U ix T"
  shows "implements U (foldl drop_tree_at ix ks) (table_dropped T (\<lambda>k. k \<in> set ks))" and "default_ttl_s (foldl drop_tree_at ix ks) = default_ttl_s ix"
  using assms
proof (induction ks arbitrary: ix T)
  case (Cons k ks)
  {
    case 1
    note D = drop_tree_ok [OF implementsD(1,2) [OF 1], of k]
    have i: "implements U (drop_tree_at ix k) (table_dropped T (\<lambda>x. x = k))"
      unfolding implements_def table_dropped_def using D(1-3) unfolding implementsD(3) [OF 1] by blast
    have "table_dropped (table_dropped T (\<lambda>x. x = k)) (\<lambda>x. x \<in> set ks) = table_dropped T (\<lambda>x. x \<in> set (k # ks))"
      unfolding table_dropped_def by (rule ext) simp
    then show ?case using Cons.IH(1) [OF i] by simp
  next
    case 2
    note D = drop_tree_ok [OF implementsD(1,2) [OF 2], of k]
    have "implements U (drop_tree_at ix k) (table_of (drop_tree_at ix k))" using D(1,2) by (simp add: implements_def)
    from Cons.IH(2) [OF this] D(4) show ?case by simp
  }
qed (simp_all add: table_dropped_def)

lemma untreed_empty:
  assumes "implements U ix T" and "k \<notin> set (map fst (ix_trees ix))"
  shows "T (k, s) = None"
proof -
  have "dict_get (ix_trees ix) k = None" using assms(2) by (simp add: dict_get_None_iff)
  then have "dict_get (ix_by_seq ix) (k, s) = None" using implementsD(2) [OF assms(1)] unfolding rooted_def by blast
  then show ?thesis using fun_cong [OF implementsD(3) [OF assms(1)], of "(k, s)"] by (simp add: table_of_def)
qed

lemma apply_cleared_implements:
  assumes "implements U ix T"
  shows "implements U (apply_cleared ix pub scope) (table_cleared T pub scope)"
    and "default_ttl_s (apply_cleared ix pub scope) = default_ttl_s ix"
proof -
  define mine where "mine = filter (\<lambda>ik. ik_publisher ik = pub) (map fst (ix_trees ix))"
  have mem: "T x = None" if "ik_publisher (fst x) = pub" "fst x \<notin> set mine" for x
    using untreed_empty [OF assms, of "fst x" "snd x"] that by (auto simp: mine_def)
  have pub: "ik_publisher k = pub" if "k \<in> set mine" for k using that by (simp add: mine_def)
  have "implements U (apply_cleared ix pub scope) (table_cleared T pub scope) \<and> default_ttl_s (apply_cleared ix pub scope) = default_ttl_s ix"
  proof (cases "startswith scope ''tier:''")
    case True
    show ?thesis
    proof (cases "Tier_of (removeprefix scope ''tier:'')")
      case (Inl e)
      have "table_cleared T pub scope = T" by (rule ext) (simp add: table_cleared_def True Inl)
      then show ?thesis using assms True Inl by (simp add: apply_cleared_def)
    next
      case (Inr t)
      have "table_cleared T pub scope = (\<lambda>x. if fst x \<in> set mine then drop_mark t (T x) else T x)"
      proof
        fix x show "table_cleared T pub scope x = (if fst x \<in> set mine then drop_mark t (T x) else T x)"
          using mem [of x] pub [of "fst x"] by (simp add: table_cleared_def True Inr drop_mark_def)
      qed
      moreover have "apply_cleared ix pub scope = foldl (\<lambda>ix ik. strip_tier ix ik t) ix mine"
        by (simp add: apply_cleared_def True Inr mine_def)
      ultimately show ?thesis using strip_all_implements [OF assms, of t mine] by simp
    qed
  next
    case False
    have "table_cleared T pub scope = table_dropped T (\<lambda>k. k \<in> set (filter (scope_drops scope) mine))"
    proof
      fix x show "table_cleared T pub scope x = table_dropped T (\<lambda>k. k \<in> set (filter (scope_drops scope) mine)) x"
        using mem [of x] pub [of "fst x"] by (simp add: table_cleared_def False table_dropped_def)
    qed
    moreover have "apply_cleared ix pub scope = foldl drop_tree_at ix (filter (scope_drops scope) mine)"
      by (simp add: apply_cleared_def False mine_def)
    ultimately show ?thesis using drop_all_implements [OF assms, of "filter (scope_drops scope) mine"] by simp
  qed
  then show "implements U (apply_cleared ix pub scope) (table_cleared T pub scope)" "default_ttl_s (apply_cleared ix pub scope) = default_ttl_s ix"
    by simp_all
qed

lemma drop_publisher_implements:
  assumes "implements U ix T"
  shows "implements U (drop_publisher ix pub) (table_dropped T (\<lambda>k. ik_publisher k = pub))" and "default_ttl_s (drop_publisher ix pub) = default_ttl_s ix"
proof -
  let ?mine = "filter (\<lambda>ik. ik_publisher ik = pub) (map fst (ix_trees ix))"
  have "table_dropped T (\<lambda>k. ik_publisher k = pub) = table_dropped T (\<lambda>k. k \<in> set ?mine)"
  proof
    fix x show "table_dropped T (\<lambda>k. ik_publisher k = pub) x = table_dropped T (\<lambda>k. k \<in> set ?mine) x"
      using untreed_empty [OF assms, of "fst x" "snd x"] by (auto simp: table_dropped_def)
  qed
  then show "implements U (drop_publisher ix pub) (table_dropped T (\<lambda>k. ik_publisher k = pub))" "default_ttl_s (drop_publisher ix pub) = default_ttl_s ix"
    using drop_all_implements [OF assms, of ?mine] by (simp_all add: drop_publisher_def)
qed

lemma drop_tree_implements:
  assumes "implements U ix T"
  shows "implements U (drop_tree_at ix k) (table_dropped T (\<lambda>x. x = k))" and "default_ttl_s (drop_tree_at ix k) = default_ttl_s ix"
  using drop_all_implements [OF assms, of "[k]"] by simp_all

subsection \<open>Queries\<close>

text \<open>A chain as the hasher builds it, below the block with sequence hash \<open>ps\<close>.\<close>

fun linked_from :: "int option \<Rightarrow> BlockKey list \<Rightarrow> bool" where
  "linked_from ps [] = True"
| "linked_from ps (b # bs) = (parent_sequence_hash b = ps \<and> linked_from (Some (sequence_hash b)) bs)"

definition tier_count :: "index_table \<Rightarrow> IndexKey \<Rightarrow> BlockKey list \<Rightarrow> Tier \<Rightarrow> nat" where
  "tier_count T k bs t = length (filter (\<lambda>b. t \<in> tiers_at T (k, sequence_hash b)) bs)"

definition table_overlap :: "index_table \<Rightarrow> IndexKey \<Rightarrow> BlockKey list \<Rightarrow> OverlapBlocks" where
  "table_overlap T k bs = \<lparr>device = tier_count T k bs DEVICE, host = tier_count T k bs HOST,
     disk = tier_count T k bs DISK, fabric = tier_count T k bs FABRIC\<rparr>"

definition add_overlap :: "OverlapBlocks \<Rightarrow> OverlapBlocks \<Rightarrow> OverlapBlocks" where
  "add_overlap v w = \<lparr>device = device v + device w, host = host v + host w, disk = disk v + disk w, fabric = fabric v + fabric w\<rparr>"

lemma tier_count_simps [simp]:
  "tier_count T k [] t = 0"
  "tier_count T k (b # bs) t = (if t \<in> tiers_at T (k, sequence_hash b) then 1 else 0) + tier_count T k bs t"
  by (simp_all add: tier_count_def)

text \<open>Below a block that is not indexed nothing is.\<close>

lemma absent_below:
  assumes ok: "ix_ok U ix" and "link_ok U" and "set bs \<subseteq> U" and "dict_get (ix_by_seq ix) (k, s) = None" and "linked_from (Some s) bs"
  shows "\<forall>b \<in> set bs. dict_get (ix_by_seq ix) (k, sequence_hash b) = None"
  using assms(3-5)
proof (induction bs arbitrary: s)
  case (Cons b bs)
  have "dict_get (ix_by_seq ix) (k, sequence_hash b) = None"
  proof (rule ccontr)
    assume "dict_get (ix_by_seq ix) (k, sequence_hash b) \<noteq> None"
    then obtain a where a: "dict_get (ix_by_seq ix) (k, sequence_hash b) = Some a" by auto
    have "parent_sequence_hash b = n_parent_sequence_hash (ix_node ix a)"
      using link_okD [OF assms(2) _ ix_ok_key [OF ok a], of b] ix_ok_seq [OF ok a] Cons.prems(1) by (simp add: node_key_def)
    then show False using ix_ok_parent [OF ok a] Cons.prems(2,3) by auto
  qed
  then show ?case using Cons.IH [of "sequence_hash b"] Cons.prems by auto
qed simp

lemma absent_count:
  assumes "\<forall>b \<in> set bs. T (k, sequence_hash b) = None"
  shows "tier_count T k bs t = 0" and "table_touched T k bs now = T"
proof -
  show "tier_count T k bs t = 0" using assms by (simp add: tier_count_def tiers_at_def filter_empty_conv)
  show "table_touched T k bs now = T"
  proof
    fix x show "table_touched T k bs now x = T x"
      using assms by (cases x) (auto simp: table_touched_def)
  qed
qed

lemma touch_idem:
  "map_option (\<lambda>(ts, ac, op). (ts, now, op)) (map_option (\<lambda>(ts, ac, op). (ts, now, op)) r) = map_option (\<lambda>(ts, ac, op). (ts, now, op)) r"
  by (cases r) auto

lemma table_touched_Cons:
  "table_touched T k (b # bs) now = table_touched (table_touched T k [b] now) k bs now"
  by (rule ext) (auto simp: table_touched_def touch_idem)

lemma tiers_at_touched [simp]: "tiers_at (table_touched T k bs now) x = tiers_at T x"
  by (auto simp: tiers_at_def table_touched_def split: option.split)

lemma tier_count_touched [simp]: "tier_count (table_touched T k bs now) k' cs t = tier_count T k' cs t"
  by (simp add: tier_count_def)

lemma count_tiers_overlap:
  "add_overlap (count_tiers (tiers_at T (k, sequence_hash b)) ov) (table_overlap T k bs) = add_overlap ov (table_overlap T k (b # bs))"
  by (simp add: add_overlap_def count_tiers_def table_overlap_def)

lemma find_walk_implements:
  assumes "implements U ix T" and "link_ok U" and "set bs \<subseteq> U" and "linked_from ps bs" and "parent_addr ix k ps = Some cur"
    and "find_walk now cur ov ix bs = (ov', ix')"
  shows "implements U ix' (table_touched T k bs now) \<and> ov' = add_overlap ov (table_overlap T k bs) \<and> default_ttl_s ix' = default_ttl_s ix"
  using assms
proof (induction bs arbitrary: ix T ps cur ov)
  case Nil
  have "table_touched T k [] now = T" by (rule ext) (simp add: table_touched_def)
  then show ?case using Nil by (simp add: add_overlap_def table_overlap_def)
next
  case (Cons b bs)
  note I = implementsD [OF Cons.prems(1)]
  have ps: "parent_sequence_hash b = ps" and bU: "b \<in> U" and rest: "linked_from (Some (sequence_hash b)) bs" "set bs \<subseteq> U"
    using Cons.prems(3,4) by auto
  have c: "dict_get (n_children (ix_node ix cur)) (block_hash b) = dict_get (ix_by_seq ix) (k, sequence_hash b)"
    using indexed_child [OF I(1) Cons.prems(2) bU] ps Cons.prems(5) by simp
  show ?case
  proof (cases "dict_get (ix_by_seq ix) (k, sequence_hash b)")
    case None
    have abs: "\<forall>d \<in> set (b # bs). T (k, sequence_hash d) = None"
      using absent_below [OF I(1) Cons.prems(2) rest(2) None rest(1)] None I(3) [symmetric] by (simp add: table_of_def)
    have "ov' = ov" "ix' = ix" using Cons.prems(6) c None by simp_all
    moreover have "add_overlap ov (table_overlap T k (b # bs)) = ov"
      unfolding table_overlap_def absent_count(1) [OF abs] by (simp add: add_overlap_def)
    ultimately show ?thesis using Cons.prems(1) unfolding absent_count(2) [OF abs] by simp
  next
    case (Some a)
    let ?ix = "ix_set ix a (\<lambda>n. n\<lparr>n_last_access_ts_ms := now\<rparr>)"
    have w: "find_walk now a (count_tiers (n_tiers (ix_node ix a)) ov) ?ix bs = (ov', ix')"
      using Cons.prems(6) c Some ix_ok_seq [OF I(1) Some] by simp
    have "node_residency ((ix_node ix a)\<lparr>n_last_access_ts_ms := now\<rparr>) = map_option (\<lambda>(ts, ac, op). (ts, now, op)) (T (k, sequence_hash b))"
      unfolding I(3) [symmetric] by (simp add: table_of_def Some node_residency_def)
    moreover have "table_touched T k [b] now = T((k, sequence_hash b) := map_option (\<lambda>(ts, ac, op). (ts, now, op)) (T (k, sequence_hash b)))"
      by (rule ext) (auto simp: table_touched_def)
    ultimately have i: "implements U ?ix (table_touched T k [b] now)"
      using set_implements [OF Cons.prems(1) Some shape_keeping_payload(1) [of now]] by simp
    have t: "n_tiers (ix_node ix a) = tiers_at T (k, sequence_hash b)"
      unfolding I(3) [symmetric] by (simp add: tiers_at_def table_of_def Some node_residency_def)
    have "parent_addr ?ix k (Some (sequence_hash b)) = Some a" using Some by simp
    from Cons.IH [OF i Cons.prems(2) rest(2,1) this w]
    have IH: "implements U ix' (table_touched (table_touched T k [b] now) k bs now)"
      "ov' = add_overlap (count_tiers (n_tiers (ix_node ix a)) ov) (table_overlap (table_touched T k [b] now) k bs)"
      "default_ttl_s ix' = default_ttl_s ?ix" by blast+
    have "table_overlap (table_touched T k [b] now) k bs = table_overlap T k bs" by (simp add: table_overlap_def)
    then have "ov' = add_overlap ov (table_overlap T k (b # bs))" using IH(2) by (simp add: t count_tiers_overlap)
    moreover have "default_ttl_s ix' = default_ttl_s ix" using IH(3) by simp
    ultimately show ?thesis using IH(1) unfolding table_touched_Cons [of T k b bs] by blast
  qed
qed

lemma find_one_implements:
  assumes "implements U ix T" and "link_ok U" and "set bs \<subseteq> U" and "linked_from None bs" and "find_one ix k bs now = (ov, ix')"
  shows "implements U ix' (table_touched T k bs now)" and "ov = table_overlap T k bs" and "default_ttl_s ix' = default_ttl_s ix"
proof -
  have "implements U ix' (table_touched T k bs now) \<and> ov = table_overlap T k bs \<and> default_ttl_s ix' = default_ttl_s ix"
  proof (cases "dict_get (ix_trees ix) k")
    case None
    then have "k \<notin> set (map fst (ix_trees ix))" by (simp add: dict_get_None_iff)
    then have abs: "\<forall>d \<in> set bs. T (k, sequence_hash d) = None" using untreed_empty [OF assms(1)] by blast
    have "ov = no_overlap" "ix' = ix" using assms(5) None by (simp_all add: find_one_def)
    then show ?thesis using assms(1) unfolding absent_count(2) [OF abs] table_overlap_def absent_count(1) [OF abs]
      by (simp add: no_overlap_def)
  next
    case (Some rt)
    then have pa: "parent_addr ix k None = Some rt" by simp
    have "find_walk now rt no_overlap ix bs = (ov, ix')" using assms(5) Some by (cases bs) (auto simp: find_one_def)
    from find_walk_implements [OF assms(1-4) pa this] show ?thesis by (simp add: add_overlap_def no_overlap_def table_overlap_def)
  qed
  then show "implements U ix' (table_touched T k bs now)" "ov = table_overlap T k bs" "default_ttl_s ix' = default_ttl_s ix" by simp_all
qed

lemma find_matches_implements:
  assumes "implements U ix T" and "link_ok U" and "set bs \<subseteq> U" and "linked_from None bs"
    and "find_matches ix model ck bs now pubs out = (out', ix')"
  shows "implements U ix' (foldl (\<lambda>T p. table_touched T (model, ck, p) bs now) T pubs) \<and>
    (\<forall>p. dict_get out' p = (if p \<in> set pubs then Some (table_overlap T (model, ck, p) bs) else dict_get out p)) \<and>
    default_ttl_s ix' = default_ttl_s ix"
  using assms
proof (induction pubs arbitrary: ix T out)
  case (Cons q pubs)
  obtain ov ix1 where f: "find_one ix (model, ck, q) bs now = (ov, ix1)" by (cases "find_one ix (model, ck, q) bs now")
  note F = find_one_implements [OF Cons.prems(1-4) f]
  have "find_matches ix1 model ck bs now pubs (dict_put q ov out) = (out', ix')" using Cons.prems(5) f by simp
  note IH = Cons.IH [OF F(1) Cons.prems(2-4) this]
  have same: "table_overlap (table_touched T (model, ck, q) bs now) k bs = table_overlap T k bs" for k by (simp add: table_overlap_def)
  have "dict_get out' p = (if p \<in> set (q # pubs) then Some (table_overlap T (model, ck, p) bs) else dict_get out p)" for p
    using IH F(2) by (simp add: same dict_simps)
  then show ?case using IH F(3) by simp
qed simp

subsection \<open>The sweep\<close>

definition stale_out :: "int \<Rightarrow> int \<Rightarrow> residency option \<Rightarrow> residency option" where
  "stale_out ttl_ms now r = (case r of None \<Rightarrow> None | Some v \<Rightarrow> if residency_stale ttl_ms now v then None else Some v)"

lemma table_evicted_alt: "table_evicted ttl_ms now T = (\<lambda>x. stale_out ttl_ms now (T x))"
  by (rule ext) (simp add: table_evicted_def stale_out_def)

lemma clear_stale_fold:
  assumes "implements U ix T" and "set items \<subseteq> set (ix_by_seq ix)" and "distinct (map fst items)"
  shows "implements U (foldl (\<lambda>ix (k, a). if is_stale ttl_ms now (ix_node ix a) then ix_set ix a (\<lambda>n. n\<lparr>n_tiers := {}\<rparr>) else ix) ix items)
      (\<lambda>x. if x \<in> fst ` set items then stale_out ttl_ms now (T x) else T x) \<and>
    default_ttl_s (foldl (\<lambda>ix (k, a). if is_stale ttl_ms now (ix_node ix a) then ix_set ix a (\<lambda>n. n\<lparr>n_tiers := {}\<rparr>) else ix) ix items) =
      default_ttl_s ix \<and>
    ix_by_seq (foldl (\<lambda>ix (k, a). if is_stale ttl_ms now (ix_node ix a) then ix_set ix a (\<lambda>n. n\<lparr>n_tiers := {}\<rparr>) else ix) ix items) =
      ix_by_seq ix"
  using assms
proof (induction items arbitrary: ix T)
  case (Cons it items)
  obtain y a where it: "it = (y, a)" by (cases it)
  note I = implementsD [OF Cons.prems(1)]
  let ?ix = "if is_stale ttl_ms now (ix_node ix a) then ix_set ix a (\<lambda>n. n\<lparr>n_tiers := {}\<rparr>) else ix"
  have "(y, a) \<in> set (ix_by_seq ix)" using Cons.prems(2) it by simp
  note b = map_of_is_SomeI [OF ix_ok_wf [OF I(1)] this]
  have r: "node_residency (ix_node ix a) = T y" unfolding I(3) [symmetric] by (simp add: table_of_def b)
  have "stale_out ttl_ms now (T y) = (if is_stale ttl_ms now (ix_node ix a) then None else T y)"
    unfolding r [symmetric] by (simp add: stale_out_def node_residency_def residency_stale_def is_stale_def)
  moreover have "implements U (ix_set ix a (\<lambda>n. n\<lparr>n_tiers := {}\<rparr>)) (T(y := None))"
    using set_implements [OF Cons.prems(1) b shape_keeping_payload(2) [of "\<lambda>_. {}"]] by (simp add: node_residency_def)
  ultimately have i: "implements U ?ix (T(y := stale_out ttl_ms now (T y)))" using Cons.prems(1) by (simp add: fun_upd_idem)
  have new: "y \<notin> fst ` set items" and rest: "set items \<subseteq> set (ix_by_seq ?ix)" "distinct (map fst items)"
    using Cons.prems(2,3) it by auto
  have "(\<lambda>x. if x \<in> fst ` set items then stale_out ttl_ms now ((T(y := stale_out ttl_ms now (T y))) x) else (T(y := stale_out ttl_ms now (T y))) x) =
      (\<lambda>x. if x \<in> fst ` set (it # items) then stale_out ttl_ms now (T x) else T x)"
    by (rule ext) (use new it in auto)
  then show ?case using Cons.IH [OF i rest] it by simp
qed simp

lemma clear_stale_implements:
  assumes "implements U ix T"
  shows "implements U (clear_stale ttl_ms now ix) (table_evicted ttl_ms now T)" and "default_ttl_s (clear_stale ttl_ms now ix) = default_ttl_s ix"
    and "ix_by_seq (clear_stale ttl_ms now ix) = ix_by_seq ix"
proof -
  note I = implementsD [OF assms]
  have "table_evicted ttl_ms now T = (\<lambda>x. if x \<in> fst ` set (ix_by_seq ix) then stale_out ttl_ms now (T x) else T x)"
  proof
    fix x show "table_evicted ttl_ms now T x = (if x \<in> fst ` set (ix_by_seq ix) then stale_out ttl_ms now (T x) else T x)"
      unfolding table_evicted_alt I(3) [symmetric] by (simp add: table_of_def dict_get_None_iff [symmetric] stale_out_def split: option.split)
  qed
  then show "implements U (clear_stale ttl_ms now ix) (table_evicted ttl_ms now T)" "default_ttl_s (clear_stale ttl_ms now ix) = default_ttl_s ix"
    "ix_by_seq (clear_stale ttl_ms now ix) = ix_by_seq ix"
    using clear_stale_fold [OF assms subset_refl ix_ok_wf [OF I(1)], of ttl_ms now] by (simp_all add: clear_stale_def)
qed

lemma length_dict_del: "dict_wf d \<Longrightarrow> dict_get d k = Some v \<Longrightarrow> Suc (length (dict_del k d)) = length d"
proof (induction d)
  case (Cons e d)
  then show ?case by (cases e) (auto simp: dict_get_None_iff dict_del_absent split: if_splits)
qed simp

lemma evict_round_implements:
  assumes "implements U ix T" and "evict_round ix ks = (n, ix')"
  shows "implements U ix' T \<and> default_ttl_s ix' = default_ttl_s ix \<and> n + length (ix_by_seq ix') = length (ix_by_seq ix) \<and>
    (n = 0 \<longrightarrow> ix' = ix \<and> (\<forall>k \<in> set ks. \<forall>a. dict_get (ix_by_seq ix) k = Some a \<longrightarrow> \<not> is_dead (ix_node ix a)))"
  using assms
proof (induction ix ks arbitrary: n ix' rule: evict_round.induct)
  case (2 ix k ks)
  note I = implementsD [OF 2(4)]
  show ?case
  proof (cases "dict_get (ix_by_seq ix) k")
    case None
    then show ?thesis using 2(1) [OF None 2(4)] 2(5) by simp
  next
    case (Some a)
    have b: "dict_get (ix_by_seq ix) (fst k, snd k) = Some a" using Some by simp
    show ?thesis
    proof (cases "is_dead (ix_node ix a)")
      case True
      obtain m where m: "evict_round (unlink_leaf ix (fst k) a) ks = (m, ix')" "n = m + 1"
        using 2(5) Some True by (auto split: prod.splits)
      have leaf: "n_children (ix_node ix a) = []" using True by (simp add: is_dead_def)
      note u = unlink_leaf_ok [OF I(1) b leaf]
      have "Suc (length (ix_by_seq (unlink_leaf ix (fst k) a))) = length (ix_by_seq ix)"
        unfolding u(2) by (rule length_dict_del [OF ix_ok_wf [OF I(1)] b])
      then show ?thesis using 2(2) [OF Some True unlink_implements [OF 2(4) b True] m(1)] m(2) u(4) by simp
    next
      case False
      then have "evict_round ix ks = (n, ix')" using 2(5) Some by simp
      from 2(3) [OF Some False 2(4) this] Some False show ?thesis by auto
    qed
  qed
qed simp

text \<open>Nothing that could be unlinked is left.\<close>

definition swept :: "KVIndex \<Rightarrow> bool" where
  "swept ix \<longleftrightarrow> (\<forall>(k, a) \<in> set (ix_by_seq ix). \<not> is_dead (ix_node ix a))"

lemma evict_rounds_implements:
  assumes "implements U ix T"
  shows "\<exists>n ix'. evict_rounds ix r = Some (n, ix') \<and> implements U ix' T \<and> default_ttl_s ix' = default_ttl_s ix \<and> swept ix' \<and>
    n + length (ix_by_seq ix') = r + length (ix_by_seq ix)"
  using assms
proof (induction "length (ix_by_seq ix)" arbitrary: ix r rule: less_induct)
  case less
  obtain m ix1 where m: "evict_round ix (map fst (ix_by_seq ix)) = (m, ix1)" by (cases "evict_round ix (map fst (ix_by_seq ix))")
  note M = evict_round_implements [OF less.prems m]
  show ?case
  proof (cases "m = 0")
    case True
    then have dead: "\<forall>k \<in> set (map fst (ix_by_seq ix)). \<forall>a. dict_get (ix_by_seq ix) k = Some a \<longrightarrow> \<not> is_dead (ix_node ix a)" and eq: "ix1 = ix"
      using M by blast+
    have "swept ix" unfolding swept_def
    proof (clarify)
      fix x s a assume mem: "((x, s), a) \<in> set (ix_by_seq ix)" and d: "is_dead (ix_node ix a)"
      from map_of_is_SomeI [OF ix_ok_wf [OF implementsD(1) [OF less.prems]] mem] show False using dead d mem by force
    qed
    then show ?thesis using True less.prems m eq by (subst evict_rounds.simps) simp
  next
    case False
    then have lt: "length (ix_by_seq ix1) < length (ix_by_seq ix)" using M by linarith
    from less.hyps [OF lt, of "r + m"] M obtain n ix' where
      "evict_rounds ix1 (r + m) = Some (n, ix')" "implements U ix' T" "default_ttl_s ix' = default_ttl_s ix1" "swept ix'"
      "n + length (ix_by_seq ix') = r + m + length (ix_by_seq ix1)" by blast
    then show ?thesis using False M m by (subst evict_rounds.simps) simp
  qed
qed

section \<open>Histories\<close>

datatype index_op =
    IxStored IndexKey BlockKey Tier int
  | IxRemoved IndexKey int Tier
  | IxCleared string string
  | IxDropPublisher string
  | IxDropTree IndexKey
  | IxAssume IndexKey "BlockKey list" Tier real int
  | IxFind string string "BlockKey list" "string list" int
  | IxEvict int

fun index_step :: "KVIndex \<Rightarrow> index_op \<Rightarrow> KVIndex option" where
  "index_step ix (IxStored k b t now) = Some (apply_stored ix k b t now)"
| "index_step ix (IxRemoved k s t) = Some (apply_removed ix k s t)"
| "index_step ix (IxCleared pub scope) = Some (apply_cleared ix pub scope)"
| "index_step ix (IxDropPublisher pub) = Some (drop_publisher ix pub)"
| "index_step ix (IxDropTree k) = Some (drop_tree_at ix k)"
| "index_step ix (IxAssume k bs t ttl now) = Some (optimistically_record ix k bs t ttl now)"
| "index_step ix (IxFind model ck bs pubs now) = Some (snd (find_matches ix model ck bs now pubs []))"
| "index_step ix (IxEvict now) = map_option snd (evict_expired ix now)"

fun table_step :: "int \<Rightarrow> index_table \<Rightarrow> index_op \<Rightarrow> index_table" where
  "table_step ttl_ms T (IxStored k b t now) = table_stored T k b t now"
| "table_step ttl_ms T (IxRemoved k s t) = table_removed T k s t"
| "table_step ttl_ms T (IxCleared pub scope) = table_cleared T pub scope"
| "table_step ttl_ms T (IxDropPublisher pub) = table_dropped T (\<lambda>k. ik_publisher k = pub)"
| "table_step ttl_ms T (IxDropTree k) = table_dropped T (\<lambda>x. x = k)"
| "table_step ttl_ms T (IxAssume k bs t ttl now) = foldl (\<lambda>T. table_assumed T k t (now + py_trunc (ttl * 1000)) now) T bs"
| "table_step ttl_ms T (IxFind model ck bs pubs now) = foldl (\<lambda>T p. table_touched T (model, ck, p) bs now) T pubs"
| "table_step ttl_ms T (IxEvict now) = table_evicted ttl_ms now T"

text \<open>Parents come before their children, and queries are chains of the hasher.\<close>

fun in_order :: "BlockKey set \<Rightarrow> index_table \<Rightarrow> index_op \<Rightarrow> bool" where
  "in_order U T (IxStored k b t now) = (b \<in> U \<and> has_parent T k b)"
| "in_order U T (IxAssume k bs t ttl now) = (set bs \<subseteq> U \<and> chain_ready (dom T) k bs)"
| "in_order U T (IxFind model ck bs pubs now) = (set bs \<subseteq> U \<and> linked_from None bs)"
| "in_order U T _ = True"

fun index_run :: "KVIndex \<Rightarrow> index_op list \<Rightarrow> KVIndex option" where
  "index_run ix [] = Some ix"
| "index_run ix (op # ops) = (case index_step ix op of None \<Rightarrow> None | Some ix \<Rightarrow> index_run ix ops)"

definition table_run :: "int \<Rightarrow> index_table \<Rightarrow> index_op list \<Rightarrow> index_table" where
  "table_run ttl_ms T ops = foldl (table_step ttl_ms) T ops"

fun orderly :: "BlockKey set \<Rightarrow> int \<Rightarrow> index_table \<Rightarrow> index_op list \<Rightarrow> bool" where
  "orderly U ttl_ms T [] = True"
| "orderly U ttl_ms T (op # ops) = (in_order U T op \<and> orderly U ttl_ms (table_step ttl_ms T op) ops)"

lemma evict_expired_implements:
  assumes "implements U ix T"
  shows "\<exists>n ix'. evict_expired ix now = Some (n, ix') \<and>
    implements U ix' (table_evicted (py_trunc (default_ttl_s ix * 1000)) now T) \<and> default_ttl_s ix' = default_ttl_s ix \<and> swept ix' \<and>
    n + length (ix_by_seq ix') = length (ix_by_seq ix)"
  using evict_rounds_implements [OF clear_stale_implements(1) [OF assms], of _ now 0]
  unfolding evict_expired_def clear_stale_implements(2,3) [OF assms] by simp

lemma index_step_implements:
  assumes i: "implements U ix T" and U: "link_ok U" and o: "in_order U T op"
  shows "\<exists>ix'. index_step ix op = Some ix' \<and> implements U ix' (table_step (py_trunc (default_ttl_s ix * 1000)) T op) \<and>
    default_ttl_s ix' = default_ttl_s ix"
proof (cases op)
  case (IxStored k b t now)
  then show ?thesis using apply_stored_implements [OF i U, of b k t now] o by simp
next
  case (IxRemoved k s t)
  then show ?thesis using apply_removed_implements [OF i, of k s t] by simp
next
  case (IxCleared pub scope)
  then show ?thesis using apply_cleared_implements [OF i, of pub scope] by simp
next
  case (IxDropPublisher pub)
  then show ?thesis using drop_publisher_implements [OF i, of pub] by simp
next
  case (IxDropTree k)
  then show ?thesis using drop_tree_implements [OF i, of k] by simp
next
  case (IxAssume k bs t ttl now)
  then show ?thesis using optimistic_implements [OF i U, of bs k t ttl now] o by simp
next
  case (IxFind model ck bs pubs now)
  obtain out ix' where "find_matches ix model ck bs now pubs [] = (out, ix')" by (cases "find_matches ix model ck bs now pubs []")
  from find_matches_implements [OF i U _ _ this] o this IxFind show ?thesis by simp
next
  case (IxEvict now)
  obtain n ix' where e: "evict_expired ix now = Some (n, ix')" "implements U ix' (table_evicted (py_trunc (default_ttl_s ix * 1000)) now T)"
    "default_ttl_s ix' = default_ttl_s ix" using evict_expired_implements [OF i, of now] by blast
  then show ?thesis using IxEvict by simp
qed

lemma index_run_implements:
  assumes "implements U ix T" and "link_ok U" and "orderly U (py_trunc (default_ttl_s ix * 1000)) T ops"
  shows "\<exists>ix'. index_run ix ops = Some ix' \<and> implements U ix' (table_run (py_trunc (default_ttl_s ix * 1000)) T ops) \<and>
    default_ttl_s ix' = default_ttl_s ix"
  using assms
proof (induction ops arbitrary: ix T)
  case (Cons op ops)
  let ?ttl = "py_trunc (default_ttl_s ix * 1000)"
  obtain ix1 where s: "index_step ix op = Some ix1" "implements U ix1 (table_step ?ttl T op)" "default_ttl_s ix1 = default_ttl_s ix"
    using index_step_implements [OF Cons.prems(1,2)] Cons.prems(3) by auto
  have "orderly U (py_trunc (default_ttl_s ix1 * 1000)) (table_step ?ttl T op) ops" using Cons.prems(3) s(3) by simp
  from Cons.IH [OF s(2) Cons.prems(2) this] s show ?case by (simp add: table_run_def)
qed (simp add: table_run_def)

section \<open>Properties\<close>

text \<open>C6. The index with its shared, mutable tree nodes implements a flat table from block to
  residency. Take any history of stored and removed events, clears, drops, assumed chains, queries and
  sweeps in which a block is stored after its parent and a sequence hash stands for one block. Every
  operation returns, the residency of each block is what the history says, computed block by block
  without any tree, and a query reports for each tier the number of blocks of the prompt that the
  table has there.\<close>

theorem index_implements_table:
  assumes "link_ok U" and "orderly U (py_trunc (ttl * 1000)) (\<lambda>_. None) ops"
  shows "\<exists>ix. index_run (make_index ttl) ops = Some ix \<and> table_of ix = table_run (py_trunc (ttl * 1000)) (\<lambda>_. None) ops \<and>
    (\<forall>k bs now. set bs \<subseteq> U \<longrightarrow> linked_from None bs \<longrightarrow>
       fst (find_one ix k bs now) = table_overlap (table_run (py_trunc (ttl * 1000)) (\<lambda>_. None) ops) k bs)"
proof -
  have "default_ttl_s (make_index ttl) = ttl" by (simp add: make_index_def)
  with index_run_implements [OF make_index_implements assms(1), of ttl ops] assms(2)
  obtain ix where ix: "index_run (make_index ttl) ops = Some ix" "implements U ix (table_run (py_trunc (ttl * 1000)) (\<lambda>_. None) ops)" by auto
  have "fst (find_one ix k bs now) = table_overlap (table_run (py_trunc (ttl * 1000)) (\<lambda>_. None) ops) k bs"
    if "set bs \<subseteq> U" "linked_from None bs" for k bs now
    using find_one_implements(2) [OF ix(2) assms(1) that] by (metis prod.collapse)
  then show ?thesis using ix implementsD(3) [OF ix(2)] by blast
qed

definition demo_head :: BlockKey where "demo_head = \<lparr>sequence_hash = 11, block_hash = 1, parent_sequence_hash = None\<rparr>"

definition demo_tail :: BlockKey where "demo_tail = \<lparr>sequence_hash = 22, block_hash = 2, parent_sequence_hash = Some 11\<rparr>"

definition demo_ik :: IndexKey where "demo_ik = (''m'', ''c'', ''w'')"

lemmas index_eval = demo_head_def demo_tail_def demo_ik_def link_ok_def has_parent_def table_stored_def table_removed_def
  drop_mark_def tiers_at_def py_trunc_def

theorem index_implements_table_witness:
  "\<exists>ix. index_run (make_index 600) [IxStored demo_ik demo_head DEVICE 0, IxStored demo_ik demo_tail HOST 1,
       IxStored demo_ik demo_tail DISK 2, IxRemoved demo_ik 22 HOST] = Some ix \<and>
     fst (find_one ix demo_ik [demo_head, demo_tail] 5) = \<lparr>device = 1, host = 0, disk = 1, fabric = 0\<rparr>"
proof -
  let ?ops = "[IxStored demo_ik demo_head DEVICE 0, IxStored demo_ik demo_tail HOST 1,
       IxStored demo_ik demo_tail DISK 2, IxRemoved demo_ik 22 HOST]"
  have "link_ok {demo_head, demo_tail}" by (simp add: index_eval)
  moreover have "orderly {demo_head, demo_tail} (py_trunc (600 * 1000)) (\<lambda>_. None) ?ops" by (simp add: index_eval)
  moreover have "table_overlap (table_run (py_trunc (600 * 1000)) (\<lambda>_. None) ?ops) demo_ik [demo_head, demo_tail] =
      \<lparr>device = 1, host = 0, disk = 1, fabric = 0\<rparr>" by (simp add: table_overlap_def table_run_def index_eval)
  moreover have "linked_from None [demo_head, demo_tail]" by (simp add: index_eval)
  ultimately show ?thesis
    using index_implements_table [of "{demo_head, demo_tail}" 600 ?ops] by (metis (no_types, lifting) list.simps(15) empty_set subset_refl)
qed

text \<open>C40. A sweep after any such history ends. It leaves exactly the blocks whose deadline or time to
  live has not passed, unlinks every node that holds no tier and has no child, its parents included,
  and returns the number of nodes it has unlinked.\<close>

theorem sweep_returns:
  assumes "link_ok U" and "orderly U (py_trunc (ttl * 1000)) (\<lambda>_. None) ops" and "index_run (make_index ttl) ops = Some ix"
  shows "\<exists>n ix'. evict_expired ix now = Some (n, ix') \<and>
    table_of ix' = table_evicted (py_trunc (ttl * 1000)) now (table_of ix) \<and> swept ix' \<and>
    n + length (ix_by_seq ix') = length (ix_by_seq ix)"
proof -
  have "default_ttl_s (make_index ttl) = ttl" by (simp add: make_index_def)
  with index_run_implements [OF make_index_implements assms(1), of ttl ops] assms(2,3)
  have "implements U ix (table_run (py_trunc (ttl * 1000)) (\<lambda>_. None) ops)" "default_ttl_s ix = ttl" by auto
  from evict_expired_implements [OF this(1), of now] implementsD(3) [OF this(1)] this(2) show ?thesis
    by (auto dest: implementsD(3))
qed

theorem sweep_returns_witness:
  "\<exists>ix n ix'. index_run (make_index 600) [IxStored demo_ik demo_head DEVICE 0, IxStored demo_ik demo_tail HOST 1] = Some ix \<and>
     evict_expired ix 700000 = Some (n, ix') \<and> swept ix' \<and> table_of ix' (demo_ik, 11) = None"
proof -
  let ?ops = "[IxStored demo_ik demo_head DEVICE 0, IxStored demo_ik demo_tail HOST 1]"
  have U: "link_ok {demo_head, demo_tail}" by (simp add: index_eval)
  have o: "orderly {demo_head, demo_tail} (py_trunc (600 * 1000)) (\<lambda>_. None) ?ops" by (simp add: index_eval)
  have "default_ttl_s (make_index 600) = 600" by (simp add: make_index_def)
  with index_run_implements [OF make_index_implements U, of 600 ?ops] o
  obtain ix where ix: "index_run (make_index 600) ?ops = Some ix" "table_of ix = table_run (py_trunc (600 * 1000)) (\<lambda>_. None) ?ops"
    by (auto dest: implementsD(3))
  have "table_evicted (py_trunc (600 * 1000)) 700000 (table_of ix) (demo_ik, 11) = None"
    unfolding ix(2) by (simp add: table_run_def table_evicted_def residency_stale_def index_eval)
  then show ?thesis using sweep_returns [OF U o ix(1), of 700000] ix(1) by (metis (no_types, lifting))
qed

section \<open>Where the index falls short\<close>

text \<open>An event that arrives before the event of its parent is filed below the root under its block
  hash. A prompt that starts with the same block then finds that node in its place: its own stored
  event is credited to the other block, and the query reports nothing.\<close>

lemma early_child_hides_head:
  "map_option (\<lambda>ix. fst (find_one ix (''m'', ''c'', ''w'') [\<lparr>sequence_hash = 77, block_hash = 2, parent_sequence_hash = None\<rparr>] 5))
     (index_run (make_index 600)
        [IxStored (''m'', ''c'', ''w'') \<lparr>sequence_hash = 22, block_hash = 2, parent_sequence_hash = Some 11\<rparr> DEVICE 0,
         IxStored (''m'', ''c'', ''w'') \<lparr>sequence_hash = 77, block_hash = 2, parent_sequence_hash = None\<rparr> DEVICE 1]) =
   Some no_overlap"
  by code_simp

text \<open>A block counts even when a block before it has left the tier: the engine has evicted the head
  of the prompt and can reuse nothing, yet the query reports one block.\<close>

lemma gap_is_counted:
  "map_option (\<lambda>ix. device (fst (find_one ix demo_ik [demo_head, demo_tail] 5)))
     (index_run (make_index 600)
        [IxStored demo_ik demo_head DEVICE 0, IxStored demo_ik demo_tail DEVICE 1, IxRemoved demo_ik 11 DEVICE]) = Some 1"
  by code_simp

text \<open>The chains the hasher returns are the chains a query may use.\<close>

lemma linked_from_nth:
  assumes "\<And>i. i < length ks \<Longrightarrow> parent_sequence_hash (ks ! i) = (if i = 0 then ps else Some (sequence_hash (ks ! (i - 1))))"
  shows "linked_from ps ks"
  using assms
proof (induction ks arbitrary: ps)
  case (Cons b ks)
  have "linked_from (Some (sequence_hash b)) ks"
  proof (rule Cons.IH)
    fix i assume "i < length ks"
    with Cons.prems [of "Suc i"] show "parent_sequence_hash (ks ! i) = (if i = 0 then Some (sequence_hash b) else Some (sequence_hash (ks ! (i - 1))))"
      by (cases i) simp_all
  qed
  then show ?case using Cons.prems [of 0] by simp
qed simp

lemma hashed_chain_linked:
  assumes "hash_token_blocks h hs tokens bs runs lora = Inr ks"
  shows "linked_from None ks"
proof (rule linked_from_nth)
  fix i assume i: "i < length ks"
  from assms have "hash_token_loop hs (seed_for_lora h lora) tokens (nat bs) runs None
      [0..<length tokens div nat bs] = Inr ks"
    by (auto simp: hash_token_blocks_def Let_def split: if_splits)
  from hash_token_loop_nth [OF this] i show "parent_sequence_hash (ks ! i) = (if i = 0 then None else Some (sequence_hash (ks ! (i - 1))))"
    by fastforce
qed

end
