(* ===== verification/Cache_Control.thy ===== *)
theory Cache_Control
  imports Worker_Pool Hashing
begin

text \<open>
  Client cache hints: \<open>src/infera/router/cache_control.py\<close>. A request body is a JSON value
  (\<^typ>\<open>pyval\<close>); text is ASCII, so \<open>strip\<close>, \<open>lower\<close> and the UTF-8 encoding are those of
  ASCII strings. \<open>h\<close> is the XXH3-64 digest.
\<close>

section \<open>Python values\<close>

definition is_space :: "char \<Rightarrow> bool" where
  "is_space c \<longleftrightarrow> (let n = of_char c :: nat in (9 \<le> n \<and> n \<le> 13) \<or> (28 \<le> n \<and> n \<le> 32))"

definition strip :: "string \<Rightarrow> string" where
  "strip s = rev (dropWhile is_space (rev (dropWhile is_space s)))"

definition lower_char :: "char \<Rightarrow> char" where
  "lower_char c = (let n = of_char c :: nat in if 65 \<le> n \<and> n \<le> 90 then char_of (n + 32) else c)"

definition lower :: "string \<Rightarrow> string" where
  "lower s = map lower_char s"

definition encode :: "string \<Rightarrow> byte list" where
  "encode s = map of_char s"

fun truthy :: "pyval \<Rightarrow> bool" where
  "truthy PNone = False"
| "truthy (PBool b) = b"
| "truthy (PInt n) = (n \<noteq> 0)"
| "truthy (PFloat r) = (r \<noteq> 0)"
| "truthy (PStr s) = (s \<noteq> [])"
| "truthy (PList xs) = (xs \<noteq> [])"
| "truthy (PDict d) = (d \<noteq> [])"

text \<open>\<open>d.get(k)\<close>: \<open>None\<close> and a missing key read the same.\<close>

definition pget :: "(string \<times> pyval) list \<Rightarrow> string \<Rightarrow> pyval" where
  "pget d k = (case map_of d k of None \<Rightarrow> PNone | Some v \<Rightarrow> v)"

fun hashable :: "pyval \<Rightarrow> bool" where
  "hashable (PList _) = False"
| "hashable (PDict _) = False"
| "hashable _ = True"

text \<open>The elements of a value that is a list, and the dictionaries among values.\<close>

fun list_items :: "pyval \<Rightarrow> pyval list" where
  "list_items (PList xs) = xs"
| "list_items _ = []"

fun dicts_of :: "pyval list \<Rightarrow> (string \<times> pyval) list list" where
  "dicts_of [] = []"
| "dicts_of (PDict d # vs) = d # dicts_of vs"
| "dicts_of (_ # vs) = dicts_of vs"

section \<open>Retention\<close>

datatype Retention = NONE | SHORT | LONG

fun rank :: "Retention \<Rightarrow> nat" where
  "rank NONE = 0"
| "rank SHORT = 1"
| "rank LONG = 2"

record CacheHints =
  retention :: Retention
  session_id :: "string option"
  explicit_hint_seen :: bool
  has_multimodal_content :: bool

text \<open>The module constant read from \<open>INFERA_ROUTER_DEFAULT_RETENTION\<close>.\<close>

definition default_retention :: "string option \<Rightarrow> Retention" where
  "default_retention env =
     (let v = lower (strip (case env of None \<Rightarrow> ''long'' | Some e \<Rightarrow> e)) in
      if v = ''none'' then NONE else if v = ''short'' then SHORT else LONG)"

definition effective_retention :: "string option \<Rightarrow> Retention \<Rightarrow> Retention" where
  "effective_retention env r = (if r \<noteq> NONE then r else default_retention env)"

fun coerce_session_id :: "pyval \<Rightarrow> string option" where
  "coerce_session_id (PStr s) = (if strip s \<noteq> [] then Some (strip s) else None)"
| "coerce_session_id _ = None"

definition parse_openai_retention :: "(string \<times> pyval) list \<Rightarrow> Retention option" where
  "parse_openai_retention body =
     (case pget body ''prompt_cache_retention'' of
        PStr s \<Rightarrow>
          (let r = lower (strip s) in
           if r \<in> {''24h'', ''1h'', ''long''} then Some LONG
           else if r \<in> {''5m'', ''short''} then Some SHORT
           else if r \<in> {''none'', ''off'', ''disabled''} then Some NONE
           else None)
      | _ \<Rightarrow> if truthy (pget body ''prompt_cache_key'') then Some SHORT else None)"

text \<open>The content lists of the messages that are dictionaries.\<close>

definition message_blocks :: "(string \<times> pyval) list \<Rightarrow> (string \<times> pyval) list list" where
  "message_blocks body =
     concat (map (\<lambda>msg. dicts_of (list_items (pget msg ''content'')))
       (dicts_of (list_items (pget body ''messages''))))"

definition iter_blocks_with_cache_control ::
  "(string \<times> pyval) list \<Rightarrow> (string \<times> pyval) list list" where
  "iter_blocks_with_cache_control body =
     filter (\<lambda>d. map_of d ''cache_control'' \<noteq> None)
       (dicts_of (list_items (pget body ''system'')) @
        dicts_of (list_items (pget body ''tools'')) @
        message_blocks body)"

text \<open>Membership in a set of strings hashes the candidate first, so a list or dictionary
  there raises \<open>TypeError\<close>.\<close>

definition retention_for_block :: "(string \<times> pyval) list \<Rightarrow> py_error + Retention option" where
  "retention_for_block block =
     (let block_type = pget block ''type'' in
      if \<not> hashable block_type then Inl TypeError
      else if block_type \<in> {PStr ''thinking'', PStr ''redacted_thinking''} then Inr (Some NONE)
      else case pget block ''cache_control'' of
        PDict cc \<Rightarrow>
          if pget cc ''type'' \<noteq> PStr ''ephemeral'' then Inr None
          else (case pget cc ''ttl'' of
                  PStr ttl \<Rightarrow>
                    (let t = lower (strip ttl) in
                     if t \<in> {''1h'', ''1hr'', ''60m'', ''3600s'', ''long''} then Inr (Some LONG)
                     else Inr (Some SHORT))
                | _ \<Rightarrow> Inr (Some SHORT))
      | _ \<Rightarrow> Inr None)"

text \<open>Python's \<open>max(xs, key=rank)\<close>: the first of the strongest.\<close>

fun max_retention :: "Retention \<Rightarrow> Retention list \<Rightarrow> Retention" where
  "max_retention r [] = r"
| "max_retention r (x # xs) = max_retention (if rank x > rank r then x else r) xs"

definition found_retentions :: "(string \<times> pyval) list \<Rightarrow> py_error + Retention list" where
  "found_retentions body =
     sum_bind (sum_map_list retention_for_block (iter_blocks_with_cache_control body))
       (\<lambda>rs. Inr (List.map_filter (\<lambda>r. r) rs))"

definition scan_anthropic :: "(string \<times> pyval) list \<Rightarrow> py_error + Retention option \<times> bool" where
  "scan_anthropic body =
     sum_bind (found_retentions body) (\<lambda>found.
       case found of [] \<Rightarrow> Inr (None, False) | r # rs \<Rightarrow> Inr (Some (max_retention r rs), True))"

section \<open>Multimodal content\<close>

definition MM_BLOCK_TYPES :: "string list" where
  "MM_BLOCK_TYPES = [''image'', ''image_url'', ''input_audio'', ''document'', ''file'', ''video'', ''audio'']"

definition is_mm_block :: "(string \<times> pyval) list \<Rightarrow> bool" where
  "is_mm_block block \<longleftrightarrow>
     (case pget block ''type'' of PStr t \<Rightarrow> t \<in> set MM_BLOCK_TYPES | _ \<Rightarrow> False)"

definition detect_multimodal :: "(string \<times> pyval) list \<Rightarrow> bool" where
  "detect_multimodal body \<longleftrightarrow>
     list_ex is_mm_block (message_blocks body) \<or>
     (case pget body ''images'' of PList xs \<Rightarrow> xs \<noteq> [] | _ \<Rightarrow> False) \<or>
     (case pget body ''audio'' of PList xs \<Rightarrow> xs \<noteq> [] | PDict d \<Rightarrow> d \<noteq> [] | _ \<Rightarrow> False) \<or>
     list_ex is_mm_block (dicts_of (list_items (pget body ''system'')))"

fun as_str :: "pyval \<Rightarrow> string option" where
  "as_str (PStr s) = Some s"
| "as_str _ = None"

text \<open>\<open>v.get(k)\<close> as a string, when \<open>v\<close> is a dictionary.\<close>

fun str_field :: "pyval \<Rightarrow> string \<Rightarrow> string option" where
  "str_field (PDict d) k = as_str (pget d k)"
| "str_field _ k = None"

fun first_some :: "'a option list \<Rightarrow> 'a option" where
  "first_some [] = None"
| "first_some (None # xs) = first_some xs"
| "first_some (Some x # xs) = Some x"

definition mm_ref_string :: "(string \<times> pyval) list \<Rightarrow> string option" where
  "mm_ref_string block = first_some
     [as_str (pget block ''image_url''),
      str_field (pget block ''image_url'') ''url'',
      str_field (pget block ''input_audio'') ''data'',
      str_field (pget block ''source'') ''url'',
      str_field (pget block ''source'') ''data'',
      as_str (pget block ''url''),
      as_str (pget block ''data'')]"

definition push_ref :: "(byte list \<Rightarrow> int) \<Rightarrow> string option \<Rightarrow> int list" where
  "push_ref h ref =
     (case ref of None \<Rightarrow> [] | Some s \<Rightarrow> if strip s \<noteq> [] then [h (encode (strip s))] else [])"

fun image_entry_keys :: "(byte list \<Rightarrow> int) \<Rightarrow> pyval \<Rightarrow> int list" where
  "image_entry_keys h (PStr s) = push_ref h (Some s)"
| "image_entry_keys h (PDict d) = push_ref h (mm_ref_string d)"
| "image_entry_keys h _ = []"

definition extract_image_keys :: "(byte list \<Rightarrow> int) \<Rightarrow> pyval \<Rightarrow> int list" where
  "extract_image_keys h v =
     (case v of
        PDict body \<Rightarrow>
          concat (map (\<lambda>b. push_ref h (mm_ref_string b)) (message_blocks body)) @
          concat (map (\<lambda>b. push_ref h (mm_ref_string b)) (dicts_of (list_items (pget body ''system'')))) @
          concat (map (image_entry_keys h) (list_items (pget body ''images'')))
      | _ \<Rightarrow> [])"

section \<open>Parsing a request\<close>

definition parse_cache_hints :: "pyval \<Rightarrow> py_error + CacheHints" where
  "parse_cache_hints v =
     (case v of
        PDict body \<Rightarrow>
          (let openai_retention = parse_openai_retention body;
               key = pget body ''prompt_cache_key'';
               openai_session = (if truthy key then key else pget body ''session_id'')
           in sum_bind (scan_anthropic body) (\<lambda>(anthropic_retention, anthropic_seen).
              let has_mm = detect_multimodal body;
                  sid = coerce_session_id openai_session
              in case List.map_filter (\<lambda>r. r) [openai_retention, anthropic_retention] of
                   [] \<Rightarrow> Inr \<lparr>retention = NONE, session_id = sid, explicit_hint_seen = False,
                             has_multimodal_content = has_mm\<rparr>
                 | r # rs \<Rightarrow> Inr \<lparr>retention = max_retention r rs, session_id = sid,
                             explicit_hint_seen = (anthropic_seen \<or> openai_retention \<noteq> None),
                             has_multimodal_content = has_mm\<rparr>))
      | _ \<Rightarrow> Inr \<lparr>retention = NONE, session_id = None, explicit_hint_seen = False,
                has_multimodal_content = False\<rparr>)"

section \<open>Lemmas\<close>

lemma max_retention_mem: "max_retention r rs \<in> insert r (set rs)"
  by (induction rs arbitrary: r) (auto split: if_splits)

lemma max_retention_ge: "x \<in> insert r (set rs) \<Longrightarrow> rank x \<le> rank (max_retention r rs)"
proof (induction rs arbitrary: r x)
  case (Cons a rs)
  let ?r = "if rank r < rank a then a else r"
  have "rank ?r \<le> rank (max_retention ?r rs)" by (intro Cons.IH) simp
  moreover have "rank r \<le> rank ?r" "rank a \<le> rank ?r" by auto
  ultimately show ?case
    using Cons.prems Cons.IH [of x ?r] by auto
qed simp

lemma sum_map_list_Inl:
  "sum_map_list f xs = Inl e \<Longrightarrow> \<exists>x \<in> set xs. f x = Inl e"
  by (induction xs) (auto simp: sum_bind_Inl_iff)

lemma sum_map_list_total:
  "(\<forall>x \<in> set xs. \<exists>y. f x = Inr y) \<longleftrightarrow> (\<exists>ys. sum_map_list f xs = Inr ys)"
  by (induction xs) auto

lemma retention_for_block_Inl:
  "retention_for_block b = Inl e \<longleftrightarrow> e = TypeError \<and> \<not> hashable (pget b ''type'')"
  by (auto simp: retention_for_block_def Let_def split: pyval.splits if_splits)

lemma found_retentions_Inl:
  "found_retentions body = Inl e \<longleftrightarrow>
     e = TypeError \<and> (\<exists>b \<in> set (iter_blocks_with_cache_control body). \<not> hashable (pget b ''type''))"
proof
  assume "found_retentions body = Inl e"
  then show "e = TypeError \<and> (\<exists>b \<in> set (iter_blocks_with_cache_control body). \<not> hashable (pget b ''type''))"
    by (auto simp: found_retentions_def sum_bind_Inl_iff retention_for_block_Inl dest!: sum_map_list_Inl)
next
  assume r: "e = TypeError \<and> (\<exists>b \<in> set (iter_blocks_with_cache_control body). \<not> hashable (pget b ''type''))"
  then obtain b where b: "b \<in> set (iter_blocks_with_cache_control body)" "retention_for_block b = Inl TypeError"
    using retention_for_block_Inl by blast
  then have "\<not> (\<exists>ys. sum_map_list retention_for_block (iter_blocks_with_cache_control body) = Inr ys)"
    unfolding sum_map_list_total [symmetric] by (metis Inl_Inr_False)
  then obtain e' where e': "sum_map_list retention_for_block (iter_blocks_with_cache_control body) = Inl e'"
    by (cases "sum_map_list retention_for_block (iter_blocks_with_cache_control body)") auto
  then have "e' = TypeError"
    using sum_map_list_Inl [OF e'] retention_for_block_Inl by blast
  with e' r show "found_retentions body = Inl e" by (simp add: found_retentions_def)
qed

lemma scan_anthropic_Inl: "scan_anthropic body = Inl e \<longleftrightarrow> found_retentions body = Inl e"
  by (cases "found_retentions body") (auto simp: scan_anthropic_def split: list.split)

section \<open>Properties\<close>


text \<open>C27. Parsing fails in exactly one case: some block that carries \<open>cache_control\<close> has a list
  or dictionary as its \<open>type\<close>; then the set-membership test raises \<open>TypeError\<close>. On every
  other body, malformed or not, hints are returned.\<close>

theorem parse_cache_hints_raises_iff:
  "parse_cache_hints v = Inl e \<longleftrightarrow>
     e = TypeError \<and> (\<exists>body. v = PDict body \<and>
       (\<exists>b. b \<in> set (iter_blocks_with_cache_control body) \<and> \<not> hashable (pget b ''type'')))"
proof (cases v)
  case (PDict body)
  have "parse_cache_hints (PDict body) = Inl e \<longleftrightarrow> scan_anthropic body = Inl e"
    by (cases "scan_anthropic body") (auto simp: parse_cache_hints_def Let_def split: list.splits)
  then show ?thesis
    using PDict by (auto simp: scan_anthropic_Inl found_retentions_Inl)
qed (auto simp: parse_cache_hints_def)

text \<open>A body whose only non-text content is a \<open>video_url\<close> block counts as text.\<close>

lemma video_url_not_detected:
  "\<not> detect_multimodal [(''messages'', PList [PDict [(''role'', PStr ''user''),
     (''content'', PList [PDict [(''type'', PStr ''video_url''),
        (''video_url'', PDict [(''url'', PStr ''http://x/v.mp4'')])]])]])]"
  by code_simp


end
