(* ===== verification/Policy.thy ===== *)
theory Policy
  imports Worker_Pool Cache_Control
begin

text \<open>
  The routing-policy interface of \<open>src/infera/router/policy/base.py\<close> as a locale, with the
  round-robin policy of \<open>round_robin.py\<close> and the session-affinity wrapper of
  \<open>session_affinity.py\<close>. A policy's \<open>pick_targets\<close> is a function of its state that returns
  the target and block list, or the exception, together with the new state; the clock reading
  of a pick is an argument.
\<close>

section \<open>Requests\<close>

text \<open>What policies read of a request: the JSON body, the cache hints and the session headers
  the server attached to it, and the model name as \<open>str(request.get("model") or "")\<close>.\<close>

record router_request =
  req_body :: pyval
  req_hints :: "CacheHints option"
  req_headers :: "(string, string) dict"
  req_model :: string

type_synonym pick_result = "py_error + RouteTarget \<times> int list"

section \<open>The interface\<close>

text \<open>A policy answers every well-formed request over a non-empty target list, and only ever
  with one of the targets it was given.\<close>

locale routing_policy =
  fixes pick_targets :: "'s \<Rightarrow> RouteTarget list \<Rightarrow> router_request \<Rightarrow> string option \<Rightarrow> pick_result \<times> 's"
    and req_ok :: "router_request \<Rightarrow> bool"
  assumes pick_answers:
    "req_ok r \<Longrightarrow> ts \<noteq> [] \<Longrightarrow> \<exists>t bl s'. pick_targets s ts r role = (Inr (t, bl), s')"
    and pick_member:
    "pick_targets s ts r role = (Inr (t, bl), s') \<Longrightarrow> t \<in> set ts"
begin

lemma pick_some:
  assumes "req_ok r" and "ts \<noteq> []"
  shows "\<exists>t bl s'. pick_targets s ts r role = (Inr (t, bl), s') \<and> t \<in> set ts"
  using pick_answers [OF assms] pick_member by blast

lemma pick_candidate:
  assumes "req_ok r" and "ws \<noteq> []"
  shows "\<exists>t bl s'. pick_targets s (expand_targets ws) r role = (Inr (t, bl), s') \<and> worker t \<in> set ws"
proof -
  obtain t bl s' where t: "pick_targets s (expand_targets ws) r role = (Inr (t, bl), s')"
      "t \<in> set (expand_targets ws)"
    using pick_some [OF assms(1) expand_targets_nonempty [OF assms(2)]] by blast
  moreover from t(2) have "worker t \<in> set ws"
    by (auto simp: expand_targets_def dest: worker_targets_worker)
  ultimately show ?thesis by blast
qed

end

text \<open>\<open>Policy.pick\<close>: expand the candidates, then pick among the targets.\<close>

definition policy_pick ::
  "('s \<Rightarrow> RouteTarget list \<Rightarrow> router_request \<Rightarrow> string option \<Rightarrow> pick_result \<times> 's) \<Rightarrow>
   's \<Rightarrow> WorkerInfo list \<Rightarrow> router_request \<Rightarrow> string option \<Rightarrow> pick_result \<times> 's" where
  "policy_pick pick_targets s candidates r role = pick_targets s (expand_targets candidates) r role"

section \<open>Round robin\<close>

type_synonym RoundRobinPolicy = "(string list, nat) dict"

definition rr_pick_targets ::
  "RoundRobinPolicy \<Rightarrow> RouteTarget list \<Rightarrow> router_request \<Rightarrow> string option \<Rightarrow>
   pick_result \<times> RoundRobinPolicy" where
  "rr_pick_targets counters targets request role_hint =
     (let key = map route_key targets;
          idx = (case dict_get counters key of None \<Rightarrow> 0 | Some i \<Rightarrow> i);
          counters' = dict_put key (idx + 1) counters
      in if targets = [] then (Inl ZeroDivisionError, counters')
         else (Inr (targets ! (idx mod length targets), []), counters'))"

interpretation rr: routing_policy rr_pick_targets "\<lambda>_. True"
  by unfold_locales (auto simp: rr_pick_targets_def Let_def split: if_splits)

text \<open>A run of picks, each over its own pool.\<close>

fun rr_run :: "RoundRobinPolicy \<Rightarrow> (RouteTarget list \<times> router_request \<times> string option) list \<Rightarrow>
    pick_result list \<times> RoundRobinPolicy" where
  "rr_run s [] = ([], s)"
| "rr_run s ((ts, r, role) # picks) =
     (case rr_pick_targets s ts r role of
        (res, s') \<Rightarrow> (case rr_run s' picks of (rs, s'') \<Rightarrow> (res # rs, s'')))"

section \<open>Session affinity\<close>

datatype affinity_mode = AffinityPrefill | AffinityBoth

definition MAX_SESSIONS :: nat where
  "MAX_SESSIONS = 65536"

type_synonym session_key = "string \<times> string \<times> string"

record 'i session_affinity =
  inner :: 'i
  roles :: "string list"
  ttl :: real
  bindings :: "(session_key, string \<times> real) dict"

definition sa_roles :: "affinity_mode \<Rightarrow> string list" where
  "sa_roles m = (case m of AffinityPrefill \<Rightarrow> [''prefill'']
                 | AffinityBoth \<Rightarrow> [''prefill'', ''decode'', ''mixed''])"

definition make_session_affinity :: "'i \<Rightarrow> string \<Rightarrow> int \<Rightarrow> py_error + 'i session_affinity" where
  "make_session_affinity i mode ttl_seconds =
     (if mode \<noteq> ''prefill'' \<and> mode \<noteq> ''both'' then Inl ValueError
      else if \<not> (1 \<le> ttl_seconds \<and> ttl_seconds \<le> 86400) then Inl ValueError
      else Inr \<lparr>inner = i,
                roles = sa_roles (if mode = ''prefill'' then AffinityPrefill else AffinityBoth),
                ttl = of_int ttl_seconds, bindings = []\<rparr>)"

text \<open>\<open>role_hint or "mixed"\<close>.\<close>

definition role_name :: "string option \<Rightarrow> string" where
  "role_name role_hint =
     (case role_hint of None \<Rightarrow> ''mixed'' | Some r \<Rightarrow> if r = [] then ''mixed'' else r)"

definition sa_key :: "'i session_affinity \<Rightarrow> router_request \<Rightarrow> string option \<Rightarrow> session_key option" where
  "sa_key s request role_hint =
     (case dict_get (req_headers request) ''x-session-id'' of
        None \<Rightarrow> None
      | Some session \<Rightarrow>
          if session = [] \<or> role_name role_hint \<notin> set (roles s) then None
          else Some (req_model request, session, role_name role_hint))"

text \<open>Drop bindings from the least recently used end while they are idle for the TTL.\<close>

definition expire :: "real \<Rightarrow> real \<Rightarrow> (session_key, string \<times> real) dict \<Rightarrow> (session_key, string \<times> real) dict" where
  "expire t now b = dropWhile (\<lambda>(_, _, last_used). \<not> (now - last_used < t)) b"

definition sa_pick_targets ::
  "('i \<Rightarrow> RouteTarget list \<Rightarrow> router_request \<Rightarrow> string option \<Rightarrow> pick_result \<times> 'i) \<Rightarrow> real \<Rightarrow>
   'i session_affinity \<Rightarrow> RouteTarget list \<Rightarrow> router_request \<Rightarrow> string option \<Rightarrow>
   pick_result \<times> 'i session_affinity" where
  "sa_pick_targets inner_pick now s targets request role_hint =
     (case sa_key s request role_hint of
        None \<Rightarrow> (case inner_pick (inner s) targets request role_hint of (res, i) \<Rightarrow> (res, s\<lparr>inner := i\<rparr>))
      | Some key \<Rightarrow>
          let b = expire (ttl s) now (bindings s);
              bound = dict_get b key;
              pinned = (case bound of None \<Rightarrow> [] | Some (rk, _) \<Rightarrow> filter (\<lambda>t. route_key t = rk) targets);
              full = (pinned = [] \<and> bound = None \<and> \<not> length b < MAX_SESSIONS)
          in case inner_pick (inner s) (if pinned \<noteq> [] then pinned else targets) request role_hint of
               (Inl e, i) \<Rightarrow> (Inl e, s\<lparr>inner := i, bindings := b\<rparr>)
             | (Inr (target, blocks), i) \<Rightarrow>
                 (Inr (target, blocks),
                  s\<lparr>inner := i,
                    bindings := (if full then b
                                 else dict_move_to_end key (dict_put key (route_key target, now) b))\<rparr>))"

text \<open>The default \<open>("",)\<close> of the lookup makes an empty route key match a missing binding, whose
  deletion then raises.\<close>

definition sa_request_failed ::
  "'i session_affinity \<Rightarrow> string \<Rightarrow> router_request \<Rightarrow> string option \<Rightarrow> py_error + 'i session_affinity" where
  "sa_request_failed s rk request role_hint =
     (case sa_key s request role_hint of
        None \<Rightarrow> Inr s
      | Some key \<Rightarrow>
          (case dict_get (bindings s) key of
             None \<Rightarrow> if rk = [] then Inl KeyError else Inr s
           | Some (r, _) \<Rightarrow>
               if r = rk then Inr (s\<lparr>bindings := dict_del key (bindings s)\<rparr>) else Inr s))"

text \<open>The wrapper is itself a policy, whatever policy it wraps.\<close>

lemma sa_is_policy:
  assumes "routing_policy p ok"
  shows "routing_policy (sa_pick_targets p now) ok"
proof -
  have ans: "\<exists>t bl s'. p s ts r role = (Inr (t, bl), s')" if "ok r" "ts \<noteq> []" for r ts s role
    using routing_policy.pick_answers [OF assms that] .
  have mem: "t \<in> set ts" if "p s ts r role = (Inr (t, bl), s')" for s ts r role t bl s'
    using routing_policy.pick_member [OF assms that] .
  show ?thesis
  proof
    fix r ts s role
    assume "ok r" "ts \<noteq> ([] :: RouteTarget list)"
    then show "\<exists>t bl s'. sa_pick_targets p now s ts r role = (Inr (t, bl), s')"
      using ans [of r ts "inner s" role]
        ans [of r "case dict_get (expire (ttl s) now (bindings s)) (the (sa_key s r role)) of None \<Rightarrow> []
                   | Some (rk, _) \<Rightarrow> filter (\<lambda>t. route_key t = rk) ts" "inner s" role]
      by (cases "sa_key s r role") (fastforce simp: sa_pick_targets_def Let_def)+
  next
    fix s ts r role t bl s'
    assume pick: "sa_pick_targets p now s ts r role = (Inr (t, bl), s')"
    show "t \<in> set ts"
    proof (cases "sa_key s r role")
      case None
      with pick show ?thesis
        by (auto simp: sa_pick_targets_def split: prod.splits dest: mem)
    next
      case (Some key)
      let ?pinned = "case dict_get (expire (ttl s) now (bindings s)) key of None \<Rightarrow> []
        | Some (rk, _) \<Rightarrow> filter (\<lambda>t. route_key t = rk) ts"
      from Some pick obtain i where
        "p (inner s) (if ?pinned \<noteq> [] then ?pinned else ts) r role = (Inr (t, bl), i)"
        by (auto simp: sa_pick_targets_def Let_def split: prod.splits sum.splits)
      from mem [OF this] show ?thesis
        by (auto split: if_splits option.splits)
    qed
  qed
qed

text \<open>Session affinity over a policy, at one clock reading.\<close>

locale affinity_over = routing_policy +
  fixes now :: real

sublocale affinity_over \<subseteq> sa: routing_policy "sa_pick_targets pick_targets now" req_ok
  by (rule sa_is_policy) unfold_locales

interpretation rr_sa: affinity_over rr_pick_targets "\<lambda>_. True" now for now
  by unfold_locales

section \<open>Histories of the session table\<close>

datatype sa_event =
    SaPick real "RouteTarget list" router_request "string option"
  | SaFail real string router_request "string option"

fun sa_step ::
  "('i \<Rightarrow> RouteTarget list \<Rightarrow> router_request \<Rightarrow> string option \<Rightarrow> pick_result \<times> 'i) \<Rightarrow>
   'i session_affinity \<Rightarrow> sa_event \<Rightarrow> 'i session_affinity" where
  "sa_step p s (SaPick now ts r role) = snd (sa_pick_targets p now s ts r role)"
| "sa_step p s (SaFail now rk r role) =
     (case sa_request_failed s rk r role of Inl _ \<Rightarrow> s | Inr s' \<Rightarrow> s')"

fun sa_time :: "sa_event \<Rightarrow> real" where
  "sa_time (SaPick now _ _ _) = now"
| "sa_time (SaFail now _ _ _) = now"

fun sa_event_key :: "'i session_affinity \<Rightarrow> sa_event \<Rightarrow> session_key option" where
  "sa_event_key s (SaPick _ _ r role) = sa_key s r role"
| "sa_event_key s (SaFail _ _ r role) = sa_key s r role"

lemma touch_eq: "dict_move_to_end k (dict_put k v d) = dict_del k d @ [(k, v)]"
proof -
  have "dict_del k (dict_put k v d) = dict_del k d" by (induction d) auto
  then show ?thesis by (simp add: dict_move_to_end_def dict_get_put)
qed

lemma expire_keeps:
  assumes "dict_get b k = Some (rk, t0)" and "now - t0 < t"
  shows "dict_get (expire t now b) k = Some (rk, t0)"
  using assms by (induction b) (auto simp: expire_def split: if_splits)

lemma expire_get:
  assumes "dict_wf b" and "dict_get (expire t now b) k = Some v"
  shows "dict_get b k = Some v"
proof -
  have "(k, v) \<in> set b"
    using map_of_SomeD [OF assms(2)] set_dropWhileD by (fastforce simp: expire_def)
  with assms(1) show ?thesis by simp
qed

text \<open>The bindings after a pick with a key.\<close>

lemma sa_pick_bindings:
  assumes "sa_key s r role = Some key"
  shows "bindings (snd (sa_pick_targets p now s ts r role)) \<in>
    (let b = expire (ttl s) now (bindings s) in
     {b} \<union> {dict_del key b @ [(key, v, now)] | v. dict_get b key \<noteq> None \<or> length b < MAX_SESSIONS})"
  using assms
  by (auto simp: sa_pick_targets_def Let_def touch_eq split: prod.splits sum.splits option.splits)

lemma sa_step_config [simp]:
  "ttl (sa_step p s ev) = ttl s \<and> roles (sa_step p s ev) = roles s"
  by (cases ev)
     (auto simp: sa_pick_targets_def sa_request_failed_def Let_def
           split: prod.splits sum.splits option.splits)

lemma sa_run_config:
  "ttl (foldl (sa_step p) s evs) = ttl s \<and> roles (foldl (sa_step p) s evs) = roles s"
  by (induction evs rule: rev_induct) simp_all

lemma sa_key_cong: "roles s = roles s' \<Longrightarrow> sa_key s r role = sa_key s' r role"
  by (simp add: sa_key_def split: option.split)

lemma sa_step_keeps:
  assumes "dict_get (bindings s) key = Some (rk, t0)" and "sa_event_key s ev \<noteq> Some key"
    and "sa_time ev - t0 < ttl s"
  shows "dict_get (bindings (sa_step p s ev)) key = Some (rk, t0)"
proof (cases ev)
  case (SaPick now ts r role)
  show ?thesis
  proof (cases "sa_key s r role")
    case None
    then show ?thesis
      using assms SaPick by (simp add: sa_pick_targets_def split: prod.splits)
  next
    case (Some k)
    with SaPick assms(2) have "k \<noteq> key" by simp
    with sa_pick_bindings [OF Some, of p now ts] expire_keeps [OF assms(1)] assms(3) SaPick
    show ?thesis by (auto simp: Let_def dict_get_del map_add_def)
  qed
next
  case (SaFail now x r role)
  then show ?thesis
    using assms by (auto simp: sa_request_failed_def dict_get_del split: option.splits sum.splits)
qed

lemma sa_run_keeps:
  assumes "dict_get (bindings s) key = Some (rk, t0)"
    and "\<forall>ev \<in> set evs. sa_event_key s ev \<noteq> Some key \<and> sa_time ev - t0 < ttl s"
  shows "dict_get (bindings (foldl (sa_step p) s evs)) key = Some (rk, t0)"
  using assms(2)
proof (induction evs rule: rev_induct)
  case (snoc ev evs)
  let ?s = "foldl (sa_step p) s evs"
  have "sa_event_key ?s ev = sa_event_key s ev"
    using sa_run_config [of p s evs] by (cases ev) (auto intro: sa_key_cong)
  with snoc sa_step_keeps [of ?s key rk t0 ev p] sa_run_config [of p s evs] show ?case by simp
qed (use assms in simp)

text \<open>The table is ordered by last use, never ahead of the clock and within its capacity.\<close>

definition sa_inv :: "real \<Rightarrow> 'i session_affinity \<Rightarrow> bool" where
  "sa_inv now s \<longleftrightarrow> dict_wf (bindings s) \<and> sorted (map (snd \<circ> snd) (bindings s)) \<and>
     (\<forall>(_, _, lu) \<in> set (bindings s). lu \<le> now) \<and> length (bindings s) \<le> MAX_SESSIONS"

lemma sa_inv_expire:
  assumes "sa_inv t s" and "t \<le> now"
  shows "sa_inv now (s\<lparr>bindings := expire x now (bindings s)\<rparr>)"
proof -
  have "set (expire x now (bindings s)) \<subseteq> set (bindings s)"
    unfolding expire_def using set_dropWhileD by fastforce
  moreover have "length (expire x now (bindings s)) \<le> length (bindings s)"
    unfolding expire_def by (rule length_dropWhile_le)
  moreover have "\<exists>n. expire x now (bindings s) = drop n (bindings s)"
    unfolding expire_def using dropWhile_eq_drop by blast
  ultimately show ?thesis
    using assms by (fastforce simp: sa_inv_def sorted_wrt_drop distinct_drop drop_map [symmetric])
qed

lemma length_dict_del_le: "length (dict_del k d) \<le> length d"
  by (simp add: AList.delete_eq)

lemma length_dict_del_less: "dict_get d k \<noteq> None \<Longrightarrow> length (dict_del k d) < length d"
  by (induction d) (auto simp: length_dict_del_le less_Suc_eq_le)

lemma sorted_dict_del: "sorted (map f d) \<Longrightarrow> sorted (map f (dict_del k d))"
  by (induction d) (auto simp: AList.delete_eq)

lemma sa_inv_del: "sa_inv t s \<Longrightarrow> t \<le> now \<Longrightarrow> sa_inv now (s\<lparr>bindings := dict_del key (bindings s)\<rparr>)"
  using length_dict_del_le [of key "bindings s"]
  by (fastforce simp: sa_inv_def dict_wf_del sorted_dict_del set_dict_del)

lemma sa_inv_touch:
  assumes "sa_inv now s" and "dict_get (bindings s) key \<noteq> None \<or> length (bindings s) < MAX_SESSIONS"
  shows "sa_inv now (s\<lparr>bindings := dict_del key (bindings s) @ [(key, v, now)]\<rparr>)"
proof -
  have "length (dict_del key (bindings s)) < MAX_SESSIONS"
    using assms length_dict_del_le [of key "bindings s"] length_dict_del_less [of "bindings s" key]
    unfolding sa_inv_def by linarith
  moreover have "key \<notin> fst ` set (dict_del key (bindings s))"
    by (auto simp: set_dict_del)
  ultimately show ?thesis
    using sa_inv_del [OF assms(1) order_refl, of key]
    by (auto simp: sa_inv_def sorted_append)
qed

lemma sa_inv_cong: "bindings s = bindings s' \<Longrightarrow> sa_inv now s = sa_inv now s'"
  by (simp add: sa_inv_def)

lemma sa_inv_later: "sa_inv t s \<Longrightarrow> t \<le> now \<Longrightarrow> sa_inv now s"
  by (fastforce simp: sa_inv_def)

lemma sa_inv_step:
  assumes "sa_inv t s" and "t \<le> sa_time ev"
  shows "sa_inv (sa_time ev) (sa_step p s ev)"
proof (cases ev)
  case (SaPick now ts r role)
  show ?thesis
  proof (cases "sa_key s r role")
    case None
    then show ?thesis
      using SaPick sa_inv_later [OF assms]
      by (auto simp: sa_pick_targets_def sa_inv_def split: prod.splits)
  next
    case (Some key)
    let ?b = "expire (ttl s) now (bindings s)"
    have b: "sa_inv now (s\<lparr>bindings := ?b\<rparr>)"
      using SaPick assms by (intro sa_inv_expire) simp_all
    consider "bindings (sa_step p s ev) = ?b"
      | v where "bindings (sa_step p s ev) = dict_del key ?b @ [(key, v, now)]"
          "dict_get ?b key \<noteq> None \<or> length ?b < MAX_SESSIONS"
      using sa_pick_bindings [OF Some, of p now ts] SaPick unfolding Let_def by fastforce
    then show ?thesis
    proof cases
      case 1
      then show ?thesis using b SaPick sa_inv_cong [of "sa_step p s ev" "s\<lparr>bindings := ?b\<rparr>"] by simp
    next
      case (2 v)
      with sa_inv_touch [OF b, of key v] SaPick
        sa_inv_cong [of "sa_step p s ev" "s\<lparr>bindings := dict_del key ?b @ [(key, v, now)]\<rparr>"]
      show ?thesis by simp
    qed
  qed
next
  case (SaFail now rk r role)
  then show ?thesis
    using sa_inv_later [OF assms] sa_inv_del [OF assms]
    by (auto simp: sa_request_failed_def split: option.splits sum.splits)
qed

lemma sa_inv_run:
  assumes "sorted (map sa_time evs)" and "bindings s = []" and "\<forall>ev \<in> set evs. sa_time ev \<le> now"
  shows "sa_inv now (foldl (sa_step p) s evs)"
  using assms
proof (induction evs arbitrary: now rule: rev_induct)
  case (snoc ev evs)
  then have "sa_inv (sa_time ev) (foldl (sa_step p) s evs)"
    by (intro snoc.IH) (auto simp: sorted_append)
  from sa_inv_step [OF this order_refl, of p] snoc.prems(3) show ?case
    by (auto intro: sa_inv_later)
qed (simp add: sa_inv_def)

lemma expire_fresh:
  assumes "sorted (map (snd \<circ> snd) b)" and "(k, rk, lu) \<in> set (expire t now b)"
  shows "now - lu < t"
  using assms
proof (induction b)
  case (Cons x b)
  obtain k' rk' lu' where x: "x = (k', rk', lu')" by (cases x) auto
  show ?case
  proof (cases "now - lu' < t")
    case True
    with Cons.prems x have "lu' \<le> lu" by (auto simp: expire_def)
    with True show ?thesis by simp
  qed (use Cons x in \<open>auto simp: expire_def\<close>)
qed (simp add: expire_def)

section \<open>Properties\<close>

text \<open>C28. Round robin is fair per pool: in any interleaving of picks over any number of pools,
  the j-th pick over a given pool is its target j modulo the pool size, whatever happens on
  the other pools in between.\<close>

theorem round_robin_rotates_each_pool:
  assumes "rr_run [] picks = (rs, s)" and "ts \<noteq> []"
    and "\<forall>ts' \<in> set (map fst picks). map route_key ts' = map route_key ts \<longrightarrow> ts' = ts"
  shows "map snd (filter (\<lambda>(pk, _). fst pk = ts) (zip picks rs)) =
    map (\<lambda>j. Inr (ts ! (j mod length ts), [])) [0..<length (filter (\<lambda>pk. fst pk = ts) picks)]"
proof -
  have "map snd (filter (\<lambda>(pk, _). fst pk = ts) (zip picks rs)) =
      map (\<lambda>j. Inr (ts ! (j mod length ts), []))
        [c..<c + length (filter (\<lambda>pk. fst pk = ts) picks)]"
    if "rr_run s0 picks = (rs, s)" "c = (case dict_get s0 (map route_key ts) of None \<Rightarrow> 0 | Some i \<Rightarrow> i)"
    for s0 c
    using that assms(3)
  proof (induction picks arbitrary: s0 c rs)
    case (Cons pk picks)
    obtain ts' r role where pk: "pk = (ts', r, role)" by (cases pk)
    obtain res s1 rs' where run: "rr_pick_targets s0 ts' r role = (res, s1)" "rr_run s1 picks = (rs', s)"
        "rs = res # rs'"
      using Cons.prems(1) pk by (auto split: prod.splits)
    let ?c = "case dict_get s1 (map route_key ts) of None \<Rightarrow> 0 | Some i \<Rightarrow> i"
    have IH: "map snd (filter (\<lambda>(pk, _). fst pk = ts) (zip picks rs')) =
        map (\<lambda>j. Inr (ts ! (j mod length ts), [])) [?c..<?c + length (filter (\<lambda>pk. fst pk = ts) picks)]"
      using Cons.prems(3) by (intro Cons.IH [OF run(2) refl]) auto
    show ?case
    proof (cases "ts' = ts")
      case True
      with run(1) Cons.prems(2) assms(2) have "?c = Suc c" "res = Inr (ts ! (c mod length ts), [])"
        by (auto simp: rr_pick_targets_def Let_def dict_get_put)
      then show ?thesis
        using IH True pk run(3) by (simp add: upt_conv_Cons del: upt_Suc)
    next
      case False
      with Cons.prems(3) pk have "map route_key ts' \<noteq> map route_key ts" by auto
      with run(1) Cons.prems(2) have "?c = c"
        by (auto simp: rr_pick_targets_def Let_def dict_get_put split: if_splits)
      then show ?thesis using IH False pk run(3) by simp
    qed
  qed simp
  from this [OF assms(1)] show ?thesis by simp
qed

abbreviation sample_request :: router_request where
  "sample_request \<equiv>
     \<lparr>req_body = PDict [], req_hints = None, req_headers = [(''x-session-id'', ''s'')], req_model = ''m''\<rparr>"

abbreviation sample_target :: "string \<Rightarrow> RouteTarget" where
  "sample_target wid \<equiv> \<lparr>worker = sample_worker wid None, target_dp_rank = None\<rparr>"

theorem round_robin_rotates_each_pool_witness:
  "let ts = [sample_target ''a'', sample_target ''b'']; q = ([sample_target ''c''], sample_request, None);
       p = (ts, sample_request, None); picks = [p, q, p, q, p]
   in map snd (filter (\<lambda>(pk, _). fst pk = ts) (zip picks (fst (rr_run [] picks)))) =
      [Inr (sample_target ''a'', []), Inr (sample_target ''b'', []), Inr (sample_target ''a'', [])]"
proof -
  let ?ts = "[sample_target ''a'', sample_target ''b'']"
  let ?q = "([sample_target ''c''], sample_request, None :: string option)"
  let ?p = "(?ts, sample_request, None :: string option)"
  let ?picks = "[?p, ?q, ?p, ?q, ?p]"
  obtain rs s where "rr_run [] ?picks = (rs, s)" by (cases "rr_run [] ?picks")
  from round_robin_rotates_each_pool [OF this, of ?ts] this show ?thesis
    by (simp add: upt_rec route_key_def Let_def)
qed

text \<open>C29. Sessions stick: once a session is bound to a target, its next request within the TTL
  goes to that target whenever it is still a candidate, whatever requests and failures of
  other sessions the router handles in between, and over any wrapped policy that picks
  among the targets it is given; the request renews the binding.\<close>

theorem session_sticks_to_target:
  assumes "routing_policy p ok"
    and "dict_get (bindings s) key = Some (rk, t0)"
    and "\<forall>ev \<in> set evs. sa_event_key s ev \<noteq> Some key \<and> sa_time ev - t0 < ttl s"
    and "sa_key s r role = Some key" and "now - t0 < ttl s"
    and "rk \<in> set (map route_key ts)"
    and "sa_pick_targets p now (foldl (sa_step p) s evs) ts r role = (Inr (t, bl), s')"
  shows "route_key t = rk \<and> dict_get (bindings s') key = Some (rk, now)"
proof -
  let ?s = "foldl (sa_step p) s evs"
  let ?b = "expire (ttl ?s) now (bindings ?s)"
  have key: "sa_key ?s r role = Some key"
    using assms(4) sa_run_config [of p s evs] sa_key_cong by metis
  have bound: "dict_get ?b key = Some (rk, t0)"
    using expire_keeps [OF sa_run_keeps [OF assms(2,3)]] assms(5) sa_run_config [of p s evs] by simp
  let ?pinned = "filter (\<lambda>t. route_key t = rk) ts"
  have pinned: "?pinned \<noteq> []" using assms(6) by (auto simp: filter_empty_conv)
  from assms(7) key bound pinned obtain i where i: "p (inner ?s) ?pinned r role = (Inr (t, bl), i)"
      "bindings s' = dict_move_to_end key (dict_put key (route_key t, now) ?b)"
    by (auto simp: sa_pick_targets_def Let_def split: prod.splits sum.splits)
  have "t \<in> set ?pinned" using routing_policy.pick_member [OF assms(1) i(1)] .
  then show ?thesis using i(2) by (simp add: dict_get_move_to_end dict_get_put)
qed

theorem session_sticks_to_target_witness:
  "let s = \<lparr>inner = [], roles = [''mixed''], ttl = 60,
            bindings = [((''m'', ''s'', ''mixed''), (''b'', 0))]\<rparr>;
       ts = [sample_target ''a'', sample_target ''b'']
   in \<exists>t bl s'. sa_pick_targets rr_pick_targets 10 s ts sample_request None = (Inr (t, bl), s') \<and>
        route_key t = ''b''"
proof -
  let ?s = "\<lparr>inner = [], roles = [''mixed''], ttl = 60,
             bindings = [((''m'', ''s'', ''mixed''), (''b'', 0))]\<rparr>"
  let ?ts = "[sample_target ''a'', sample_target ''b'']"
  have rr: "routing_policy rr_pick_targets (\<lambda>_. True)" by unfold_locales
  obtain t bl s' where pick: "sa_pick_targets rr_pick_targets 10 ?s ?ts sample_request None = (Inr (t, bl), s')"
    using routing_policy.pick_answers [OF sa_is_policy [OF rr, of 10], where r = sample_request and ts = ?ts and s = ?s and role = None] by auto
  then have "sa_pick_targets rr_pick_targets 10 (foldl (sa_step rr_pick_targets) ?s []) ?ts sample_request None =
      (Inr (t, bl), s')" by simp
  from session_sticks_to_target [OF rr _ _ _ _ _ this, of "(''m'', ''s'', ''mixed'')" "''b''" 0] pick
  show ?thesis by (simp add: Let_def sa_key_def role_name_def route_key_def)
qed

text \<open>C30. The session table is exact about time and bounded: on a monotone clock, after any
  history and a further pick of a session, no binding in the table has been idle for the
  TTL and there are at most \<open>MAX_SESSIONS\<close> bindings.\<close>

theorem session_table_fresh_and_bounded:
  assumes "bindings s = []" and "0 < ttl s"
    and "sorted (map sa_time evs)" and "\<forall>ev \<in> set evs. sa_time ev \<le> now"
    and "sa_key s r role = Some key"
  shows "let b = bindings (snd (sa_pick_targets p now (foldl (sa_step p) s evs) ts r role)) in
    length b \<le> MAX_SESSIONS \<and> (\<forall>(_, _, last_used) \<in> set b. now - last_used < ttl s)"
proof -
  let ?s = "foldl (sa_step p) s evs" and ?s' = "foldl (sa_step p) s (evs @ [SaPick now ts r role])"
  have "sa_inv now ?s'"
    using assms by (intro sa_inv_run) (auto simp: sorted_append)
  then have len: "length (bindings ?s') \<le> MAX_SESSIONS" by (simp add: sa_inv_def)
  have "sa_inv now ?s" by (rule sa_inv_run [OF assms(3,1,4)])
  then have "sorted (map (snd \<circ> snd) (bindings ?s))" by (simp add: sa_inv_def)
  from expire_fresh [OF this]
  have fresh: "now - lu < ttl s" if "(k, rk, lu) \<in> set (expire (ttl s) now (bindings ?s))" for k rk lu
    using that by blast
  have key: "sa_key ?s r role = Some key"
    using assms(5) sa_run_config [of p s evs] sa_key_cong by metis
  have "now - lu < ttl s" if "(k, rk, lu) \<in> set (bindings ?s')" for k rk lu
  proof -
    have "(k, rk, lu) \<in> set (expire (ttl s) now (bindings ?s)) \<or> lu = now"
      using that sa_pick_bindings [OF key, of p now ts] sa_run_config [of p s evs]
      by (auto simp: Let_def set_dict_del)
    then show ?thesis using fresh [of k rk lu] assms(2) by (elim disjE) simp_all
  qed
  with len show ?thesis by (auto simp: Let_def)
qed

theorem session_table_fresh_and_bounded_witness:
  "let s = \<lparr>inner = [], roles = [''mixed''], ttl = 60, bindings = []\<rparr>;
       ts = [sample_target ''a'']
   in \<forall>(_, _, last_used) \<in> set (bindings (snd (sa_pick_targets rr_pick_targets 100
         (foldl (sa_step rr_pick_targets) s [SaPick 0 ts sample_request None]) ts sample_request None))).
        100 - last_used < 60"
  using session_table_fresh_and_bounded
    [of "\<lparr>inner = [], roles = [''mixed''], ttl = 60, bindings = []\<rparr>"
        "[SaPick 0 [sample_target ''a''] sample_request None]" 100 sample_request None
        "(''m'', ''s'', ''mixed'')" rr_pick_targets "[sample_target ''a'']"]
  by (simp add: Let_def sa_key_def role_name_def)

end
