(* ===== verification/Kv_Events.thy ===== *)
theory Kv_Events
  imports Hashing Worker_Pool
begin

text \<open>
  The router's mirror of each worker's KV cache: the event types of
  \<open>src/infera/router/kv_event/events.py\<close>, the per-worker subscription state and the handlers
  of \<open>src/infera/router/kv_event/client.py\<close>, and the broker variant of
  \<open>src/infera/router/kv_event/nats_client.py\<close>. Sockets, tasks and the msgpack decoder are
  outside the model: a subscription records which (rank, endpoint) pairs it listens on, and a
  handler takes decoded events. \<open>h\<close> is the XXH3-64 digest.
\<close>

section \<open>Events\<close>

text \<open>vLLM's \<open>ExternalBlockHash\<close> is an integer or bytes; SGLang's is an integer.\<close>

datatype ext_hash = IntHash int | BytesHash "byte list"

text \<open>A radix node reports flat ids or, under EAGLE/MTP, bigrams, for its whole length.\<close>

datatype token_ids = FlatIds "int list" | BigramIds "(int \<times> int) list"

record block_stored =
  block_hashes :: "ext_hash list"
  parent_block_hash :: "ext_hash option"
  ev_token_ids :: token_ids
  ev_block_size :: int
  lora_id :: "int option"
  medium :: "string option"
  group_idx :: "int option"
  kv_cache_spec_kind :: "string option"

datatype kv_event =
    BlockStored block_stored
  | BlockRemoved "ext_hash list"
  | AllBlocksCleared

datatype batch_type = KVEventBatch | SglangKVEventBatch

definition batch_type_for_engine :: "EngineType \<Rightarrow> batch_type" where
  "batch_type_for_engine e = (if e = VLLM \<or> e = ATOM then KVEventBatch else SglangKVEventBatch)"

section \<open>Subscription state\<close>

type_synonym decision =
  "string option \<times> int option \<times> int option \<times> int option \<times> EngineType"

record WorkerSubscription =
  sub_worker_id :: string
  sub_endpoint :: string
  block_size :: int
  sub_key :: decision
  decoder :: batch_type
  multiplexed :: bool
  views :: "(int, int set) dict"
  maps :: "(int, (ext_hash, int) dict) dict"
  tasks :: "(int \<times> string) list"
  block_size_mismatch_logged :: bool
  length_mismatch_logged :: bool
  non_indexable_group_logged :: bool

type_synonym KvEventClient = "(string, WorkerSubscription) dict"

text \<open>Python's \<open>int(s)\<close> on a decimal port and \<open>s.rpartition(':')\<close>.\<close>

fun parse_digits :: "nat \<Rightarrow> string \<Rightarrow> nat option" where
  "parse_digits acc [] = Some acc"
| "parse_digits acc (c # cs) =
     (let d = of_char c in
      if 48 \<le> d \<and> d \<le> (57 :: nat) then parse_digits (acc * 10 + (d - 48)) cs else None)"

definition parse_int :: "string \<Rightarrow> py_error + int" where
  "parse_int s =
     (if s = [] then Inl ValueError
      else case parse_digits 0 s of None \<Rightarrow> Inl ValueError | Some n \<Rightarrow> Inr (int n))"

definition rpartition_colon :: "string \<Rightarrow> string \<times> string" where
  "rpartition_colon s =
     (let tail = rev (takeWhile (\<lambda>c. c \<noteq> CHR '':'') (rev s))
      in if CHR '':'' \<in> set s then (take (length s - length tail - 1) s, tail) else ([], s))"

definition offset_endpoint :: "string \<Rightarrow> int \<Rightarrow> py_error + string" where
  "offset_endpoint endpoint rank =
     (if rank = 0 then Inr endpoint
      else case rpartition_colon endpoint of (head, port) \<Rightarrow>
        sum_bind (parse_int port) (\<lambda>p. Inr (head @ '':'' @ str_of_int (p + rank))))"

fun flat_tokens :: "token_ids \<Rightarrow> int list" where
  "flat_tokens (FlatIds ts) = ts"
| "flat_tokens (BigramIds ps) = map fst ps"

definition decision_key :: "WorkerInfo \<Rightarrow> decision" where
  "decision_key w = (kv_events_endpoint w, kv_block_size w, dp_size w, dp_rank w, engine w)"

definition rank_or_zero :: "int option \<Rightarrow> int" where
  "rank_or_zero rank = (case rank of None \<Rightarrow> 0 | Some r \<Rightarrow> r)"

text \<open>\<open>view_for\<close> and \<open>map_for\<close>: the value and, as \<open>setdefault\<close> does, its entry created.\<close>

definition view_for :: "WorkerSubscription \<Rightarrow> int option \<Rightarrow> int set" where
  "view_for sub rank =
     (case dict_get (views sub) (rank_or_zero rank) of None \<Rightarrow> {} | Some v \<Rightarrow> v)"

definition map_for :: "WorkerSubscription \<Rightarrow> int option \<Rightarrow> (ext_hash, int) dict" where
  "map_for sub rank =
     (case dict_get (maps sub) (rank_or_zero rank) of None \<Rightarrow> [] | Some m \<Rightarrow> m)"

definition set_rank ::
  "WorkerSubscription \<Rightarrow> int option \<Rightarrow> int set \<Rightarrow> (ext_hash, int) dict \<Rightarrow> WorkerSubscription" where
  "set_rank sub rank v m =
     sub\<lparr>views := dict_put (rank_or_zero rank) v (views sub),
         maps := dict_put (rank_or_zero rank) m (maps sub)\<rparr>"

section \<open>The fleet\<close>

definition client_worker_removed :: "KvEventClient \<Rightarrow> string \<Rightarrow> KvEventClient" where
  "client_worker_removed c wid = dict_del wid c"

definition claim :: "KvEventClient \<Rightarrow> WorkerInfo \<Rightarrow> bool \<times> KvEventClient" where
  "claim c w =
     (case dict_get c (worker_id w) of
        None \<Rightarrow> (True, c)
      | Some existing \<Rightarrow>
          if sub_key existing = decision_key w then (False, c)
          else (True, client_worker_removed c (worker_id w)))"

definition cache_view :: "KvEventClient \<Rightarrow> string \<Rightarrow> int option \<Rightarrow> int set" where
  "cache_view c wid rank =
     (case dict_get c wid of None \<Rightarrow> {} | Some sub \<Rightarrow> view_for sub rank)"

definition truthy_str :: "string option \<Rightarrow> bool" where
  "truthy_str s \<longleftrightarrow> (case s of None \<Rightarrow> False | Some t \<Rightarrow> t \<noteq> [])"

definition truthy_int :: "int option \<Rightarrow> bool" where
  "truthy_int n \<longleftrightarrow> (case n of None \<Rightarrow> False | Some k \<Rightarrow> k \<noteq> 0)"

definition fresh_sub :: "WorkerInfo \<Rightarrow> string \<Rightarrow> WorkerSubscription" where
  "fresh_sub w ep =
     \<lparr>sub_worker_id = worker_id w, sub_endpoint = ep,
      block_size = (case kv_block_size w of None \<Rightarrow> 0 | Some n \<Rightarrow> n), sub_key = decision_key w,
      decoder = batch_type_for_engine (engine w), multiplexed = is_rank_multiplexed w,
      views = [], maps = [], tasks = [], block_size_mismatch_logged = False,
      length_mismatch_logged = False, non_indexable_group_logged = False\<rparr>"

text \<open>An exception (a port that does not parse) leaves the torn-down client behind.\<close>

definition client_worker_added :: "KvEventClient \<Rightarrow> WorkerInfo \<Rightarrow> py_error option \<times> KvEventClient" where
  "client_worker_added c w =
     (if \<not> truthy_str (kv_events_endpoint w) then (None, c)
      else case claim c w of (fresh, c') \<Rightarrow>
        if \<not> fresh then (None, c')
        else if \<not> truthy_int (kv_block_size w) then (None, c')
        else let ep = the (kv_events_endpoint w);
                 sub = fresh_sub w ep;
                 ranks = (if multiplexed sub
                          then py_range (case dp_size w of None \<Rightarrow> 0 | Some n \<Rightarrow> n) else [0])
             in case sum_map_list (\<lambda>r. sum_bind (offset_endpoint ep r) (\<lambda>e. Inr (r, e))) ranks of
                  Inl err \<Rightarrow> (Some err, c')
                | Inr ts \<Rightarrow> (None, dict_put (worker_id w) (sub\<lparr>tasks := ts\<rparr>) c'))"

text \<open>The broker client has no endpoint to gate on and opens no socket.\<close>

definition nats_worker_added :: "KvEventClient \<Rightarrow> WorkerInfo \<Rightarrow> KvEventClient" where
  "nats_worker_added c w =
     (case claim c w of (fresh, c') \<Rightarrow>
        if \<not> fresh then c'
        else if \<not> truthy_int (kv_block_size w) then c'
        else dict_put (worker_id w) (fresh_sub w ''(nats)'') c')"

section \<open>Event handlers\<close>

definition INDEXABLE_SPEC_KINDS :: "string list" where
  "INDEXABLE_SPEC_KINDS = [''full_attention'', ''mla_attention'', ''sink_full_attention'']"

definition is_indexable_group :: "WorkerSubscription \<Rightarrow> block_stored \<Rightarrow> bool \<times> WorkerSubscription" where
  "is_indexable_group sub ev =
     (case kv_cache_spec_kind ev of
        None \<Rightarrow> (True, sub)
      | Some kind \<Rightarrow>
          if kind \<in> set INDEXABLE_SPEC_KINDS then (True, sub)
          else (False, sub\<lparr>non_indexable_group_logged := True\<rparr>))"

text \<open>The indexing loop. It mutates the view and the map in place, so what it wrote before an
  exception stays.\<close>

fun store_blocks ::
  "(byte list \<Rightarrow> int) \<Rightarrow> int list \<Rightarrow> nat \<Rightarrow> bool \<Rightarrow> ext_hash list \<Rightarrow> int \<Rightarrow> int set \<Rightarrow>
   (ext_hash, int) dict \<Rightarrow> nat list \<Rightarrow> py_error option \<times> int set \<times> (ext_hash, int) dict" where
  "store_blocks h tokens bs aligned whs parent view m [] = (None, view, m)"
| "store_blocks h tokens bs aligned whs parent view m (i # is) =
     (case hash_chunk h parent (slice (i * bs) ((i + 1) * bs) tokens) of
        Inl e \<Rightarrow> (Some e, view, m)
      | Inr p \<Rightarrow> store_blocks h tokens bs aligned whs p (insert p view)
                   (if aligned then dict_put (whs ! i) p m else m) is)"

definition on_block_stored ::
  "(byte list \<Rightarrow> int) \<Rightarrow> WorkerSubscription \<Rightarrow> block_stored \<Rightarrow> int option \<Rightarrow>
   py_error option \<times> WorkerSubscription" where
  "on_block_stored h sub ev rank =
     (case is_indexable_group sub ev of (indexable, sub) \<Rightarrow>
      if \<not> indexable then (None, sub)
      else
        let view = view_for sub rank; m = map_for sub rank; sub = set_rank sub rank view m in
        case (case parent_block_hash ev of None \<Rightarrow> Some ROUTER_SEED | Some ph \<Rightarrow> dict_get m ph) of
          None \<Rightarrow> (None, sub)
        | Some parent \<Rightarrow>
            let bs = block_size sub;
                sub = (if ev_block_size ev \<noteq> 0 \<and> ev_block_size ev \<noteq> bs
                       then sub\<lparr>block_size_mismatch_logged := True\<rparr> else sub);
                tokens = flat_tokens (ev_token_ids ev);
                n = int (length tokens) div bs;
                aligned = (n = int (length (block_hashes ev)));
                sub = (if \<not> aligned then sub\<lparr>length_mismatch_logged := True\<rparr> else sub)
            in case store_blocks h tokens (nat bs) aligned (block_hashes ev) parent view m [0..<nat n] of
                 (err, view', m') \<Rightarrow> (err, set_rank sub rank view' m'))"

fun remove_hashes ::
  "int set \<Rightarrow> (ext_hash, int) dict \<Rightarrow> ext_hash list \<Rightarrow> int set \<times> (ext_hash, int) dict" where
  "remove_hashes view m [] = (view, m)"
| "remove_hashes view m (wh # whs) =
     (case dict_get m wh of
        None \<Rightarrow> remove_hashes view m whs
      | Some rh \<Rightarrow> remove_hashes (view - {rh}) (dict_del wh m) whs)"

fun handle_event ::
  "(byte list \<Rightarrow> int) \<Rightarrow> WorkerSubscription \<Rightarrow> kv_event \<Rightarrow> int option \<Rightarrow>
   py_error option \<times> WorkerSubscription" where
  "handle_event h sub (BlockStored ev) rank = on_block_stored h sub ev rank"
| "handle_event h sub (BlockRemoved whs) rank =
     (case remove_hashes (view_for sub rank) (map_for sub rank) whs of
        (v, m) \<Rightarrow> (None, set_rank sub rank v m))"
| "handle_event h sub AllBlocksCleared rank = (None, set_rank sub rank {} [])"

text \<open>The events of one decoded batch; an exception abandons the rest of it.\<close>

fun handle_batch ::
  "(byte list \<Rightarrow> int) \<Rightarrow> WorkerSubscription \<Rightarrow> kv_event list \<Rightarrow> int option \<Rightarrow>
   py_error option \<times> WorkerSubscription" where
  "handle_batch h sub [] rank = (None, sub)"
| "handle_batch h sub (ev # evs) rank =
     (case handle_event h sub ev rank of
        (Some e, sub') \<Rightarrow> (Some e, sub')
      | (None, sub') \<Rightarrow> handle_batch h sub' evs rank)"

text \<open>A batch for a worker the client does not track is dropped.\<close>

definition client_batch ::
  "(byte list \<Rightarrow> int) \<Rightarrow> KvEventClient \<Rightarrow> string \<Rightarrow> kv_event list \<Rightarrow> int option \<Rightarrow>
   py_error option \<times> KvEventClient" where
  "client_batch h c wid evs rank =
     (case dict_get c wid of
        None \<Rightarrow> (None, c)
      | Some sub \<Rightarrow> (case handle_batch h sub evs rank of (err, sub') \<Rightarrow> (err, dict_put wid sub' c)))"

text \<open>One entry of the broker's view bucket: a deletion, or a snapshot (\<open>None\<close> when it does
  not decode). A snapshot only seeds a rank whose view is missing or empty.\<close>

datatype bucket_entry = BucketDelete | BucketPut "int list option"

definition bucket_update ::
  "KvEventClient \<Rightarrow> string \<Rightarrow> int \<Rightarrow> bucket_entry \<Rightarrow> KvEventClient" where
  "bucket_update c wid rank entry =
     (case dict_get c wid of
        None \<Rightarrow> c
      | Some sub \<Rightarrow>
          (case entry of
             BucketDelete \<Rightarrow> dict_put wid (sub\<lparr>views := dict_del rank (views sub)\<rparr>) c
           | BucketPut None \<Rightarrow> c
           | BucketPut (Some snap) \<Rightarrow>
               if snap = [] then c
               else if view_for sub (Some rank) = {}
               then dict_put wid (sub\<lparr>views := dict_put rank (set snap) (views sub)\<rparr>) c
               else c))"

section \<open>Lemmas\<close>

lemma view_for_set_rank [simp]: "view_for (set_rank sub rank v m) rank = v"
  by (simp add: view_for_def set_rank_def dict_get_put)

lemma map_for_set_rank [simp]: "map_for (set_rank sub rank v m) rank = m"
  by (simp add: map_for_def set_rank_def dict_get_put)

lemma block_size_set_rank [simp]: "block_size (set_rank sub rank v m) = block_size sub"
  by (simp add: set_rank_def)

lemma view_for_latches [simp]:
  "view_for (sub\<lparr>length_mismatch_logged := b\<rparr>) rank = view_for sub rank"
  "view_for (sub\<lparr>block_size_mismatch_logged := b\<rparr>) rank = view_for sub rank"
  "map_for (sub\<lparr>length_mismatch_logged := b\<rparr>) rank = map_for sub rank"
  "map_for (sub\<lparr>block_size_mismatch_logged := b\<rparr>) rank = map_for sub rank"
  by (simp_all add: view_for_def map_for_def)

lemma dict_get_put_all:
  "dict_get (foldl (\<lambda>m (k, v). dict_put k v m) m kvs) x =
     (case dict_get (rev kvs) x of None \<Rightarrow> dict_get m x | Some v \<Rightarrow> Some v)"
  by (induction kvs arbitrary: m)
     (auto simp: dict_get_put map_add_def split: option.splits prod.splits)

lemma store_blocks_chain:
  assumes "chain h parent (map (\<lambda>i. slice (i * bs) ((i + 1) * bs) tokens) is) = Inr us"
  shows "store_blocks h tokens bs aligned whs parent view m is =
    (None, view \<union> set us,
     if aligned then foldl (\<lambda>m (k, v). dict_put k v m) m (zip (map ((!) whs) is) us) else m)"
  using assms
  by (induction "is" arbitrary: parent us view m) (auto split: sum.splits)

text \<open>What one stored event does, when it is indexable and its parent is known.\<close>

definition parent_of :: "(ext_hash, int) dict \<Rightarrow> ext_hash option \<Rightarrow> int option" where
  "parent_of m ph = (case ph of None \<Rightarrow> Some ROUTER_SEED | Some x \<Rightarrow> dict_get m x)"

abbreviation indexable_kind :: "string option \<Rightarrow> bool" where
  "indexable_kind k \<equiv> (case k of None \<Rightarrow> True | Some s \<Rightarrow> s \<in> set INDEXABLE_SPEC_KINDS)"

lemma is_indexable_group_True:
  "indexable_kind (kv_cache_spec_kind ev) \<Longrightarrow> is_indexable_group sub ev = (True, sub)"
  by (auto simp: is_indexable_group_def split: option.splits)

lemma on_block_stored_indexed:
  assumes "indexable_kind (kv_cache_spec_kind ev)"
    and "parent_of (map_for sub rank) (parent_block_hash ev) = Some parent"
    and "0 < block_size sub"
    and "chain h parent (block_list (nat (block_size sub)) (flat_tokens (ev_token_ids ev))) = Inr us"
  shows "\<exists>sub'. on_block_stored h sub ev rank = (None, sub') \<and> block_size sub' = block_size sub \<and>
    view_for sub' rank = view_for sub rank \<union> set us \<and>
    map_for sub' rank =
      (if length us = length (block_hashes ev)
       then foldl (\<lambda>m (k, v). dict_put k v m) (map_for sub rank) (zip (block_hashes ev) us)
       else map_for sub rank)"
proof -
  let ?ts = "flat_tokens (ev_token_ids ev)" and ?bs = "block_size sub"
  let ?n = "length ?ts div nat ?bs"
  have n: "int (length ?ts) div ?bs = int ?n"
    using assms(3) by (simp add: zdiv_int)
  have len: "length us = ?n"
    using length_chain [OF assms(4)] by (simp add: block_list_def)
  have "map ((!) (block_hashes ev)) [0..<?n] = block_hashes ev" if "?n = length (block_hashes ev)"
    using that by (simp add: map_nth)
  with store_blocks_chain [OF assms(4) [unfolded block_list_def]] len
  have st: "store_blocks h ?ts (nat ?bs) (?n = length (block_hashes ev)) (block_hashes ev) parent v m [0..<?n] =
    (None, v \<union> set us, if length us = length (block_hashes ev)
       then foldl (\<lambda>m (k, v). dict_put k v m) m (zip (block_hashes ev) us) else m)" for v m
    by simp
  have p: "(case parent_block_hash ev of None \<Rightarrow> Some ROUTER_SEED
      | Some ph \<Rightarrow> dict_get (map_for sub rank) ph) = Some parent"
    using assms(2) by (simp add: parent_of_def)
  show ?thesis
    unfolding on_block_stored_def is_indexable_group_True [OF assms(1)] Let_def
    using st by (simp add: p n len)
qed

text \<open>A sequence of prompt segments as the engine reports it: each segment hangs off the last
  engine hash of the one before.\<close>

abbreviation stored_segment :: "ext_hash option \<Rightarrow> int \<Rightarrow> int list \<Rightarrow> ext_hash list \<Rightarrow> block_stored" where
  "stored_segment ph bs ts whs \<equiv>
     \<lparr>block_hashes = whs, parent_block_hash = ph, ev_token_ids = FlatIds ts, ev_block_size = bs,
      lora_id = None, medium = None, group_idx = None, kv_cache_spec_kind = None\<rparr>"

fun chain_events :: "ext_hash option \<Rightarrow> int \<Rightarrow> (int list \<times> ext_hash list) list \<Rightarrow> kv_event list" where
  "chain_events ph bs [] = []"
| "chain_events ph bs ((ts, whs) # segs) =
     BlockStored (stored_segment ph bs ts whs) # chain_events (Some (last whs)) bs segs"

definition segment_ok :: "int \<Rightarrow> int list \<times> ext_hash list \<Rightarrow> bool" where
  "segment_ok bs seg \<longleftrightarrow> snd seg \<noteq> [] \<and> length (fst seg) = nat bs * length (snd seg)"

lemma handle_chain_events:
  assumes "\<forall>seg \<in> set segs. segment_ok (block_size sub) seg" and "0 < block_size sub"
    and "parent_of (map_for sub rank) ph = Some parent"
    and "chain h parent (block_list (nat (block_size sub)) (concat (map fst segs))) = Inr us"
  shows "\<exists>sub'. handle_batch h sub (chain_events ph (block_size sub) segs) rank = (None, sub') \<and>
    block_size sub' = block_size sub \<and> view_for sub' rank = view_for sub rank \<union> set us \<and>
    map_for sub' rank = foldl (\<lambda>m (k, v). dict_put k v m) (map_for sub rank) (zip (concat (map snd segs)) us)"
  using assms
proof (induction segs arbitrary: sub ph parent us)
  case Nil
  then show ?case by (auto simp: block_list_def)
next
  case (Cons seg segs)
  obtain ts whs where seg: "seg = (ts, whs)" by (cases seg)
  let ?bs = "block_size sub"
  from Cons.prems(1) seg have ok: "whs \<noteq> []" "length ts = nat ?bs * length whs"
    by (auto simp: segment_ok_def)
  with Cons.prems(2,4) seg obtain us1 us2 where
    us: "chain h parent (block_list (nat ?bs) ts) = Inr us1"
        "chain h (last (parent # us1)) (block_list (nat ?bs) (concat (map fst segs))) = Inr us2"
        "us = us1 @ us2"
    by (auto simp: block_list_append chain_append)
  have len: "length us1 = length whs"
    using length_chain [OF us(1)] ok Cons.prems(2) by (simp add: block_list_def)
  let ?m = "foldl (\<lambda>m (k, v). dict_put k v m) (map_for sub rank) (zip whs us1)"
  from on_block_stored_indexed [of "stored_segment ph ?bs ts whs" sub rank parent h us1] Cons.prems(2,3) us(1) len
  obtain s1 where s1: "on_block_stored h sub (stored_segment ph ?bs ts whs) rank = (None, s1)"
    "block_size s1 = ?bs" "view_for s1 rank = view_for sub rank \<union> set us1" "map_for s1 rank = ?m"
    by auto
  obtain us1' x whs' y where snoc: "us1 = us1' @ [x]" "whs = whs' @ [y]" "length us1' = length whs'"
    using ok(1) len by (cases us1 rule: rev_cases; cases whs rule: rev_cases) auto
  then have "parent_of (map_for s1 rank) (Some (last whs)) = Some (last (parent # us1))"
    by (simp add: parent_of_def s1(4) dict_get_put)
  from Cons.IH [OF _ _ this] Cons.prems(1,2) us(2) s1(2) obtain s2 where s2:
    "handle_batch h s1 (chain_events (Some (last whs)) ?bs segs) rank = (None, s2)"
    "block_size s2 = ?bs" "view_for s2 rank = view_for s1 rank \<union> set us2"
    "map_for s2 rank = foldl (\<lambda>m (k, v). dict_put k v m) (map_for s1 rank) (zip (concat (map snd segs)) us2)"
    by auto
  with s1 us(3) len seg show ?case by (auto simp: zip_append)
qed

lemma remove_hashes_spec:
  "remove_hashes view m whs =
     (view - {rh. \<exists>wh \<in> set whs. dict_get m wh = Some rh}, filter (\<lambda>(k, _). k \<notin> set whs) m)"
proof (induction whs arbitrary: view m)
  case (Cons wh whs)
  show ?case
  proof (cases "dict_get m wh")
    case None
    then have "filter (\<lambda>(k, _). k \<notin> set (wh # whs)) m = filter (\<lambda>(k, _). k \<notin> set whs) m"
      by (intro filter_cong) (auto simp: dict_get_None_iff image_iff)
    with None Cons show ?thesis by auto
  next
    case (Some rh)
    have "filter (\<lambda>(k, _). k \<notin> set whs) (dict_del wh m) = filter (\<lambda>(k, _). k \<notin> set (wh # whs)) m"
      by (auto simp: AList.delete_eq intro!: filter_cong)
    moreover have "view - {rh} - {r. \<exists>x \<in> set whs. dict_get (dict_del wh m) x = Some r} =
        view - {r. \<exists>x \<in> set (wh # whs). dict_get m x = Some r}"
    proof (intro set_eqI)
      fix r
      show "r \<in> view - {rh} - {r. \<exists>x \<in> set whs. dict_get (dict_del wh m) x = Some r} \<longleftrightarrow>
          r \<in> view - {r. \<exists>x \<in> set (wh # whs). dict_get m x = Some r}"
        using Some by (cases "r = rh") (auto simp: dict_get_del)
    qed
    ultimately show ?thesis
      by (simp only: remove_hashes.simps Some option.case Cons)
  qed
qed simp

lemma offset_endpoint_zero [simp]: "offset_endpoint ep 0 = Inr ep"
  by (simp add: offset_endpoint_def)

lemma parse_digits_snoc:
  "d < 10 \<Longrightarrow> parse_digits acc (cs @ [char_of (48 + d)]) =
     map_option (\<lambda>n. n * 10 + d) (parse_digits acc cs)"
  by (induction cs arbitrary: acc) (auto simp: Let_def take_bit_eq_mod)

lemma parse_digits_str_of_nat: "parse_digits 0 (str_of_nat n) = Some n"
proof (induction n rule: less_induct)
  case (less n)
  show ?case
  proof (cases "n < 10")
    case True
    then show ?thesis
      using parse_digits_snoc [of n 0 "[]"] by (subst str_of_nat.simps) simp
  next
    case False
    with less [of "n div 10"] show ?thesis
      by (subst str_of_nat.simps) (simp add: parse_digits_snoc div_mult_mod_eq)
  qed
qed

lemma colon_notin_str_of_nat: "CHR '':'' \<notin> set (str_of_nat n)"
proof (induction n rule: less_induct)
  case (less n)
  have c: "CHR '':'' \<noteq> char_of (48 + d)" if "d < 10" for d :: nat
  proof
    assume "CHR '':'' = char_of (48 + d)"
    then have "char_of (48 + d) = CHR '':''" by (rule sym)
    with that show False by (simp add: char_of_eq_iff take_bit_eq_mod)
  qed
  show ?case
  proof (cases "n < 10")
    case True
    then show ?thesis using c [of n] by (subst str_of_nat.simps) simp
  next
    case False
    then show ?thesis
      using c [of "n mod 10"] less [of "n div 10"] by (subst str_of_nat.simps) simp
  qed
qed

lemma rpartition_colon_port:
  assumes "CHR '':'' \<notin> set port"
  shows "rpartition_colon (head @ '':'' @ port) = (head, port)"
proof -
  have "takeWhile (\<lambda>c. c \<noteq> CHR '':'') (rev port @ CHR '':'' # rev head) = rev port"
    using assms by (subst takeWhile_append2) auto
  then show ?thesis by (simp add: rpartition_colon_def)
qed

lemma offset_endpoint_port:
  assumes "0 \<le> r"
  shows "offset_endpoint (head @ '':'' @ str_of_nat p) r = Inr (head @ '':'' @ str_of_nat (p + nat r))"
  using assms rpartition_colon_port [OF colon_notin_str_of_nat, of head p]
  by (auto simp: offset_endpoint_def parse_int_def parse_digits_str_of_nat str_of_int_def nat_add_distrib)

lemma handle_batch_append:
  "handle_batch h s xs rank = (None, s') \<Longrightarrow> handle_batch h s (xs @ ys) rank = handle_batch h s' ys rank"
proof (induction xs arbitrary: s)
  case (Cons x xs)
  then show ?case
    by (cases "handle_event h s x rank"; cases "fst (handle_event h s x rank)") auto
qed simp

lemma dict_get_zip_put:
  assumes "distinct ks" and "length ks = length vs"
  shows "dict_get (foldl (\<lambda>m (k, v). dict_put k v m) [] (zip ks vs)) k = Some v \<longleftrightarrow>
    (k, v) \<in> set (zip ks vs)"
proof -
  have "distinct (map fst (rev (zip ks vs)))"
    using assms by (simp add: rev_map [symmetric])
  from map_of_eq_Some_iff [OF this, of k v] show ?thesis
    by (auto simp: dict_get_put_all split: option.splits)
qed

lemma zip_survivors:
  assumes "length ks = length vs" and "distinct vs"
  shows "set vs - {v. \<exists>k \<in> D. (k, v) \<in> set (zip ks vs)} = {vs ! i | i. i < length vs \<and> ks ! i \<notin> D}"
proof -
  have "(\<exists>k \<in> D. (k, vs ! i) \<in> set (zip ks vs)) \<longleftrightarrow> ks ! i \<in> D" if "i < length vs" for i
    using that assms by (auto simp: in_set_zip nth_eq_iff_index_eq)
  then show ?thesis by (auto simp: set_conv_nth)
qed

lemma segments_length:
  "\<forall>seg \<in> set segs. segment_ok bs seg \<Longrightarrow>
   length (concat (map fst segs)) = nat bs * length (concat (map snd segs))"
proof (induction segs)
  case (Cons seg segs)
  then show ?case
    by (auto simp: segment_ok_def add_mult_distrib2 simp del: length_concat)
qed simp

section \<open>Properties\<close>

text \<open>C5. The router's view tracks the engine's cache: when the engine reports a prompt in any
  number of block-aligned segments, each hanging off the last block of the one before, and
  then evicts any set of those blocks, the view of a rank that started empty holds exactly
  the query-side hashes of the blocks still stored.\<close>

theorem view_tracks_engine_cache:
  assumes "view_for sub rank = {}" and "map_for sub rank = []" and "0 < block_size sub"
    and "\<forall>seg \<in> set segs. segment_ok (block_size sub) seg"
    and "distinct (concat (map snd segs))"
    and "hash_request h (concat (map fst segs)) (block_size sub) = Inr us" and "distinct us"
  shows "\<exists>sub'. handle_batch h sub
      (chain_events None (block_size sub) segs @ [BlockRemoved evicted]) rank = (None, sub') \<and>
    view_for sub' rank =
      {us ! i | i. i < length us \<and> concat (map snd segs) ! i \<notin> set evicted}"
proof -
  let ?whs = "concat (map snd segs)"
  have ch: "chain h ROUTER_SEED (block_list (nat (block_size sub)) (concat (map fst segs))) = Inr us"
    using assms(3,6) by (simp add: hash_request_chain)
  have seglen: "length (concat (map fst segs)) = nat (block_size sub) * length ?whs"
    using assms(4) by (rule segments_length)
  have len: "length us = length ?whs"
  proof -
    have "length us = nat (block_size sub) * length ?whs div nat (block_size sub)"
      using length_chain [OF ch] unfolding block_list_def length_map length_upt seglen by (simp only: minus_nat.diff_0)
    then show ?thesis using assms(3) by (simp only: nonzero_mult_div_cancel_left zero_less_nat_eq neq0_conv)
  qed
  obtain s1 where s1: "handle_batch h sub (chain_events None (block_size sub) segs) rank = (None, s1)"
    "view_for s1 rank = set us" "map_for s1 rank = foldl (\<lambda>m (k, v). dict_put k v m) [] (zip ?whs us)"
    using handle_chain_events [OF assms(4,3) _ ch, of rank None]
    unfolding assms(1,2) parent_of_def option.case Un_empty_left by blast
  have get: "dict_get (map_for s1 rank) wh = Some rh \<longleftrightarrow> (wh, rh) \<in> set (zip ?whs us)" for wh rh
    unfolding s1(3) by (rule dict_get_zip_put [OF assms(5) len [symmetric]])
  let ?v = "set us - {rh. \<exists>wh \<in> set evicted. (wh, rh) \<in> set (zip ?whs us)}"
  have "handle_batch h sub (chain_events None (block_size sub) segs @ [BlockRemoved evicted]) rank =
      (None, set_rank s1 rank ?v (filter (\<lambda>(k, _). k \<notin> set evicted) (map_for s1 rank)))"
    unfolding handle_batch_append [OF s1(1)] handle_batch.simps handle_event.simps
      remove_hashes_spec s1(2) get prod.case option.case by (rule refl)
  moreover have "?v = {us ! i | i. i < length us \<and> ?whs ! i \<notin> set evicted}"
    by (rule zip_survivors [OF len [symmetric] assms(7)])
  ultimately show ?thesis
    by (intro exI conjI) (assumption, simp only: view_for_set_rank)
qed

text \<open>A small digest for the witnesses.\<close>

abbreviation digest :: "byte list \<Rightarrow> int" where
  "digest b \<equiv> le_int b mod 65521"

abbreviation sample_sub :: WorkerSubscription where
  "sample_sub \<equiv> fresh_sub (sample_worker ''a:1'' None) ''tcp://h:5557''"

theorem view_tracks_engine_cache_witness:
  "\<exists>sub'. handle_batch digest sample_sub
      (chain_events None 2 [([7, 8], [IntHash 1]), ([9, 10], [IntHash 2])] @ [BlockRemoved [IntHash 2]])
      None = (None, sub') \<and> 12059 \<in> view_for sub' None \<and> 39789 \<notin> view_for sub' None"
proof -
  let ?segs = "[([7, 8], [IntHash 1]), ([9, 10], [IntHash 2])] :: (int list \<times> ext_hash list) list"
  have bs: "block_size sample_sub = 2" by (simp add: fresh_sub_def)
  have hr: "hash_request digest (concat (map fst ?segs)) 2 = Inr [12059, 39789]" by code_simp
  have "\<exists>sub'. handle_batch digest sample_sub
      (chain_events None (block_size sample_sub) ?segs @ [BlockRemoved [IntHash 2]]) None = (None, sub') \<and>
    view_for sub' None =
      {[12059, 39789] ! i | i. i < length [12059, 39789 :: int] \<and> concat (map snd ?segs) ! i \<notin> set [IntHash 2]}"
    by (rule view_tracks_engine_cache)
       (simp_all add: bs hr [simplified], simp_all add: view_for_def map_for_def fresh_sub_def segment_ok_def)
  then show ?thesis
    unfolding bs by (force simp: less_Suc_eq nth_Cons')
qed

text \<open>C24. A block indexed from a stored event whose hash count disagrees with its token span is
  never forgotten by block removals. On a rank whose hash map is empty, and for an event that starts a
  prompt (no parent hash), the hashes it adds to the view stay there whatever engine hashes the worker
  later reports as removed, so such blocks keep being reported as cached after their eviction. With a
  map that is not empty a removal can drop such a block, when an earlier aligned event has tied one of
  the removed engine hashes to the same router hash.\<close>

theorem unaligned_blocks_survive_removal:
  assumes "map_for sub rank = []" and "0 < block_size sub" and "indexable_kind (kv_cache_spec_kind ev)"
    and "parent_block_hash ev = None"
    and "hash_request h (flat_tokens (ev_token_ids ev)) (block_size sub) = Inr us"
    and "length us \<noteq> length (block_hashes ev)"
  shows "\<exists>sub'. handle_batch h sub (BlockStored ev # map BlockRemoved removals) rank = (None, sub') \<and>
    set us \<subseteq> view_for sub' rank"
proof -
  have "\<exists>s'. handle_batch h s (map BlockRemoved removals) rank = (None, s') \<and> V \<subseteq> view_for s' rank"
    if "map_for s rank = []" "V \<subseteq> view_for s rank" for s V
    using that by (induction removals arbitrary: s) (auto simp: remove_hashes_spec)
  moreover obtain s1 where "on_block_stored h sub ev rank = (None, s1)" "set us \<subseteq> view_for s1 rank"
      "map_for s1 rank = []"
    using on_block_stored_indexed [of ev sub rank ROUTER_SEED h us] assms
    by (auto simp: parent_of_def hash_request_chain)
  ultimately show ?thesis by simp
qed

theorem unaligned_blocks_survive_removal_witness:
  "\<exists>sub'. handle_batch digest sample_sub
     (BlockStored (stored_segment None 2 [7, 8, 9, 10] [IntHash 2]) # map BlockRemoved [[IntHash 2]]) None =
       (None, sub') \<and> {12059, 39789} \<subseteq> view_for sub' None"
proof -
  have hr: "hash_request digest [7, 8, 9, 10] 2 = Inr [12059, 39789]" by code_simp
  have "\<exists>sub'. handle_batch digest sample_sub
     (BlockStored (stored_segment None 2 [7, 8, 9, 10] [IntHash 2]) # map BlockRemoved [[IntHash 2]]) None =
       (None, sub') \<and> set [12059, 39789] \<subseteq> view_for sub' None"
    by (rule unaligned_blocks_survive_removal) (simp_all add: hr fresh_sub_def map_for_def)
  then show ?thesis by simp
qed

text \<open>C25. What a registration does to a worker's view, for every registration. Without an endpoint, or
  when the worker describes itself exactly as its live subscription does, nothing changes, so an old
  view stays. Any other registration leaves an empty view on every rank: with a fresh subscription when
  it has a block size and its ports parse, with none otherwise. No other worker's subscription
  changes.\<close>

theorem re_registration_drops_view:
  assumes "client_worker_added c w = (err, c')"
  shows "(if \<not> truthy_str (kv_events_endpoint w) \<or> map_option sub_key (dict_get c (worker_id w)) = Some (decision_key w)
     then err = None \<and> c' = c
     else (\<forall>rank. cache_view c' (worker_id w) rank = {}) \<and>
       (case dict_get c' (worker_id w) of
          None \<Rightarrow> \<not> truthy_int (kv_block_size w) \<or> err \<noteq> None
        | Some sub \<Rightarrow> truthy_int (kv_block_size w) \<and> err = None \<and> sub_key sub = decision_key w)) \<and>
    (\<forall>wid. wid \<noteq> worker_id w \<longrightarrow> dict_get c' wid = dict_get c wid)"
proof (cases "\<not> truthy_str (kv_events_endpoint w) \<or> map_option sub_key (dict_get c (worker_id w)) = Some (decision_key w)")
  case True
  have same: "claim c w = (False, c)" if "map_option sub_key (dict_get c (worker_id w)) = Some (decision_key w)"
    using that by (auto simp: claim_def)
  have "err = None \<and> c' = c" using True assms same by (cases "truthy_str (kv_events_endpoint w)") (simp_all add: client_worker_added_def)
  then show ?thesis using True by simp
next
  case False
  then obtain c1 where c1: "claim c w = (True, c1)" "dict_get c1 (worker_id w) = None"
      "\<forall>wid. wid \<noteq> worker_id w \<longrightarrow> dict_get c1 wid = dict_get c wid"
    by (cases "dict_get c (worker_id w)") (auto simp: claim_def client_worker_removed_def dict_get_del)
  have "c' = c1 \<and> (\<not> truthy_int (kv_block_size w) \<or> err \<noteq> None) \<or>
      truthy_int (kv_block_size w) \<and> err = None \<and>
        (\<exists>ts. c' = dict_put (worker_id w) (fresh_sub w (the (kv_events_endpoint w))\<lparr>tasks := ts\<rparr>) c1)"
    using assms c1(1) False by (auto simp: client_worker_added_def Let_def split: sum.splits if_splits)
  then show ?thesis
    unfolding if_not_P [OF False] using c1(2,3)
    by (elim disjE) (auto simp: dict_get_put cache_view_def view_for_def fresh_sub_def)
qed

theorem re_registration_drops_view_witness:
  "\<exists>c'. client_worker_added [(''a:1'', sample_sub\<lparr>views := [(0, {5})]\<rparr>)]
      (sample_worker ''a:1'' None\<lparr>kv_events_endpoint := Some ''tcp://h:9000''\<rparr>) = (None, c') \<and>
    cache_view c' ''a:1'' None = {}"
proof -
  let ?c = "[(''a:1'', sample_sub\<lparr>views := [(0, {5})]\<rparr>)]"
  let ?w = "sample_worker ''a:1'' None\<lparr>kv_events_endpoint := Some ''tcp://h:9000''\<rparr>"
  obtain c' where c': "client_worker_added ?c ?w = (None, c')"
    by (simp add: client_worker_added_def claim_def client_worker_removed_def truthy_str_def truthy_int_def
        fresh_sub_def decision_key_def is_rank_multiplexed_def Let_def)
  have k: "\<not> (\<not> truthy_str (kv_events_endpoint ?w) \<or> map_option sub_key (dict_get ?c (worker_id ?w)) = Some (decision_key ?w))"
    by (simp add: fresh_sub_def decision_key_def truthy_str_def)
  note T = re_registration_drops_view [OF c', unfolded if_not_P [OF k]]
  from T [THEN conjunct1, THEN conjunct1] c' show ?thesis by auto
qed

text \<open>A rank-multiplexed worker on \<open>head:p\<close> gets one subscriber per DP rank, rank r on port
  p + r, which is where SGLang publishes that rank's events.\<close>

theorem subscribes_every_rank:
  assumes "is_rank_multiplexed w" and "dp_size w = Some n"
    and "kv_events_endpoint w = Some (head @ '':'' @ str_of_nat p)"
    and "truthy_int (kv_block_size w)" and "dict_get c (worker_id w) = None"
  shows "\<exists>sub. client_worker_added c w = (None, dict_put (worker_id w) sub c) \<and>
    tasks sub = map (\<lambda>r. (int r, head @ '':'' @ str_of_nat (p + r))) [0..<nat n]"
proof -
  let ?ep = "head @ '':'' @ str_of_nat p"
  have "sum_map_list (\<lambda>r. sum_bind (offset_endpoint ?ep r) (\<lambda>e. Inr (r, e))) (map int rs) =
      Inr (map (\<lambda>r. (int r, head @ '':'' @ str_of_nat (p + r))) rs)" for rs
    by (induction rs) (use offset_endpoint_port in \<open>simp_all add: sum_bind.simps\<close>)
  then show ?thesis
    using assms
    by (intro exI [of _ "fresh_sub w ?ep\<lparr>tasks := map (\<lambda>r. (int r, head @ '':'' @ str_of_nat (p + r))) [0..<nat n]\<rparr>"])
       (simp add: client_worker_added_def claim_def truthy_str_def Let_def fresh_sub_def py_range_def)
qed

theorem subscribes_every_rank_witness:
  "\<exists>sub. client_worker_added [] (sample_worker ''a:1'' (Some 2)) = (None, [(''a:1'', sub)]) \<and>
    tasks sub = [(0, ''tcp://h:5557''), (1, ''tcp://h:5558'')]"
proof -
  have "str_of_nat 5557 = ''5557''" "str_of_nat 5558 = ''5558''"
    by (simp_all add: str_of_nat.simps char_of_def bit_Suc_0_iff)
  moreover have "[0..<nat 2] = [0, 1]" by (simp add: upt_rec)
  ultimately show ?thesis
    using subscribes_every_rank [of "sample_worker ''a:1'' (Some 2)" 2 "''tcp://h''" 5557 "[]"]
    by (simp add: is_rank_multiplexed_def truthy_int_def)
qed

end
