(* ===== verification/Render_Variant.thy ===== *)
theory Render_Variant
  imports Cache_Control "HOL-Library.List_Lexorder" "HOL-Library.Char_ord"
begin

text \<open>
  Server-side template defaults: \<open>RenderVariant\<close> and \<open>VariantRegistry\<close> of
  \<open>src/infera/router/kv_event/render_variant.py\<close>. \<open>dumps\<close> stands for the bytes of
  \<open>json.dumps(v, separators=(",", ":"), sort_keys=True)\<close> and \<open>h\<close> for XXH3-64. The registry's
  lock only serialises its one-line operations.
\<close>

unbundle bit_operations_syntax

section \<open>Variants\<close>

text \<open>The sorted keyword arguments; the id is a function of them.\<close>

type_synonym RenderVariant = "(string, pyval) dict"

definition make_variant :: "(string, pyval) dict option \<Rightarrow> RenderVariant" where
  "make_variant kwargs = (case kwargs of None \<Rightarrow> [] | Some d \<Rightarrow> sort_key fst d)"

definition from_default_chat_template_kwargs :: "pyval \<Rightarrow> RenderVariant" where
  "from_default_chat_template_kwargs v =
     make_variant (case v of PDict d \<Rightarrow> Some d | _ \<Rightarrow> None)"

definition compute_id :: "(byte list \<Rightarrow> int) \<Rightarrow> (pyval \<Rightarrow> byte list) \<Rightarrow> RenderVariant \<Rightarrow> int" where
  "compute_id h dumps kw =
     (if kw = [] then 0
      else h (concat (map (\<lambda>(k, v). encode k @ [0] @ dumps v @ [0]) kw)) OR 1)"

definition is_empty_variant :: "RenderVariant \<Rightarrow> bool" where
  "is_empty_variant kw \<longleftrightarrow> kw = []"

definition setdefault :: "(string, pyval) dict \<Rightarrow> string \<times> pyval \<Rightarrow> (string, pyval) dict" where
  "setdefault d item = (case dict_get d (fst item) of None \<Rightarrow> dict_put (fst item) (snd item) d | Some _ \<Rightarrow> d)"

definition variant_apply :: "RenderVariant \<Rightarrow> pyval \<Rightarrow> pyval" where
  "variant_apply kw v =
     (case v of
        PDict body \<Rightarrow>
          if kw = [] then v
          else
            (let ctk = (case pget body ''chat_template_kwargs'' of PDict d \<Rightarrow> d | _ \<Rightarrow> []);
                 ctk = foldl setdefault ctk kw;
                 out = (if pget body ''reasoning_effort'' = PNone \<and> pget ctk ''reasoning_effort'' \<noteq> PNone
                        then dict_put ''reasoning_effort'' (pget ctk ''reasoning_effort'') body else body)
             in PDict (dict_put ''chat_template_kwargs'' (PDict ctk) out))
      | _ \<Rightarrow> v)"

section \<open>The registry\<close>

record VariantRegistry =
  fleet :: RenderVariant
  per_worker :: "(string, RenderVariant) dict"
  per_worker_enabled :: bool

definition for_worker :: "VariantRegistry \<Rightarrow> string \<Rightarrow> RenderVariant" where
  "for_worker r wid =
     (if \<not> per_worker_enabled r then fleet r
      else case dict_get (per_worker r) wid of None \<Rightarrow> fleet r | Some v \<Rightarrow> v)"

definition record_variant :: "VariantRegistry \<Rightarrow> string \<Rightarrow> RenderVariant \<Rightarrow> VariantRegistry" where
  "record_variant r wid v = r\<lparr>per_worker := dict_put wid v (per_worker r)\<rparr>"

definition forget_variant :: "VariantRegistry \<Rightarrow> string \<Rightarrow> VariantRegistry" where
  "forget_variant r wid = r\<lparr>per_worker := dict_del wid (per_worker r)\<rparr>"

definition retain_variants :: "VariantRegistry \<Rightarrow> (string \<Rightarrow> bool) \<Rightarrow> VariantRegistry" where
  "retain_variants r alive = r\<lparr>per_worker := filter (\<lambda>(wid, _). alive wid) (per_worker r)\<rparr>"

section \<open>Lemmas\<close>

lemma dict_get_setdefault:
  "dict_get (setdefault d item) k =
     (case dict_get d k of None \<Rightarrow> if k = fst item then Some (snd item) else None | Some v \<Rightarrow> Some v)"
  by (auto simp: setdefault_def dict_get_put split: option.splits)

lemma dict_get_defaults:
  "dict_get (foldl setdefault d kw) k =
     (case dict_get d k of None \<Rightarrow> dict_get kw k | Some v \<Rightarrow> Some v)"
proof (induction kw arbitrary: d)
  case Nil
  then show ?case by (auto split: option.split)
next
  case (Cons item kw)
  then show ?case by (cases item) (auto simp: dict_get_setdefault split: option.splits)
qed

lemma setdefault_present: "dict_get d (fst item) \<noteq> None \<Longrightarrow> setdefault d item = d"
  by (auto simp: setdefault_def)

lemma defaults_present:
  "(\<And>k. k \<in> fst ` set kw \<Longrightarrow> dict_get d k \<noteq> None) \<Longrightarrow> foldl setdefault d kw = d"
  by (induction kw) (auto simp: setdefault_present)

lemma defaults_idem: "foldl setdefault (foldl setdefault d kw) kw = foldl setdefault d kw"
proof (rule defaults_present)
  fix k
  assume "k \<in> fst ` set kw"
  then have "dict_get kw k \<noteq> None" by (simp add: dict_get_None_iff)
  then show "dict_get (foldl setdefault d kw) k \<noteq> None"
    by (auto simp: dict_get_defaults split: option.split)
qed

lemma pget_put: "pget (dict_put k v d) k' = (if k' = k then v else pget d k')"
  by (auto simp: pget_def dict_get_put)

section \<open>Property\<close>

text \<open>Merging a worker's template defaults into a body: every template argument the client
  gave keeps its value, the others take the server default, an explicit
  \<open>reasoning_effort\<close> is never overwritten and a merged one is promoted to the top level, and
  merging twice is merging once.\<close>

theorem variant_apply_spec:
  "variant_apply kw (variant_apply kw v) = variant_apply kw v \<and>
   (case v of
      PDict body \<Rightarrow>
        kw = [] \<or>
        (\<exists>out ctk. variant_apply kw v = PDict out \<and> pget out ''chat_template_kwargs'' = PDict ctk \<and>
          dict_get ctk = (dict_get kw) ++
            dict_get (case pget body ''chat_template_kwargs'' of PDict d \<Rightarrow> d | _ \<Rightarrow> []) \<and>
          pget out ''reasoning_effort'' =
            (if pget body ''reasoning_effort'' = PNone then pget ctk ''reasoning_effort''
             else pget body ''reasoning_effort''))
    | _ \<Rightarrow> variant_apply kw v = v)"
proof (cases v)
  case (PDict body)
  show ?thesis
  proof (cases "kw = []")
    case True
    with PDict show ?thesis by (simp add: variant_apply_def)
  next
    case False
    define c where "c = (case pget body ''chat_template_kwargs'' of PDict d \<Rightarrow> d | _ \<Rightarrow> [])"
    define ctk where "ctk = foldl setdefault c kw"
    define out where "out = (if pget body ''reasoning_effort'' = PNone \<and> pget ctk ''reasoning_effort'' \<noteq> PNone
      then dict_put ''reasoning_effort'' (pget ctk ''reasoning_effort'') body else body)"
    define res where "res = dict_put ''chat_template_kwargs'' (PDict ctk) out"
    have app: "variant_apply kw v = PDict res"
      using PDict False by (simp add: variant_apply_def Let_def c_def ctk_def out_def res_def)
    have ctk: "pget res ''chat_template_kwargs'' = PDict ctk"
      by (simp add: res_def pget_put)
    have eff: "pget res ''reasoning_effort'' =
        (if pget body ''reasoning_effort'' = PNone then pget ctk ''reasoning_effort''
         else pget body ''reasoning_effort'')"
      by (auto simp: res_def out_def pget_put)
    have "dict_get ctk = dict_get kw ++ dict_get c"
      by (auto simp: ctk_def dict_get_defaults map_add_def split: option.splits)
    moreover have "variant_apply kw (PDict res) = PDict (dict_put ''chat_template_kwargs'' (PDict ctk) res)"
      using False ctk eff
      by (simp add: variant_apply_def Let_def defaults_idem [folded ctk_def] ctk_def [symmetric])
         (simp add: ctk_def defaults_idem)
    moreover have "dict_put ''chat_template_kwargs'' (PDict ctk) res = res"
      by (simp add: res_def)
    ultimately show ?thesis
      using app ctk eff PDict by (auto simp: c_def)
  qed
qed (simp_all add: variant_apply_def)

end
