(* ===== verification/Kv_Policy.thy ===== *)
theory Kv_Policy
  imports Policy Kv_Events Render_Variant "HOL-Library.Multiset"
begin

text \<open>
  The KV-event-aware policy of \<open>src/infera/router/policy/kv_event_aware.py\<close>. Tokenising and
  hashing a body for an engine (\<open>BlockHasher.hash_for\<close>), the Responses-to-chat normalisation
  (which calls into SGLang) and \<open>json.dumps\<close> are fields of a \<open>hash_env\<close> the operations take;
  Python floats are reals. Metrics and logging are left out.
\<close>

section \<open>State\<close>

record hash_env =
  xxh3 :: "byte list \<Rightarrow> int"
  dumps :: "pyval \<Rightarrow> byte list"
  normalised :: "pyval \<Rightarrow> pyval"
  hash_for :: "pyval \<Rightarrow> int \<Rightarrow> EngineType \<Rightarrow> int list"

record KvEventAwarePolicy =
  ka_kv :: KvEventClient
  ka_variants :: VariantRegistry
  w_mixed :: real
  w_prefill :: real
  w_decode :: real
  active_block_refs :: "(string, (int, int) dict) dict"
  recent_blocks :: "(string, real) dict"
  mm_affinity :: "(string, int list) dict"
  parity_pending :: "(string, nat) dict"
  parity_labels :: "(string, string) dict"
  parity_verdict :: "(string, bool option) dict"
  parity_identity :: "(string, decision) dict"
  parity_epoch :: nat

definition make_kv_aware ::
  "KvEventClient \<Rightarrow> VariantRegistry \<Rightarrow> real \<Rightarrow> real option \<Rightarrow> real option \<Rightarrow> KvEventAwarePolicy" where
  "make_kv_aware client variants overlap_weight prefill decode =
     \<lparr>ka_kv = client, ka_variants = variants, w_mixed = overlap_weight,
      w_prefill = (case prefill of None \<Rightarrow> overlap_weight | Some x \<Rightarrow> x),
      w_decode = (case decode of None \<Rightarrow> overlap_weight | Some x \<Rightarrow> x),
      active_block_refs = [], recent_blocks = [], mm_affinity = [], parity_pending = [],
      parity_labels = [], parity_verdict = [], parity_identity = [], parity_epoch = 0\<rparr>"

definition LONG_RETENTION_AMPLIFIER :: real where "LONG_RETENTION_AMPLIFIER = 2"
definition NONE_RETENTION_DAMPENER :: real where "NONE_RETENTION_DAMPENER = 1 / 10"
definition MM_AFFINITY_CAP :: nat where "MM_AFFINITY_CAP = 256"
definition MM_IMAGE_BLOCK_WEIGHT :: real where "MM_IMAGE_BLOCK_WEIGHT = 48"
definition RECENT_DECAY :: real where "RECENT_DECAY = 97 / 100"
definition UNKNOWN_COST_BLOCKS :: real where "UNKNOWN_COST_BLOCKS = 1"

section \<open>Weights and hints\<close>

definition base_weight_for :: "KvEventAwarePolicy \<Rightarrow> string option \<Rightarrow> real" where
  "base_weight_for s role_hint =
     (if role_hint = Some ''prefill'' then w_prefill s
      else if role_hint = Some ''decode'' then w_decode s else w_mixed s)"

definition retention_amplifier :: "CacheHints \<Rightarrow> real" where
  "retention_amplifier hints =
     (if retention hints = LONG then LONG_RETENTION_AMPLIFIER
      else if retention hints = NONE \<and> explicit_hint_seen hints then NONE_RETENTION_DAMPENER
      else 1)"

definition hints_for_hashed_body :: "router_request \<Rightarrow> pyval \<Rightarrow> py_error + CacheHints" where
  "hints_for_hashed_body request base =
     sum_bind (parse_cache_hints base) (\<lambda>parsed.
       case req_hints request of
         None \<Rightarrow> Inr parsed
       | Some attached \<Rightarrow>
           Inr \<lparr>retention = retention attached, session_id = session_id attached,
                explicit_hint_seen = explicit_hint_seen attached,
                has_multimodal_content = has_multimodal_content parsed\<rparr>)"

section \<open>Hashing once per engine, block size and variant\<close>

type_synonym hash_key = "EngineType \<times> int \<times> int"

definition variant_of :: "KvEventAwarePolicy \<Rightarrow> RouteTarget \<Rightarrow> RenderVariant" where
  "variant_of s t = for_worker (ka_variants s) (worker_id (worker t))"

definition key_of :: "hash_env \<Rightarrow> KvEventAwarePolicy \<Rightarrow> RouteTarget list \<Rightarrow> (string, hash_key) dict" where
  "key_of env s targets =
     foldl (\<lambda>d t. if truthy_int (kv_block_size (worker t))
                  then dict_put (route_key t)
                         (engine (worker t), the (kv_block_size (worker t)),
                          compute_id (xxh3 env) (dumps env) (variant_of s t)) d
                  else d) [] targets"

definition hashes_for ::
  "hash_env \<Rightarrow> KvEventAwarePolicy \<Rightarrow> RouteTarget list \<Rightarrow> pyval \<Rightarrow> (hash_key, int list) dict" where
  "hashes_for env s targets base =
     foldl (\<lambda>d t. case dict_get (key_of env s targets) (route_key t) of
                    None \<Rightarrow> d
                  | Some k \<Rightarrow>
                      (case dict_get d k of
                         Some _ \<Rightarrow> d
                       | None \<Rightarrow> (case k of (eng, bs, _) \<Rightarrow>
                           dict_put k (hash_for env (variant_apply (variant_of s t) base) bs eng) d)))
       [] targets"

definition blocks_of ::
  "hash_env \<Rightarrow> KvEventAwarePolicy \<Rightarrow> RouteTarget list \<Rightarrow> pyval \<Rightarrow> RouteTarget \<Rightarrow> int list" where
  "blocks_of env s targets base t =
     (case dict_get (key_of env s targets) (route_key t) of
        None \<Rightarrow> []
      | Some k \<Rightarrow> (case dict_get (hashes_for env s targets base) k of None \<Rightarrow> [] | Some bl \<Rightarrow> bl))"

section \<open>Scoring\<close>

definition cache_hits :: "KvEventClient \<Rightarrow> RouteTarget \<Rightarrow> int list \<Rightarrow> nat" where
  "cache_hits c t request_hashes =
     (if \<not> truthy_int (kv_block_size (worker t)) then 0
      else length (takeWhile (\<lambda>h. h \<in> cache_view c (worker_id (worker t)) (target_dp_rank t))
                     request_hashes))"

definition mm_hits :: "KvEventAwarePolicy \<Rightarrow> string \<Rightarrow> int list \<Rightarrow> nat" where
  "mm_hits s rk keys =
     (case dict_get (mm_affinity s) rk of
        None \<Rightarrow> 0
      | Some aff \<Rightarrow> length (filter (\<lambda>k. k \<in> set aff) keys))"

definition active :: "KvEventAwarePolicy \<Rightarrow> string \<Rightarrow> nat" where
  "active s rk = (case dict_get (active_block_refs s) rk of None \<Rightarrow> 0 | Some refs \<Rightarrow> length refs)"

definition load :: "KvEventAwarePolicy \<Rightarrow> RouteTarget \<Rightarrow> real" where
  "load s t = real (active s (route_key t)) +
     (case dict_get (recent_blocks s) (route_key t) of None \<Rightarrow> 0 | Some r \<Rightarrow> r)"

definition cost ::
  "KvEventAwarePolicy \<Rightarrow> real \<Rightarrow> real \<Rightarrow> int list \<Rightarrow> (RouteTarget \<Rightarrow> int list) \<Rightarrow> RouteTarget \<Rightarrow> real" where
  "cost s w_overlap w_mm mm_keys blocks t =
     - w_overlap * real (cache_hits (ka_kv s) t (blocks t)) +
     w_mm * (real (length mm_keys) - real (mm_hits s (route_key t) mm_keys)) + load s t"

text \<open>Python's \<open>min(xs, key=...)\<close> over pairs: the first element with the least key.\<close>

definition lex_less :: "real \<times> real \<Rightarrow> real \<times> real \<Rightarrow> bool" where
  "lex_less a b \<longleftrightarrow> fst a < fst b \<or> fst a = fst b \<and> snd a < snd b"

fun min_by :: "('a \<Rightarrow> real \<times> real) \<Rightarrow> 'a \<Rightarrow> 'a list \<Rightarrow> 'a" where
  "min_by f x [] = x"
| "min_by f x (y # ys) = min_by f (if lex_less (f y) (f x) then y else x) ys"

section \<open>Bookkeeping of a pick\<close>

definition touch_key :: "int list \<Rightarrow> int \<Rightarrow> int list" where
  "touch_key aff k = (if k \<in> set aff then filter (\<lambda>x. x \<noteq> k) aff @ [k] else aff @ [k])"

definition record_mm :: "KvEventAwarePolicy \<Rightarrow> string \<Rightarrow> int list \<Rightarrow> KvEventAwarePolicy" where
  "record_mm s rk keys =
     (if keys = [] then s
      else let aff = (case dict_get (mm_affinity s) rk of None \<Rightarrow> [] | Some a \<Rightarrow> a);
               aff = foldl touch_key aff keys
           in s\<lparr>mm_affinity := dict_put rk (drop (length aff - MM_AFFINITY_CAP) aff) (mm_affinity s)\<rparr>)"

definition decay_recent :: "(string, real) dict \<Rightarrow> (string, real) dict" where
  "decay_recent d =
     filter (\<lambda>(_, v). \<not> v < 1 / 1000) (map (\<lambda>(k, v). (k, v * RECENT_DECAY)) d)"

definition record_dispatch :: "KvEventAwarePolicy \<Rightarrow> string \<Rightarrow> nat \<Rightarrow> nat \<Rightarrow> KvEventAwarePolicy" where
  "record_dispatch s rk missed request_blocks =
     (let d = decay_recent (recent_blocks s);
          charge = (if request_blocks = 0 then UNKNOWN_COST_BLOCKS else real missed)
      in if charge \<le> 0 then s\<lparr>recent_blocks := d\<rparr>
         else s\<lparr>recent_blocks :=
                  dict_put rk ((case dict_get d rk of None \<Rightarrow> 0 | Some r \<Rightarrow> r) + charge) d\<rparr>)"

definition ka_pick_targets ::
  "hash_env \<Rightarrow> KvEventAwarePolicy \<Rightarrow> RouteTarget list \<Rightarrow> router_request \<Rightarrow> string option \<Rightarrow>
   pick_result \<times> KvEventAwarePolicy" where
  "ka_pick_targets env s targets request role_hint =
     (let base = normalised env (req_body request);
          blocks = blocks_of env s targets base
      in case hints_for_hashed_body request base of
           Inl e \<Rightarrow> (Inl e, s)
         | Inr hints \<Rightarrow>
             let amplified = base_weight_for s role_hint * retention_amplifier hints;
                 mm = has_multimodal_content hints;
                 w_overlap = (if mm then 0 else amplified);
                 mm_keys = (if mm then extract_image_keys (xxh3 env) base else []);
                 w_mm = amplified * MM_IMAGE_BLOCK_WEIGHT;
                 key = (\<lambda>t. (cost s w_overlap w_mm mm_keys blocks t, load s t))
             in case targets of
                  [] \<Rightarrow> (Inl ValueError, s)
                | t0 # ts \<Rightarrow>
                    let picked = min_by key t0 ts;
                        picked_blocks = blocks picked;
                        hits = cache_hits (ka_kv s) picked picked_blocks;
                        s = record_mm s (route_key picked) mm_keys;
                        s = record_dispatch s (route_key picked) (length picked_blocks - hits)
                              (length picked_blocks)
                    in (Inr (picked, picked_blocks), s))"

section \<open>Request lifecycle\<close>

definition inc_ref :: "(int, int) dict \<Rightarrow> int \<Rightarrow> (int, int) dict" where
  "inc_ref refs h = dict_put h ((case dict_get refs h of None \<Rightarrow> 0 | Some n \<Rightarrow> n) + 1) refs"

definition dec_ref :: "(int, int) dict \<Rightarrow> int \<Rightarrow> (int, int) dict" where
  "dec_ref refs h =
     (let rc = (case dict_get refs h of None \<Rightarrow> 0 | Some n \<Rightarrow> n) - 1
      in if rc \<le> 0 then dict_del h refs else dict_put h rc refs)"

text \<open>\<open>blocks\<close> is \<open>None\<close> or a list; both \<open>None\<close> and the empty list return at once.\<close>

definition ka_request_started :: "KvEventAwarePolicy \<Rightarrow> string \<Rightarrow> int list \<Rightarrow> KvEventAwarePolicy" where
  "ka_request_started s rk blocks =
     (if blocks = [] then s
      else let refs = (case dict_get (active_block_refs s) rk of None \<Rightarrow> [] | Some r \<Rightarrow> r)
           in s\<lparr>active_block_refs := dict_put rk (foldl inc_ref refs blocks) (active_block_refs s)\<rparr>)"

definition ka_request_finished :: "KvEventAwarePolicy \<Rightarrow> string \<Rightarrow> int list \<Rightarrow> KvEventAwarePolicy" where
  "ka_request_finished s rk blocks =
     (if blocks = [] then s
      else case dict_get (active_block_refs s) rk of
             None \<Rightarrow> s
           | Some refs \<Rightarrow>
               s\<lparr>active_block_refs := dict_put rk (foldl dec_ref refs blocks) (active_block_refs s)\<rparr>)"

section \<open>Fleet changes and the render probe\<close>

definition drop_parity_gauges :: "KvEventAwarePolicy \<Rightarrow> string \<Rightarrow> KvEventAwarePolicy" where
  "drop_parity_gauges s wid = s\<lparr>parity_labels := dict_del wid (parity_labels s)\<rparr>"

definition forget_parity :: "KvEventAwarePolicy \<Rightarrow> string \<Rightarrow> KvEventAwarePolicy" where
  "forget_parity s wid = s\<lparr>parity_verdict := dict_del wid (parity_verdict s)\<rparr>"

text \<open>Forget what was learnt from a process that is gone.\<close>

definition forget_process :: "KvEventAwarePolicy \<Rightarrow> string \<Rightarrow> KvEventAwarePolicy" where
  "forget_process s wid =
     (let s = forget_parity (drop_parity_gauges s wid) wid
      in s\<lparr>parity_pending := dict_del wid (parity_pending s),
           ka_variants := forget_variant (ka_variants s) wid\<rparr>)"

text \<open>\<open>add\<close> is the KV client's \<open>on_worker_added\<close>. The last component is the epoch of the probe
  that is spawned, if one is.\<close>

definition ka_worker_added ::
  "(KvEventClient \<Rightarrow> WorkerInfo \<Rightarrow> py_error option \<times> KvEventClient) \<Rightarrow> KvEventAwarePolicy \<Rightarrow> WorkerInfo \<Rightarrow>
   py_error option \<times> KvEventAwarePolicy \<times> nat option" where
  "ka_worker_added add s w =
     (case add (ka_kv s) w of
        (Some e, c) \<Rightarrow> (Some e, s\<lparr>ka_kv := c\<rparr>, None)
      | (None, c) \<Rightarrow>
          let s = s\<lparr>ka_kv := c\<rparr>;
              wid = worker_id w;
              previous = dict_get (parity_identity s) wid;
              settled = dict_get (parity_verdict s) wid
          in if previous = Some (decision_key w) \<and>
                (dict_get (parity_pending s) wid \<noteq> None \<or> (settled \<noteq> None \<and> settled \<noteq> Some None))
             then (None, s, None)
             else
               let s = (if previous = Some (decision_key w) then s
                        else let s = (if previous \<noteq> None then forget_process s wid else s)
                             in s\<lparr>parity_identity := dict_put wid (decision_key w) (parity_identity s)\<rparr>);
                   epoch = parity_epoch s + 1
               in (None, s\<lparr>parity_epoch := epoch,
                           parity_pending := dict_put wid epoch (parity_pending s)\<rparr>, Some epoch))"

definition release_parity :: "KvEventAwarePolicy \<Rightarrow> string \<Rightarrow> nat \<Rightarrow> KvEventAwarePolicy" where
  "release_parity s wid epoch =
     (if dict_get (parity_pending s) wid = Some epoch
      then s\<lparr>parity_pending := dict_del wid (parity_pending s)\<rparr> else s)"

definition report_render_parity ::
  "KvEventAwarePolicy \<Rightarrow> WorkerInfo \<Rightarrow> bool option \<Rightarrow> nat option \<Rightarrow> KvEventAwarePolicy" where
  "report_render_parity s w ok epoch =
     (if epoch \<noteq> None \<and> dict_get (parity_pending s) (worker_id w) \<noteq> epoch then s
      else s\<lparr>parity_pending := dict_del (worker_id w) (parity_pending s),
             parity_verdict := dict_put (worker_id w) ok (parity_verdict s),
             parity_labels := dict_put (worker_id w) (model_name w) (parity_labels s)\<rparr>)"

text \<open>A worker's own key and its per-rank keys.\<close>

definition owns_key :: "string \<Rightarrow> string \<Rightarrow> bool" where
  "owns_key wid k \<longleftrightarrow>
     k = wid \<or> take (length (wid @ ''#dp'')) k = wid @ ''#dp''"

definition drop_owned :: "string \<Rightarrow> (string, 'v) dict \<Rightarrow> (string, 'v) dict" where
  "drop_owned wid d = filter (\<lambda>(k, _). \<not> owns_key wid k) d"

definition ka_worker_removed :: "KvEventAwarePolicy \<Rightarrow> string \<Rightarrow> KvEventAwarePolicy" where
  "ka_worker_removed s wid =
     (let s = drop_parity_gauges (s\<lparr>ka_kv := client_worker_removed (ka_kv s) wid\<rparr>) wid
      in s\<lparr>ka_variants := retain_variants (ka_variants s) (\<lambda>x. x \<noteq> wid),
           active_block_refs := drop_owned wid (active_block_refs s),
           mm_affinity := drop_owned wid (mm_affinity s),
           recent_blocks := drop_owned wid (recent_blocks s),
           parity_pending := dict_del wid (parity_pending s),
           parity_verdict := dict_del wid (parity_verdict s),
           parity_identity := dict_del wid (parity_identity s)\<rparr>)"

section \<open>Lemmas\<close>

definition lex_le :: "real \<times> real \<Rightarrow> real \<times> real \<Rightarrow> bool" where
  "lex_le a b \<longleftrightarrow> \<not> lex_less b a"

lemma lex_le_trans: "lex_le a b \<Longrightarrow> lex_le b c \<Longrightarrow> lex_le a c"
  by (auto simp: lex_le_def lex_less_def)

lemma lex_le_refl [simp]: "lex_le a a"
  by (simp add: lex_le_def lex_less_def)

lemma min_by_mem: "min_by f x xs \<in> insert x (set xs)"
  by (induction xs arbitrary: x) (auto split: if_splits)

lemma min_by_le: "y \<in> insert x (set xs) \<Longrightarrow> lex_le (f (min_by f x xs)) (f y)"
proof (induction xs arbitrary: x y)
  case (Cons a xs)
  let ?x = "if lex_less (f a) (f x) then a else x"
  have "lex_le (f (min_by f ?x xs)) (f ?x)" by (intro Cons.IH) simp
  moreover have "lex_le (f ?x) (f x)" "lex_le (f ?x) (f a)"
    by (auto simp: lex_le_def lex_less_def)
  ultimately show ?case
    using Cons.prems Cons.IH [of y ?x] by (auto intro: lex_le_trans)
qed simp

lemma min_by_cong:
  "(\<And>y. y \<in> insert x (set xs) \<Longrightarrow> f y = g y) \<Longrightarrow> min_by f x xs = min_by g x xs"
  by (induction xs arbitrary: x) auto

lemma ka_pick_Inr:
  assumes "ka_pick_targets env s ts r role = (Inr (t, bl), s')"
  obtains t0 ts' hints where "ts = t0 # ts'"
    and "hints_for_hashed_body r (normalised env (req_body r)) = Inr hints"
    and "t = min_by (\<lambda>t. (cost s (if has_multimodal_content hints then 0
                else base_weight_for s role * retention_amplifier hints)
           (base_weight_for s role * retention_amplifier hints * MM_IMAGE_BLOCK_WEIGHT)
           (if has_multimodal_content hints then extract_image_keys (xxh3 env) (normalised env (req_body r)) else [])
           (blocks_of env s ts (normalised env (req_body r))) t, load s t)) t0 ts'"
    and "bl = blocks_of env s ts (normalised env (req_body r)) t"
  using assms
  by (auto simp: ka_pick_targets_def Let_def split: sum.splits list.splits)

definition ka_req_ok :: "hash_env \<Rightarrow> router_request \<Rightarrow> bool" where
  "ka_req_ok env r \<longleftrightarrow> \<not> isl (parse_cache_hints (normalised env (req_body r)))"

lemma ka_policy: "routing_policy (ka_pick_targets env) (ka_req_ok env)"
proof
  fix r ts s role
  assume ok: "ka_req_ok env r" "ts \<noteq> ([] :: RouteTarget list)"
  then obtain p where "parse_cache_hints (normalised env (req_body r)) = Inr p"
    by (cases "parse_cache_hints (normalised env (req_body r))") (auto simp: ka_req_ok_def)
  then obtain hints where "hints_for_hashed_body r (normalised env (req_body r)) = Inr hints"
    by (cases "req_hints r") (auto simp: hints_for_hashed_body_def)
  with ok(2) show "\<exists>t bl s'. ka_pick_targets env s ts r role = (Inr (t, bl), s')"
    by (cases ts) (auto simp: ka_pick_targets_def Let_def)
next
  fix s ts r role t bl s'
  assume "ka_pick_targets env s ts r role = (Inr (t, bl), s')"
  then show "t \<in> set ts"
    by (rule ka_pick_Inr) (use min_by_mem in force)
qed

interpretation ka: routing_policy "ka_pick_targets env" "ka_req_ok env" for env
  by (rule ka_policy)

interpretation ka_sa: affinity_over "ka_pick_targets env" "ka_req_ok env" now for env now
  by unfold_locales

lemma kv_independent [simp]:
  "blocks_of env (s\<lparr>ka_kv := c\<rparr>) ts base = blocks_of env s ts base"
  "load (s\<lparr>ka_kv := c\<rparr>) t = load s t"
  "mm_hits (s\<lparr>ka_kv := c\<rparr>) rk keys = mm_hits s rk keys"
  "base_weight_for (s\<lparr>ka_kv := c\<rparr>) role = base_weight_for s role"
proof -
  have v: "variant_of (s\<lparr>ka_kv := c\<rparr>) = variant_of s"
    by (rule ext) (simp add: variant_of_def)
  then have "key_of env (s\<lparr>ka_kv := c\<rparr>) ts = key_of env s ts"
    unfolding key_of_def by (simp only:)
  with v show "blocks_of env (s\<lparr>ka_kv := c\<rparr>) ts base = blocks_of env s ts base"
    unfolding blocks_of_def hashes_for_def by (simp only:)
qed (simp_all add: load_def active_def mm_hits_def base_weight_for_def)

text \<open>Reference counts against the multiset of blocks in flight.\<close>

definition refs_count :: "KvEventAwarePolicy \<Rightarrow> string \<Rightarrow> int \<Rightarrow> int" where
  "refs_count s rk h =
     (case dict_get (active_block_refs s) rk of
        None \<Rightarrow> 0
      | Some refs \<Rightarrow> (case dict_get refs h of None \<Rightarrow> 0 | Some n \<Rightarrow> n))"

text \<open>The counts in a table are those of a multiset: positive for its members, absent otherwise.\<close>

definition refs_match :: "(int, int) dict \<Rightarrow> int multiset \<Rightarrow> bool" where
  "refs_match refs M \<longleftrightarrow> dict_wf refs \<and>
     (\<forall>h. dict_get refs h = (if h \<in># M then Some (int (count M h)) else None))"

lemma refs_match_empty: "refs_match [] {#}"
  by (simp add: refs_match_def)

lemma refs_match_inc: "refs_match refs M \<Longrightarrow> refs_match (inc_ref refs h) (add_mset h M)"
  by (auto simp: refs_match_def inc_ref_def dict_get_put dict_wf_put not_in_iff split: option.splits)

lemma refs_match_dec:
  assumes "refs_match refs M" and "h \<in># M"
  shows "refs_match (dec_ref refs h) (M - {#h#})"
proof -
  have get: "dict_get refs h = Some (int (count M h))" and wf: "dict_wf refs"
    using assms by (auto simp: refs_match_def)
  have pos: "0 < count M h" using assms(2) by simp
  show ?thesis
  proof (cases "count M h = 1")
    case True
    then have "dec_ref refs h = dict_del h refs" using get by (simp add: dec_ref_def)
    then show ?thesis
      using assms(1) True wf
      by (auto simp: refs_match_def dict_get_del dict_wf_del in_diff_count)
  next
    case False
    with pos have c: "1 < count M h" by linarith
    then have "dec_ref refs h = dict_put h (int (count M h) - 1) refs"
      using get by (simp add: dec_ref_def Let_def)
    then show ?thesis
      using assms c wf
      by (auto simp: refs_match_def dict_get_put dict_wf_put in_diff_count of_nat_diff)
  qed
qed

lemma refs_match_incs: "refs_match refs M \<Longrightarrow> refs_match (foldl inc_ref refs bl) (M + mset bl)"
proof (induction bl arbitrary: refs M)
  case (Cons h bl)
  from Cons.IH [OF refs_match_inc [OF Cons.prems, of h]] show ?case by simp
qed simp

lemma refs_match_decs:
  "refs_match refs M \<Longrightarrow> mset bl \<subseteq># M \<Longrightarrow> refs_match (foldl dec_ref refs bl) (M - mset bl)"
proof (induction bl arbitrary: refs M)
  case (Cons h bl)
  then have h: "h \<in># M" and sub: "mset bl \<subseteq># M - {#h#}"
    by (auto simp: insert_subset_eq_iff)
  from Cons.IH [OF refs_match_dec [OF Cons.prems(1) h] sub] show ?case by simp
qed simp

lemma refs_match_length: "refs_match refs M \<Longrightarrow> length refs = card (set_mset M)"
proof -
  assume m: "refs_match refs M"
  have "h \<in> fst ` set refs \<longleftrightarrow> h \<in># M" for h
  proof -
    have "dict_get refs h = None \<longleftrightarrow> h \<notin># M" using m by (simp add: refs_match_def)
    then show ?thesis using dict_get_None_iff [of refs h] by (simp only: not_not) argo
  qed
  then have "fst ` set refs = set_mset M" by blast
  moreover have "card (fst ` set refs) = length refs"
    using m distinct_card [of "map fst refs"] by (simp add: refs_match_def)
  ultimately show ?thesis by simp
qed

datatype req_event = Started string "int list" | Finished string "int list"

fun req_step :: "KvEventAwarePolicy \<Rightarrow> req_event \<Rightarrow> KvEventAwarePolicy" where
  "req_step s (Started rk bl) = ka_request_started s rk bl"
| "req_step s (Finished rk bl) = ka_request_finished s rk bl"

fun spec_step :: "(string \<Rightarrow> int multiset) \<Rightarrow> req_event \<Rightarrow> (string \<Rightarrow> int multiset)" where
  "spec_step M (Started rk bl) = M(rk := M rk + mset bl)"
| "spec_step M (Finished rk bl) = M(rk := M rk - mset bl)"

text \<open>Every finished request's blocks were started and not yet finished.\<close>

fun legal :: "(string \<Rightarrow> int multiset) \<Rightarrow> req_event list \<Rightarrow> bool" where
  "legal M [] = True"
| "legal M (Started rk bl # evs) = legal (spec_step M (Started rk bl)) evs"
| "legal M (Finished rk bl # evs) = (mset bl \<subseteq># M rk \<and> legal (spec_step M (Finished rk bl)) evs)"

text \<open>The simulation relation between the policy's tables and the multisets.\<close>

definition refs_refine :: "KvEventAwarePolicy \<Rightarrow> (string \<Rightarrow> int multiset) \<Rightarrow> bool" where
  "refs_refine s M \<longleftrightarrow>
     (\<forall>rk. refs_match (case dict_get (active_block_refs s) rk of None \<Rightarrow> [] | Some r \<Rightarrow> r) (M rk))"

lemma refs_refine_started:
  "refs_refine s M \<Longrightarrow> refs_refine (ka_request_started s rk bl) (spec_step M (Started rk bl))"
  using refs_match_incs [of "case dict_get (active_block_refs s) rk of None \<Rightarrow> [] | Some r \<Rightarrow> r" "M rk" bl]
  by (auto simp: refs_refine_def ka_request_started_def dict_get_put)

lemma refs_refine_finished:
  assumes "refs_refine s M" and "mset bl \<subseteq># M rk"
  shows "refs_refine (ka_request_finished s rk bl) (spec_step M (Finished rk bl))"
proof (cases "dict_get (active_block_refs s) rk")
  case None
  then have "refs_match [] (M rk)" using assms(1) by (auto simp: refs_refine_def dest: spec [of _ rk])
  then have "M rk = {#}" using refs_match_length [of "[]" "M rk"] by simp
  then have "bl = []" using assms(2) by simp
  then show ?thesis using assms(1) by (simp add: ka_request_finished_def)
next
  case (Some refs)
  then have "refs_match refs (M rk)" using assms(1) by (auto simp: refs_refine_def dest: spec [of _ rk])
  with Some assms show ?thesis
    by (auto simp: refs_refine_def ka_request_finished_def dict_get_put intro: refs_match_decs)
qed

lemma refs_refine_run:
  "refs_refine s M \<Longrightarrow> legal M evs \<Longrightarrow> refs_refine (foldl req_step s evs) (foldl spec_step M evs)"
proof (induction evs arbitrary: s M)
  case (Cons ev evs)
  then show ?case
    by (cases ev) (auto simp del: spec_step.simps intro: refs_refine_started refs_refine_finished)
qed simp

text \<open>The decayed load.\<close>

abbreviation recent_sum :: "(string, real) dict \<Rightarrow> real" where
  "recent_sum d \<equiv> sum_list (map snd d)"

definition recent_ok :: "(string, real) dict \<Rightarrow> bool" where
  "recent_ok d \<longleftrightarrow> (\<forall>(_, v) \<in> set d. 0 \<le> v)"

lemma decay_recent_ok: "recent_ok d \<Longrightarrow> recent_ok (decay_recent d)"
  by (auto simp: recent_ok_def decay_recent_def RECENT_DECAY_def)

lemma decay_recent_sum: "recent_ok d \<Longrightarrow> recent_sum (decay_recent d) \<le> RECENT_DECAY * recent_sum d"
  by (induction d) (auto simp: recent_ok_def decay_recent_def RECENT_DECAY_def algebra_simps)

lemma recent_sum_put:
  "recent_sum (dict_put k ((case dict_get d k of None \<Rightarrow> 0 | Some r \<Rightarrow> r) + c) d) = recent_sum d + c"
  by (induction d) auto

lemma record_dispatch_recent:
  assumes "recent_ok (recent_blocks s)" and "missed \<le> n" and "real n \<le> M" and "1 \<le> M"
  shows "recent_ok (recent_blocks (record_dispatch s rk missed n)) \<and>
    recent_sum (recent_blocks (record_dispatch s rk missed n)) \<le> RECENT_DECAY * recent_sum (recent_blocks s) + M"
proof -
  let ?d = "decay_recent (recent_blocks s)"
  let ?c = "if n = 0 then UNKNOWN_COST_BLOCKS else real missed"
  have ok: "recent_ok ?d" and sum: "recent_sum ?d \<le> RECENT_DECAY * recent_sum (recent_blocks s)"
    using assms(1) decay_recent_ok decay_recent_sum by blast+
  have c: "?c \<le> M" using assms by (simp add: UNKNOWN_COST_BLOCKS_def)
  show ?thesis
  proof (cases "?c \<le> 0")
    case True
    then have "recent_blocks (record_dispatch s rk missed n) = ?d"
      by (simp add: record_dispatch_def)
    with ok sum assms(4) show ?thesis by simp
  next
    case False
    let ?v = "(case dict_get ?d rk of None \<Rightarrow> 0 | Some r \<Rightarrow> r) + ?c"
    from False have eq: "recent_blocks (record_dispatch s rk missed n) = dict_put rk ?v ?d"
      by (simp add: record_dispatch_def Let_def)
    have "0 \<le> (case dict_get ?d rk of None \<Rightarrow> 0 | Some r \<Rightarrow> r)"
      using ok by (auto simp: recent_ok_def dest!: map_of_SomeD split: option.split)
    then have "0 \<le> ?v" using False by linarith
    then have "recent_ok (dict_put rk ?v ?d)"
      using ok set_dict_put [of rk ?v ?d] by (fastforce simp: recent_ok_def)
    moreover have "recent_sum ?d + ?c \<le> RECENT_DECAY * recent_sum (recent_blocks s) + M"
      using sum c by linarith
    ultimately show ?thesis unfolding eq recent_sum_put by (rule conjI)
  qed
qed

lemma owns_route_key: "owns_key (worker_id (worker t)) (route_key t)"
proof (cases "target_dp_rank t")
  case (Some r)
  have "take (length (wid @ ''#dp'')) (wid @ ''#dp'' @ x) = wid @ ''#dp''" for wid x :: string
    by (metis append.assoc append_eq_conv_conj)
  with Some show ?thesis unfolding owns_key_def route_key_def by simp
qed (simp add: owns_key_def route_key_def)

lemma owns_key_other:
  assumes "CHR ''#'' \<notin> set wid" and "CHR ''#'' \<notin> set (worker_id (worker t))"
    and "owns_key wid (route_key t)"
  shows "worker_id (worker t) = wid"
proof -
  have "\<exists>ys. route_key t = wid @ ys \<and> takeWhile (\<lambda>c. c \<noteq> CHR ''#'') ys = []"
    using assms(3) unfolding owns_key_def
  proof
    assume "route_key t = wid"
    then show ?thesis by (intro exI [of _ "[]"]) simp
  next
    assume tk: "take (length (wid @ ''#dp'')) (route_key t) = wid @ ''#dp''"
    have "route_key t = take (length (wid @ ''#dp'')) (route_key t) @ drop (length (wid @ ''#dp'')) (route_key t)"
      by (rule append_take_drop_id [symmetric])
    then obtain zs where "route_key t = (wid @ ''#dp'') @ zs" unfolding tk by blast
    then show ?thesis by (intro exI [of _ "''#dp'' @ zs"]) simp
  qed
  then obtain ys where ys: "route_key t = wid @ ys" "takeWhile (\<lambda>c. c \<noteq> CHR ''#'') ys = []" by blast
  have "takeWhile (\<lambda>c. c \<noteq> CHR ''#'') (wid @ ys) = wid @ takeWhile (\<lambda>c. c \<noteq> CHR ''#'') ys"
    using assms(1) by (intro takeWhile_append2) auto
  then show ?thesis
    using takeWhile_route_key [OF assms(2)] unfolding ys by simp
qed

section \<open>Properties\<close>

text \<open>Inputs for the witnesses: an environment that hashes every body to the blocks 5 and 6, a
  fresh policy and a request with one image.\<close>

abbreviation sample_env :: hash_env where
  "sample_env \<equiv>
     \<lparr>xxh3 = (\<lambda>b. int (length b)), dumps = (\<lambda>_. []), normalised = (\<lambda>v. v), hash_for = (\<lambda>_ _ _. [5, 6])\<rparr>"

abbreviation sample_policy :: KvEventAwarePolicy where
  "sample_policy \<equiv> make_kv_aware [] \<lparr>fleet = [], per_worker = [], per_worker_enabled = True\<rparr> 1 None None"

abbreviation image_request :: router_request where
  "image_request \<equiv>
     sample_request\<lparr>req_body := PDict [(''messages'', PList [PDict [(''content'',
        PList [PDict [(''type'', PStr ''image_url''), (''image_url'', PStr ''http://x/i.png'')]])]])]\<rparr>"

text \<open>What the score is meant to weigh, without the code's cost function: the blocks a target is busy
  with, the work it can skip (the longest cached prefix of the prompt, or 48 blocks per image it has
  seen), and how many blocks of load one skipped block is worth.\<close>

definition warm_prefix :: "int set \<Rightarrow> int list \<Rightarrow> nat" where
  "warm_prefix view bs = Max {n. n \<le> length bs \<and> set (take n bs) \<subseteq> view}"

definition busy_blocks :: "KvEventAwarePolicy \<Rightarrow> RouteTarget \<Rightarrow> real" where
  "busy_blocks s x =
     (case dict_get (active_block_refs s) (route_key x) of None \<Rightarrow> 0 | Some refs \<Rightarrow> real (length refs)) +
     (case dict_get (recent_blocks s) (route_key x) of None \<Rightarrow> 0 | Some n \<Rightarrow> n)"

definition skipped_blocks :: "hash_env \<Rightarrow> KvEventAwarePolicy \<Rightarrow> RouteTarget list \<Rightarrow> pyval \<Rightarrow> bool \<Rightarrow> RouteTarget \<Rightarrow> real" where
  "skipped_blocks env s ts base images x =
     (if images then 48 * real (length (filter (\<lambda>k. \<exists>seen. dict_get (mm_affinity s) (route_key x) = Some seen \<and> k \<in> set seen)
                                         (extract_image_keys (xxh3 env) base)))
      else if truthy_int (kv_block_size (worker x))
      then real (warm_prefix (cache_view (ka_kv s) (worker_id (worker x)) (target_dp_rank x)) (blocks_of env s ts base x))
      else 0)"

definition block_worth :: "KvEventAwarePolicy \<Rightarrow> CacheHints \<Rightarrow> string option \<Rightarrow> real" where
  "block_worth s hints role =
     (if role = Some ''prefill'' then w_prefill s else if role = Some ''decode'' then w_decode s else w_mixed s) *
     (if retention hints = LONG then 2 else if retention hints = NONE \<and> explicit_hint_seen hints then 1 / 10 else 1)"

lemma warm_prefix_takeWhile: "warm_prefix view bs = length (takeWhile (\<lambda>h. h \<in> view) bs)"
  unfolding warm_prefix_def
proof (rule Max_eqI)
  show "finite {n. n \<le> length bs \<and> set (take n bs) \<subseteq> view}" by simp
  show "length (takeWhile (\<lambda>h. h \<in> view) bs) \<in> {n. n \<le> length bs \<and> set (take n bs) \<subseteq> view}"
    by (simp add: length_takeWhile_le takeWhile_eq_take [symmetric]) (auto dest: set_takeWhileD)
  show "n \<le> length (takeWhile (\<lambda>h. h \<in> view) bs)" if "n \<in> {n. n \<le> length bs \<and> set (take n bs) \<subseteq> view}" for n
  proof -
    have "takeWhile (\<lambda>h. h \<in> view) (take n bs @ drop n bs) = take n bs @ takeWhile (\<lambda>h. h \<in> view) (drop n bs)"
      using that by (intro takeWhile_append2) auto
    then show ?thesis using that by simp
  qed
qed

lemma load_busy: "load s x = busy_blocks s x"
  by (simp add: load_def active_def busy_blocks_def split: option.split)

lemma mm_hits_seen:
  "mm_hits s (route_key x) keys = length (filter (\<lambda>k. \<exists>seen. dict_get (mm_affinity s) (route_key x) = Some seen \<and> k \<in> set seen) keys)"
  by (simp add: mm_hits_def split: option.split)

lemma cost_weighs:
  assumes "w = block_worth s hints role"
  shows "cost s (if images then 0 else w) (w * MM_IMAGE_BLOCK_WEIGHT) (if images then extract_image_keys (xxh3 env) base else [])
      (blocks_of env s ts base) x =
    busy_blocks s x - w * skipped_blocks env s ts base images x +
      (if images then w * 48 * real (length (extract_image_keys (xxh3 env) base)) else 0)"
  by (simp add: cost_def load_busy skipped_blocks_def cache_hits_def warm_prefix_takeWhile mm_hits_seen MM_IMAGE_BLOCK_WEIGHT_def
      algebra_simps)

text \<open>C13. The picked target is the best trade of cache against load. Compared with any other target
  \<open>u\<close>, the picked one is busier by at most what it saves: the difference in busy blocks is at most the
  difference in skipped blocks times the worth of a block, and when the two are equal the picked one
  is not busier. Busy blocks are those in flight and recently dispatched; skipped blocks are the longest
  prefix of the prompt in the target's cache view or, for a request with images, 48 for each image the
  target has seen; a block is worth the weight of the role, doubled under long retention and divided by
  ten when the client opts out of caching.\<close>

theorem kv_aware_pick_is_cheapest:
  assumes "ka_pick_targets env s ts r role = (Inr (t, bl), s')"
    and "hints_for_hashed_body r (normalised env (req_body r)) = Inr hints"
    and "u \<in> set ts"
  shows "let base = normalised env (req_body r);
             saved = (\<lambda>x. block_worth s hints role * skipped_blocks env s ts base (has_multimodal_content hints) x)
         in t \<in> set ts \<and> bl = blocks_of env s ts base t \<and>
            busy_blocks s t - busy_blocks s u \<le> saved t - saved u \<and>
            (busy_blocks s t - busy_blocks s u = saved t - saved u \<longrightarrow> busy_blocks s t \<le> busy_blocks s u)"
proof -
  have t: "t \<in> set ts" by (rule ka.pick_member [OF assms(1)])
  have w: "base_weight_for s role * retention_amplifier hints = block_worth s hints role"
    by (simp add: block_worth_def base_weight_for_def retention_amplifier_def LONG_RETENTION_AMPLIFIER_def NONE_RETENTION_DAMPENER_def)
  show ?thesis
  proof (rule ka_pick_Inr [OF assms(1)], goal_cases)
    case (1 t0 ts' hints')
    from assms(2) 1(2) have h: "hints' = hints" by simp
    have u: "u \<in> insert t0 (set ts')" using assms(3) 1(1) by simp
    let ?k = "\<lambda>t. (cost s (if has_multimodal_content hints then 0 else block_worth s hints role)
        (block_worth s hints role * MM_IMAGE_BLOCK_WEIGHT)
        (if has_multimodal_content hints then extract_image_keys (xxh3 env) (normalised env (req_body r)) else [])
        (blocks_of env s ts (normalised env (req_body r))) t, load s t)"
    have tt: "t = min_by ?k t0 ts'" using 1(3) unfolding h w .
    have "lex_le (?k t) (?k u)" using min_by_le [OF u, of ?k] unfolding tt [symmetric] .
    then show ?case using t 1(4)
      unfolding Let_def lex_le_def lex_less_def fst_conv snd_conv cost_weighs [OF refl] load_busy by linarith
  qed
qed

theorem kv_aware_pick_is_cheapest_witness:
  "let s = sample_policy\<lparr>recent_blocks := [(''a'', 3)]\<rparr>; ts = [sample_target ''a'', sample_target ''b'']
   in \<exists>t bl s'. ka_pick_targets sample_env s ts sample_request None = (Inr (t, bl), s') \<and>
        busy_blocks s t - busy_blocks s (sample_target ''b'') \<le>
          skipped_blocks sample_env s ts (PDict []) False t - skipped_blocks sample_env s ts (PDict []) False (sample_target ''b'')"
proof -
  let ?s = "sample_policy\<lparr>recent_blocks := [(''a'', 3)]\<rparr>"
  let ?ts = "[sample_target ''a'', sample_target ''b'']"
  let ?hints = "\<lparr>retention = NONE, session_id = None, explicit_hint_seen = False, has_multimodal_content = False\<rparr>"
  have h: "hints_for_hashed_body sample_request (normalised sample_env (req_body sample_request)) = Inr ?hints"
    by code_simp
  have ok: "ka_req_ok sample_env sample_request" by code_simp
  obtain t bl s' where p: "ka_pick_targets sample_env ?s ?ts sample_request None = (Inr (t, bl), s')"
    using ka.pick_answers [OF ok, of ?ts ?s None] by (metis list.distinct(1))
  have w: "block_worth ?s ?hints None = 1" by (simp add: block_worth_def make_kv_aware_def)
  have "sample_target ''b'' \<in> set ?ts" by simp
  from kv_aware_pick_is_cheapest [OF p h this] show ?thesis
    unfolding Let_def w using p by (simp only: CacheHints.simps hash_env.simps router_request.simps mult_1) blast
qed

text \<open>C31. A request with image, audio or other non-text content is never steered by the text
  prefix cache: whatever the router believes each worker caches, the picked target and the
  reported blocks are the same.\<close>

theorem multimodal_pick_ignores_cache_views:
  assumes "hints_for_hashed_body r (normalised env (req_body r)) = Inr hints"
    and "has_multimodal_content hints"
  shows "fst (ka_pick_targets env (s\<lparr>ka_kv := c\<rparr>) ts r role) = fst (ka_pick_targets env s ts r role)"
proof (cases ts)
  case (Cons t0 ts')
  have "cost (s\<lparr>ka_kv := c\<rparr>) 0 w keys bl t = cost s 0 w keys bl t" for w keys bl t
    by (simp add: cost_def)
  then have "min_by (\<lambda>t. (cost (s\<lparr>ka_kv := c\<rparr>) 0 w keys bl t, load s t)) t0 ts' =
      min_by (\<lambda>t. (cost s 0 w keys bl t, load s t)) t0 ts'" for w keys bl
    by (simp only:)
  with assms Cons show ?thesis by (simp add: ka_pick_targets_def Let_def)
qed (use assms in \<open>simp add: ka_pick_targets_def\<close>)

theorem multimodal_pick_ignores_cache_views_witness:
  "fst (ka_pick_targets sample_env
      (sample_policy\<lparr>ka_kv := [(''b'', sample_sub\<lparr>views := [(0, {5, 6})]\<rparr>)]\<rparr>)
      [sample_target ''a'', sample_target ''b''] image_request None) =
   fst (ka_pick_targets sample_env sample_policy [sample_target ''a'', sample_target ''b''] image_request None)"
proof -
  have "hints_for_hashed_body image_request (normalised sample_env (req_body image_request)) =
      Inr \<lparr>retention = NONE, session_id = None, explicit_hint_seen = False, has_multimodal_content = True\<rparr>"
    by code_simp
  from multimodal_pick_ignores_cache_views [OF this] show ?thesis by simp
qed

text \<open>C10. In-flight accounting refines a multiset of blocks per target: for every interleaving
  of request starts and finishes in which each finish returns blocks that were started, the
  load a target carries is the number of distinct blocks its unfinished requests hold; it is
  zero again once all of them have finished.\<close>

theorem inflight_blocks_refine_multiset:
  assumes "active_block_refs s = []" and "legal (\<lambda>_. {#}) evs"
  shows "refs_count (foldl req_step s evs) rk h = int (count (foldl spec_step (\<lambda>_. {#}) evs rk) h) \<and>
    active (foldl req_step s evs) rk = card (set_mset (foldl spec_step (\<lambda>_. {#}) evs rk))"
proof -
  let ?s = "foldl req_step s evs" and ?M = "foldl spec_step (\<lambda>_. {#}) evs"
  have "refs_refine ?s ?M"
    using assms by (intro refs_refine_run) (auto simp: refs_refine_def refs_match_empty)
  then have m: "refs_match (case dict_get (active_block_refs ?s) rk of None \<Rightarrow> [] | Some r \<Rightarrow> r) (?M rk)"
    by (simp add: refs_refine_def)
  from refs_match_length [OF m] have "active ?s rk = card (set_mset (?M rk))"
    by (cases "dict_get (active_block_refs ?s) rk") (simp_all add: active_def)
  moreover have "refs_count ?s rk h = int (count (?M rk) h)"
  proof (cases "dict_get (active_block_refs ?s) rk")
    case None
    with refs_match_length [OF m] have "?M rk = {#}" by simp
    with None show ?thesis by (simp add: refs_count_def)
  next
    case (Some refs)
    with m have "dict_get refs h = (if h \<in># ?M rk then Some (int (count (?M rk) h)) else None)"
      by (simp add: refs_match_def)
    with Some show ?thesis by (simp add: refs_count_def not_in_iff)
  qed
  ultimately show ?thesis by simp
qed

theorem inflight_blocks_refine_multiset_witness:
  "active (foldl req_step sample_policy
     [Started ''a'' [1, 2], Started ''a'' [1, 3], Finished ''a'' [1, 2]]) ''a'' = 2"
  using inflight_blocks_refine_multiset
    [of sample_policy "[Started ''a'' [1, 2], Started ''a'' [1, 3], Finished ''a'' [1, 2]]" "''a''" 1]
  by (simp add: make_kv_aware_def)

text \<open>C32. The recent-dispatch load is bounded: if no request has more than M blocks (M at least
  one), then through any number of picks the charges of all targets together never exceed
  M / (1 - decay), and none is ever negative.\<close>

theorem recent_load_bounded:
  assumes "recent_blocks s = []" and "1 \<le> M"
    and "\<forall>(_, missed, n) \<in> set picks. missed \<le> n \<and> real n \<le> M"
  shows "let d = recent_blocks (foldl (\<lambda>s (rk, missed, n). record_dispatch s rk missed n) s picks) in
    recent_sum d \<le> M / (1 - RECENT_DECAY) \<and> recent_ok d"
  using assms(3)
proof (induction picks rule: rev_induct)
  case Nil
  then show ?case using assms by (simp add: recent_ok_def RECENT_DECAY_def)
next
  case (snoc p picks)
  obtain rk missed n where p: "p = (rk, missed, n)" by (cases p)
  let ?s = "foldl (\<lambda>s (rk, missed, n). record_dispatch s rk missed n) s picks"
  from snoc have IH: "recent_sum (recent_blocks ?s) \<le> M / (1 - RECENT_DECAY)" "recent_ok (recent_blocks ?s)"
    by (auto simp: Let_def)
  have "missed \<le> n" "real n \<le> M" using snoc.prems p by auto
  from record_dispatch_recent [OF IH(2) this assms(2), of rk] IH(1) p show ?case
    by (simp add: Let_def RECENT_DECAY_def)
qed

theorem recent_load_bounded_witness:
  "recent_sum (recent_blocks (foldl (\<lambda>s (rk, missed, n). record_dispatch s rk missed n) sample_policy
     [(''a'', 3, 4), (''b'', 4, 4)])) \<le> 4 / (1 - RECENT_DECAY)"
  using recent_load_bounded [of sample_policy 4 "[(''a'', 3, 4), (''b'', 4, 4)]"]
  by (simp add: make_kv_aware_def Let_def)

text \<open>C33. Removing a worker forgets exactly that worker. Its targets keep no in-flight blocks, recent
  load or image affinity, and the worker no cached view, template variant, parity verdict, identity,
  label or pending probe. A worker with another id keeps all of them, and the weights, the fleet-wide
  variant and the probe counter do not change (ids are host:port addresses, without \<open>#\<close>).\<close>

theorem worker_removal_forgets_exactly_it:
  assumes "CHR ''#'' \<notin> set wid" and "CHR ''#'' \<notin> set (worker_id (worker t))"
  shows "let s' = ka_worker_removed s wid; rk = route_key t; w = worker_id (worker t) in
    (if w = wid
     then dict_get (active_block_refs s') rk = None \<and> dict_get (recent_blocks s') rk = None \<and>
          dict_get (mm_affinity s') rk = None \<and> cache_view (ka_kv s') w dp = {} \<and>
          dict_get (per_worker (ka_variants s')) w = None \<and>
          dict_get (parity_pending s') w = None \<and> dict_get (parity_verdict s') w = None \<and>
          dict_get (parity_identity s') w = None \<and> dict_get (parity_labels s') w = None
     else dict_get (active_block_refs s') rk = dict_get (active_block_refs s) rk \<and>
          dict_get (recent_blocks s') rk = dict_get (recent_blocks s) rk \<and>
          dict_get (mm_affinity s') rk = dict_get (mm_affinity s) rk \<and>
          dict_get (ka_kv s') w = dict_get (ka_kv s) w \<and>
          dict_get (per_worker (ka_variants s')) w = dict_get (per_worker (ka_variants s)) w \<and>
          dict_get (parity_pending s') w = dict_get (parity_pending s) w \<and>
          dict_get (parity_verdict s') w = dict_get (parity_verdict s) w \<and>
          dict_get (parity_identity s') w = dict_get (parity_identity s) w \<and>
          dict_get (parity_labels s') w = dict_get (parity_labels s) w) \<and>
    w_mixed s' = w_mixed s \<and> w_prefill s' = w_prefill s \<and> w_decode s' = w_decode s \<and> parity_epoch s' = parity_epoch s \<and>
    fleet (ka_variants s') = fleet (ka_variants s) \<and> per_worker_enabled (ka_variants s') = per_worker_enabled (ka_variants s)"
proof -
  have drop: "dict_get (drop_owned wid d) (route_key t) =
      (if worker_id (worker t) = wid then None else dict_get d (route_key t))" for d :: "(string, 'v) dict"
  proof -
    have "owns_key wid (route_key t) \<longleftrightarrow> worker_id (worker t) = wid"
      using owns_key_other [OF assms] owns_route_key [of t] by auto
    then show ?thesis by (simp add: drop_owned_def dict_get_filter_keys)
  qed
  show ?thesis
    by (simp add: ka_worker_removed_def drop_parity_gauges_def Let_def drop client_worker_removed_def
        retain_variants_def cache_view_def dict_get_del dict_get_filter_keys)
qed

theorem worker_removal_forgets_exactly_it_witness:
  "dict_get (parity_verdict (ka_worker_removed (sample_policy\<lparr>parity_verdict := [(''a'', None), (''b'', Some True)]\<rparr>) ''a'')) ''b'' = Some (Some True) \<and>
   dict_get (parity_verdict (ka_worker_removed (sample_policy\<lparr>parity_verdict := [(''a'', None), (''b'', Some True)]\<rparr>) ''a'')) ''a'' = None"
  using worker_removal_forgets_exactly_it
      [of "''a''" "sample_target ''b''" "sample_policy\<lparr>parity_verdict := [(''a'', None), (''b'', Some True)]\<rparr>" None]
    worker_removal_forgets_exactly_it
      [of "''a''" "sample_target ''a''" "sample_policy\<lparr>parity_verdict := [(''a'', None), (''b'', Some True)]\<rparr>" None]
  by (simp add: Let_def)

end
