(* ===== verification/Cache_Tier.thy ===== *)
theory Cache_Tier
  imports Prelude
begin

text \<open>
  The contract every storage tier of the KV daemon gives its client: a lookup only ever
  returns bytes that were stored under the same key, and after an accepted store it returns
  those bytes until the key is dropped or stored again. The tiers of \<open>src/infera/kvd\<close>
  interpret the locale with their own operations as the type of steps.
\<close>

text \<open>The value of the last accepted store of a key in a history.\<close>

fun last_stored ::
  "('t \<Rightarrow> 'op \<Rightarrow> 't) \<Rightarrow> ('t \<Rightarrow> 'op \<Rightarrow> ('k \<times> 'v) option) \<Rightarrow> 't \<Rightarrow> 'k \<Rightarrow> 'v option \<Rightarrow> 'op list \<Rightarrow> 'v option" where
  "last_stored step stores t k acc [] = acc"
| "last_stored step stores t k acc (op # ops) =
     last_stored step stores (step t op) k
       (case stores t op of None \<Rightarrow> acc | Some (k', v) \<Rightarrow> if k' = k then Some v else acc) ops"

locale cache_tier =
  fixes inv :: "'t \<Rightarrow> bool"
    and lookup :: "'t \<Rightarrow> 'k \<Rightarrow> 'v option"
    and step :: "'t \<Rightarrow> 'op \<Rightarrow> 't"
    and stores :: "'t \<Rightarrow> 'op \<Rightarrow> ('k \<times> 'v) option"
  assumes inv_step: "inv t \<Longrightarrow> inv (step t op)"
    and stored: "inv t \<Longrightarrow> stores t op = Some (k, v) \<Longrightarrow> lookup (step t op) k = Some v"
    and not_stored: "inv t \<Longrightarrow> lookup (step t op) k = Some v \<Longrightarrow>
      (\<forall>x. stores t op \<noteq> Some (k, x)) \<Longrightarrow> lookup t k = Some v"
begin

lemma inv_run: "inv t \<Longrightarrow> inv (foldl step t ops)"
  by (induction ops arbitrary: t) (auto simp: inv_step)

lemma lookup_is_last_stored:
  assumes "inv t" and "\<forall>v. lookup t k = Some v \<longrightarrow> acc = Some v"
    and "lookup (foldl step t ops) k = Some v"
  shows "last_stored step stores t k acc ops = Some v"
  using assms
proof (induction ops arbitrary: t acc)
  case (Cons op ops)
  let ?acc = "case stores t op of None \<Rightarrow> acc | Some (k', v) \<Rightarrow> if k' = k then Some v else acc"
  have "\<forall>v. lookup (step t op) k = Some v \<longrightarrow> ?acc = Some v"
  proof (intro allI impI)
    fix v
    assume v: "lookup (step t op) k = Some v"
    show "?acc = Some v"
    proof (cases "\<exists>x. stores t op = Some (k, x)")
      case True
      then show ?thesis using stored [OF Cons.prems(1)] v by auto
    next
      case False
      with v Cons.prems(1,2) not_stored [OF Cons.prems(1) v] show ?thesis
        by (auto split: option.splits)
    qed
  qed
  with Cons.IH [OF inv_step [OF Cons.prems(1)]] Cons.prems(3) show ?case by simp
qed simp

lemma lookup_from_empty:
  assumes "inv t" and "\<And>k. lookup t k = None" and "lookup (foldl step t ops) k = Some v"
  shows "last_stored step stores t k None ops = Some v"
  using assms by (intro lookup_is_last_stored) auto

end

end
