(* ===== verification/Arena.thy ===== *)
theory Arena
  imports Cache_Tier Hashing "HOL-Library.Multiset"
begin

text \<open>
  The shared-memory arena of \<open>src/infera/kvd/shared_arena.py\<close>: the slot allocator with its
  LRU index, the two-phase save (reserve, commit, cancel) and the seqlock protocol of a slot.
  The mapped memory is one header (version, length) and one payload per slot; a payload is a
  function from offsets to bytes. Memory mapping, hugepages, page locking and file descriptors
  are outside the model, and so is the creation time of a lease.
\<close>

section \<open>Constants\<close>

definition HEADER_BYTES :: nat where "HEADER_BYTES = 16"
definition EVICT_LOG_CAP :: nat where "EVICT_LOG_CAP = 4096"
definition SLOT_ALIGNMENT :: nat where "SLOT_ALIGNMENT = 64"
definition MAX_TORN_READ_RETRIES :: nat where "MAX_TORN_READ_RETRIES = 3"

section \<open>State\<close>

type_synonym arena_key = "byte list"

record slot_mem =
  slot_version :: nat
  slot_length :: nat
  slot_payload :: "nat \<Rightarrow> byte"

record Reservation =
  slot_id :: nat
  promised_size :: nat
  connection_id :: nat

record SharedArena =
  arena_capacity :: nat
  slot_size :: nat
  num_slots :: nat
  free_slots :: "nat list"
  slot_index :: "(arena_key, nat) dict"
  recent_evicted_keys :: "arena_key list"
  reservations :: "(nat, Reservation) dict"
  next_lease_token :: nat
  arena_hits :: nat
  arena_misses :: nat
  arena_evictions :: nat
  torn_reads :: nat
  bytes_promoted :: nat
  reservations_committed :: nat
  reservations_cancelled :: nat
  mem :: "nat \<Rightarrow> slot_mem"

definition make_arena :: "int \<Rightarrow> py_error + SharedArena" where
  "make_arena capacity_bytes =
     (if capacity_bytes \<le> 0 then Inl ValueError
      else Inr \<lparr>arena_capacity = nat capacity_bytes, slot_size = 0, num_slots = 0, free_slots = [],
                slot_index = [], recent_evicted_keys = [], reservations = [], next_lease_token = 1,
                arena_hits = 0, arena_misses = 0, arena_evictions = 0, torn_reads = 0,
                bytes_promoted = 0, reservations_committed = 0, reservations_cancelled = 0,
                mem = (\<lambda>_. \<lparr>slot_version = 0, slot_length = 0, slot_payload = (\<lambda>_. 0)\<rparr>)\<rparr>)"

section \<open>Allocator\<close>

text \<open>A \<open>deque(maxlen=...)\<close> drops its oldest element on overflow.\<close>

definition log_eviction :: "SharedArena \<Rightarrow> arena_key \<Rightarrow> SharedArena" where
  "log_eviction a k =
     (let xs = recent_evicted_keys a @ [k]
      in a\<lparr>recent_evicted_keys := drop (length xs - EVICT_LOG_CAP) xs\<rparr>)"

text \<open>The lazy slot-size decision; \<open>None\<close> when not even one slot fits.\<close>

definition init_grid :: "SharedArena \<Rightarrow> nat \<Rightarrow> SharedArena option" where
  "init_grid a sz =
     (if slot_size a \<noteq> 0 then Some a
      else let ss = (sz + HEADER_BYTES + SLOT_ALIGNMENT - 1) div SLOT_ALIGNMENT * SLOT_ALIGNMENT;
               n = arena_capacity a div ss
           in if n = 0 then None
              else Some (a\<lparr>slot_size := ss, num_slots := n, free_slots := [0..<n]\<rparr>))"

text \<open>Take a slot: the end of the free list, else the least recently used entry's. \<open>popitem\<close>
  on an empty index raises \<open>KeyError\<close>.\<close>

definition take_slot :: "SharedArena \<Rightarrow> py_error + nat \<times> SharedArena" where
  "take_slot a =
     (if free_slots a \<noteq> [] then Inr (last (free_slots a), a\<lparr>free_slots := butlast (free_slots a)\<rparr>)
      else case slot_index a of
             [] \<Rightarrow> Inl KeyError
           | (k, slot) # rest \<Rightarrow>
               Inr (slot, log_eviction (a\<lparr>slot_index := rest, arena_evictions := arena_evictions a + 1\<rparr>) k))"

text \<open>Release a key's slot to the free list.\<close>

definition free_key :: "SharedArena \<Rightarrow> arena_key \<Rightarrow> SharedArena" where
  "free_key a k =
     (case dict_get (slot_index a) k of
        None \<Rightarrow> a
      | Some slot \<Rightarrow> a\<lparr>slot_index := dict_del k (slot_index a), free_slots := free_slots a @ [slot]\<rparr>)"

text \<open>The part of \<open>put\<close> under the allocator lock: the slot to write, \<open>None\<close> for a refusal.\<close>

definition put_alloc :: "SharedArena \<Rightarrow> arena_key \<Rightarrow> nat \<Rightarrow> (py_error + nat option) \<times> SharedArena" where
  "put_alloc a key sz =
     (if sz > arena_capacity a then (Inr None, a)
      else case init_grid a sz of
             None \<Rightarrow> (Inr None, a\<lparr>num_slots := 0\<rparr>)
           | Some a \<Rightarrow>
               if sz + HEADER_BYTES > slot_size a then (Inr None, a)
               else let a = free_key a key
                    in case take_slot a of
                         Inl e \<Rightarrow> (Inl e, a)
                       | Inr (slot, a) \<Rightarrow>
                           (Inr (Some slot), a\<lparr>slot_index := dict_put key slot (slot_index a)\<rparr>))"

section \<open>Seqlock writes\<close>

text \<open>\<open>struct.pack("<I", v)\<close>.\<close>

definition pack_u32 :: "nat \<Rightarrow> py_error + nat" where
  "pack_u32 v = (if v < 2 ^ 32 then Inr v else Inl StructError)"

definition next_odd :: "nat \<Rightarrow> nat" where
  "next_odd v = (if v mod 2 = 0 then v + 1 else v + 2)"

definition write_payload :: "byte list \<Rightarrow> slot_mem \<Rightarrow> slot_mem" where
  "write_payload value m =
     m\<lparr>slot_payload := (\<lambda>i. if i < length value then value ! i else slot_payload m i)\<rparr>"

text \<open>Mark odd, copy the payload, write the length, mark even; a version past 32 bits raises
  in \<open>struct.pack\<close> and leaves what was written so far.\<close>

definition write_slot_seqlock :: "byte list \<Rightarrow> slot_mem \<Rightarrow> py_error option \<times> slot_mem" where
  "write_slot_seqlock value m =
     (let mid = next_odd (slot_version m) in
      case pack_u32 mid of
        Inl e \<Rightarrow> (Some e, m)
      | Inr _ \<Rightarrow>
          let m = write_payload value (m\<lparr>slot_version := mid\<rparr>) in
          case pack_u32 (length value) of
            Inl e \<Rightarrow> (Some e, m)
          | Inr l \<Rightarrow>
              let m = m\<lparr>slot_length := l\<rparr> in
              (case pack_u32 (mid + 1) of
                 Inl e \<Rightarrow> (Some e, m)
               | Inr v \<Rightarrow> (None, m\<lparr>slot_version := v\<rparr>)))"

text \<open>The part of \<open>put\<close> outside the allocator lock.\<close>

definition put_write :: "SharedArena \<Rightarrow> nat \<Rightarrow> byte list \<Rightarrow> py_error option \<times> SharedArena" where
  "put_write a slot value =
     (case write_slot_seqlock value (mem a slot) of
        (Some e, m) \<Rightarrow> (Some e, a\<lparr>mem := (mem a)(slot := m)\<rparr>)
      | (None, m) \<Rightarrow>
          (None, a\<lparr>mem := (mem a)(slot := m), bytes_promoted := bytes_promoted a + length value\<rparr>))"

definition arena_put :: "SharedArena \<Rightarrow> arena_key \<Rightarrow> byte list \<Rightarrow> (py_error + nat option) \<times> SharedArena" where
  "arena_put a key value =
     (case put_alloc a key (length value) of
        (Inr (Some slot), a) \<Rightarrow>
          (case put_write a slot value of
             (Some e, a) \<Rightarrow> (Inl e, a)
           | (None, a) \<Rightarrow> (Inr (Some slot), a))
      | (res, a) \<Rightarrow> (res, a))"

definition drain_recent_evictions :: "SharedArena \<Rightarrow> arena_key list \<times> SharedArena" where
  "drain_recent_evictions a = (recent_evicted_keys a, a\<lparr>recent_evicted_keys := []\<rparr>)"

section \<open>Two-phase save\<close>

text \<open>Mark a slot as being written and clear its length.\<close>

definition mark_writing :: "slot_mem \<Rightarrow> py_error option \<times> slot_mem" where
  "mark_writing m =
     (case pack_u32 (next_odd (slot_version m)) of
        Inl e \<Rightarrow> (Some e, m)
      | Inr v \<Rightarrow> (None, m\<lparr>slot_version := v, slot_length := 0\<rparr>))"

text \<open>\<open>(lease_token, slot, payload_offset)\<close> or \<open>None\<close>.\<close>

definition reserve ::
  "SharedArena \<Rightarrow> int \<Rightarrow> nat \<Rightarrow> (py_error + (nat \<times> nat \<times> nat) option) \<times> SharedArena" where
  "reserve a sz conn =
     (if sz \<le> 0 then (Inr None, a)
      else if nat sz > arena_capacity a then (Inr None, a)
      else case init_grid a (nat sz) of
             None \<Rightarrow> (Inr None, a\<lparr>num_slots := 0\<rparr>)
           | Some a \<Rightarrow>
               if nat sz + HEADER_BYTES > slot_size a then (Inr None, a)
               else if free_slots a = [] \<and> slot_index a = [] then (Inr None, a)
               else case take_slot a of
                      Inl e \<Rightarrow> (Inl e, a)
                    | Inr (slot, a) \<Rightarrow>
                        let token = next_lease_token a;
                            a = a\<lparr>next_lease_token := token + 1,
                                  reservations := dict_put token
                                    \<lparr>slot_id = slot, promised_size = nat sz, connection_id = conn\<rparr>
                                    (reservations a)\<rparr>
                        in case mark_writing (mem a slot) of
                             (Some e, m) \<Rightarrow> (Inl e, a)
                           | (None, m) \<Rightarrow>
                               (Inr (Some (token, slot, slot * slot_size a + HEADER_BYTES)),
                                a\<lparr>mem := (mem a)(slot := m)\<rparr>))"

text \<open>The holder of a lease writes the payload through its own mapping.\<close>

definition engine_write :: "SharedArena \<Rightarrow> nat \<Rightarrow> byte list \<Rightarrow> SharedArena" where
  "engine_write a slot value = a\<lparr>mem := (mem a)(slot := write_payload value (mem a slot))\<rparr>"

definition next_even :: "nat \<Rightarrow> nat" where
  "next_even v = (if v mod 2 = 1 then v + 1 else v + 2)"

definition stamp :: "nat \<Rightarrow> slot_mem \<Rightarrow> py_error option \<times> slot_mem" where
  "stamp len m =
     (case pack_u32 len of
        Inl e \<Rightarrow> (Some e, m)
      | Inr l \<Rightarrow>
          let m' = m\<lparr>slot_length := l\<rparr> in
          (case pack_u32 (next_even (slot_version m)) of
             Inl e \<Rightarrow> (Some e, m')
           | Inr v \<Rightarrow> (None, m'\<lparr>slot_version := v\<rparr>)))"

datatype commit_result =
    Committed "arena_key option"
  | UnknownLease
  | WrongOwner
  | OversizeCommit

definition commit_reservation ::
  "SharedArena \<Rightarrow> nat \<Rightarrow> arena_key \<Rightarrow> int \<Rightarrow> nat \<Rightarrow> (py_error + commit_result) \<times> SharedArena" where
  "commit_reservation a token key len conn =
     (case dict_get (reservations a) token of
        None \<Rightarrow> (Inr UnknownLease, a)
      | Some r \<Rightarrow>
          if connection_id r \<noteq> conn then (Inr WrongOwner, a)
          else if len < 0 \<or> len > int (promised_size r) then (Inr OversizeCommit, a)
          else
            let slot = slot_id r;
                old = dict_get (slot_index a) key;
                idx = dict_del key (slot_index a);
                overwritten = (case old of None \<Rightarrow> None | Some x \<Rightarrow> if x \<noteq> slot then Some key else None);
                free = (case old of None \<Rightarrow> free_slots a
                        | Some x \<Rightarrow> if x \<noteq> slot then free_slots a @ [x] else free_slots a);
                a = a\<lparr>slot_index := dict_put key slot idx, free_slots := free,
                      reservations := dict_del token (reservations a),
                      reservations_committed := reservations_committed a + 1,
                      bytes_promoted := bytes_promoted a + nat len\<rparr>
            in case stamp (nat len) (mem a slot) of
                 (Some e, m) \<Rightarrow> (Inl e, a\<lparr>mem := (mem a)(slot := m)\<rparr>)
               | (None, m) \<Rightarrow> (Inr (Committed overwritten), a\<lparr>mem := (mem a)(slot := m)\<rparr>))"

definition cancel_reservation :: "SharedArena \<Rightarrow> nat \<Rightarrow> nat \<Rightarrow> bool \<times> SharedArena" where
  "cancel_reservation a token conn =
     (case dict_get (reservations a) token of
        None \<Rightarrow> (False, a)
      | Some r \<Rightarrow>
          if connection_id r \<noteq> conn then (False, a)
          else (True, a\<lparr>reservations := dict_del token (reservations a),
                        free_slots := free_slots a @ [slot_id r],
                        reservations_cancelled := reservations_cancelled a + 1\<rparr>))"

definition cancel_connection_reservations :: "SharedArena \<Rightarrow> nat \<Rightarrow> nat \<times> SharedArena" where
  "cancel_connection_reservations a conn =
     (let doomed = filter (\<lambda>(_, r). connection_id r = conn) (reservations a)
      in (length doomed,
          a\<lparr>reservations := filter (\<lambda>(_, r). connection_id r \<noteq> conn) (reservations a),
            free_slots := free_slots a @ map (\<lambda>(_, r). slot_id r) doomed,
            reservations_cancelled := reservations_cancelled a + length doomed\<rparr>))"

section \<open>Reads\<close>

text \<open>One attempt of \<open>get_slice\<close> on memory that no one is writing.\<close>

definition read_slot :: "nat \<Rightarrow> slot_mem \<Rightarrow> byte list option" where
  "read_slot ss m =
     (if slot_version m mod 2 \<noteq> 0 then None
      else if slot_length m > ss - HEADER_BYTES then None
      else Some (map (slot_payload m) [0..<slot_length m]))"

definition get_slice :: "SharedArena \<Rightarrow> int \<Rightarrow> byte list option \<times> SharedArena" where
  "get_slice a slot =
     (if slot < 0 \<or> slot \<ge> int (num_slots a) then (None, a)
      else case read_slot (slot_size a) (mem a (nat slot)) of
             None \<Rightarrow> (None, a\<lparr>torn_reads := torn_reads a + MAX_TORN_READ_RETRIES\<rparr>)
           | Some v \<Rightarrow> (Some v, a))"

definition get_slot_for_key :: "SharedArena \<Rightarrow> arena_key \<Rightarrow> nat option \<times> SharedArena" where
  "get_slot_for_key a key =
     (case dict_get (slot_index a) key of
        None \<Rightarrow> (None, a\<lparr>arena_misses := arena_misses a + 1\<rparr>)
      | Some slot \<Rightarrow> (Some slot, a\<lparr>slot_index := dict_move_to_end key (slot_index a),
                                 arena_hits := arena_hits a + 1\<rparr>))"

definition get_slot_metadata :: "SharedArena \<Rightarrow> int \<Rightarrow> (nat \<times> nat \<times> nat) option" where
  "get_slot_metadata a slot =
     (if slot < 0 \<or> slot \<ge> int (num_slots a) then None
      else Some (nat slot * slot_size a + HEADER_BYTES, slot_length (mem a (nat slot)),
                 slot_version (mem a (nat slot))))"

definition arena_contains :: "SharedArena \<Rightarrow> arena_key \<Rightarrow> bool" where
  "arena_contains a key \<longleftrightarrow> dict_get (slot_index a) key \<noteq> None"

definition would_accept_size :: "SharedArena \<Rightarrow> nat \<Rightarrow> bool" where
  "would_accept_size a sz \<longleftrightarrow>
     (if slot_size a = 0 then sz + HEADER_BYTES \<le> arena_capacity a
      else sz + HEADER_BYTES \<le> slot_size a)"

section \<open>Administration\<close>

definition arena_evict_lru :: "SharedArena \<Rightarrow> bool \<Rightarrow> arena_key option \<times> SharedArena" where
  "arena_evict_lru a notify_drain =
     (case slot_index a of
        [] \<Rightarrow> (None, a)
      | (k, slot) # rest \<Rightarrow>
          let a = a\<lparr>slot_index := rest, free_slots := free_slots a @ [slot],
                    arena_evictions := arena_evictions a + 1\<rparr>
          in (Some k, if notify_drain then log_eviction a k else a))"

definition arena_evict_key :: "SharedArena \<Rightarrow> arena_key \<Rightarrow> bool \<Rightarrow> bool \<times> SharedArena" where
  "arena_evict_key a key notify_drain =
     (case dict_get (slot_index a) key of
        None \<Rightarrow> (False, a)
      | Some slot \<Rightarrow>
          let a = free_key a key
          in (True, if notify_drain then log_eviction a key else a))"

definition arena_clear :: "SharedArena \<Rightarrow> SharedArena" where
  "arena_clear a = a\<lparr>slot_index := [], free_slots := [0..<num_slots a]\<rparr>"

section \<open>Histories\<close>

text \<open>The operations of the arena. A lease holder writes only the slot it leased, within the size
  it asked for.\<close>

datatype arena_op =
    APut arena_key "byte list"
  | AReserve int nat
  | AEngineWrite nat "byte list"
  | ACommit nat arena_key int nat
  | ACancel nat nat
  | ACancelConn nat
  | AEvictLru bool
  | AEvictKey arena_key bool
  | AGetSlot arena_key
  | AGetSlice int
  | ADrain
  | AClear

text \<open>The histories in which \<open>clear\<close> takes effect only while no lease is out. \<open>SharedArena.clear\<close> itself
  has no such guard; \<open>arena_exec\<close> below runs it whatever is out.\<close>

fun arena_step :: "SharedArena \<Rightarrow> arena_op \<Rightarrow> SharedArena" where
  "arena_step a (APut k v) = snd (arena_put a k v)"
| "arena_step a (AReserve n c) = snd (reserve a n c)"
| "arena_step a (AEngineWrite t v) =
     (case dict_get (reservations a) t of
        None \<Rightarrow> a
      | Some r \<Rightarrow> if length v \<le> promised_size r then engine_write a (slot_id r) v else a)"
| "arena_step a (ACommit t k n c) = snd (commit_reservation a t k n c)"
| "arena_step a (ACancel t c) = snd (cancel_reservation a t c)"
| "arena_step a (ACancelConn c) = snd (cancel_connection_reservations a c)"
| "arena_step a (AEvictLru b) = snd (arena_evict_lru a b)"
| "arena_step a (AEvictKey k b) = snd (arena_evict_key a k b)"
| "arena_step a (AGetSlot k) = snd (get_slot_for_key a k)"
| "arena_step a (AGetSlice s) = snd (get_slice a s)"
| "arena_step a ADrain = snd (drain_recent_evictions a)"
| "arena_step a AClear = (if reservations a = [] then arena_clear a else a)"

definition arena_exec :: "SharedArena \<Rightarrow> arena_op \<Rightarrow> SharedArena" where
  "arena_exec a op = (if op = AClear then arena_clear a else arena_step a op)"

text \<open>No clear of the history runs while a lease is out.\<close>

fun clears_unleased :: "SharedArena \<Rightarrow> arena_op list \<Rightarrow> bool" where
  "clears_unleased a [] = True"
| "clears_unleased a (op # ops) = ((op = AClear \<longrightarrow> reservations a = []) \<and> clears_unleased (arena_exec a op) ops)"

lemma exec_eq_step: "clears_unleased a ops \<Longrightarrow> foldl arena_exec a ops = foldl arena_step a ops"
  by (induction ops arbitrary: a) (auto simp: arena_exec_def)

text \<open>What a read of a key returns.\<close>

definition arena_lookup :: "SharedArena \<Rightarrow> arena_key \<Rightarrow> byte list option" where
  "arena_lookup a k =
     (case dict_get (slot_index a) k of
        None \<Rightarrow> None
      | Some slot \<Rightarrow> read_slot (slot_size a) (mem a slot))"

text \<open>The bytes an accepted put or commit stores under its key.\<close>

fun arena_stores :: "SharedArena \<Rightarrow> arena_op \<Rightarrow> (arena_key \<times> byte list) option" where
  "arena_stores a (APut k v) =
     (case fst (arena_put a k v) of Inr (Some _) \<Rightarrow> Some (k, v) | _ \<Rightarrow> None)"
| "arena_stores a (ACommit t k n c) =
     (case fst (commit_reservation a t k n c) of
        Inr (Committed _) \<Rightarrow>
          (case dict_get (reservations a) t of
             None \<Rightarrow> None
           | Some r \<Rightarrow> Some (k, map (slot_payload (mem a (slot_id r))) [0..<nat n]))
      | _ \<Rightarrow> None)"
| "arena_stores a _ = None"

section \<open>Invariant\<close>

text \<open>Every slot is in exactly one of the free list, the index and the leases.\<close>

definition slots_of :: "SharedArena \<Rightarrow> nat multiset" where
  "slots_of a = mset (free_slots a) + image_mset snd (mset (slot_index a)) +
     image_mset (slot_id \<circ> snd) (mset (reservations a))"

definition arena_inv :: "SharedArena \<Rightarrow> bool" where
  "arena_inv a \<longleftrightarrow> dict_wf (slot_index a) \<and> dict_wf (reservations a) \<and>
     (\<forall>t \<in> fst ` set (reservations a). t < next_lease_token a) \<and>
     slots_of a = mset [0..<num_slots a] \<and> (slot_size a = 0 \<longrightarrow> num_slots a = 0) \<and>
     (\<forall>slot. slot_version (mem a slot) < 2 ^ 32) \<and>
     (\<forall>(_, r) \<in> set (reservations a). slot_version (mem a (slot_id r)) mod 2 = 1 \<and>
        promised_size r + HEADER_BYTES \<le> slot_size a)"

lemma arena_invI:
  assumes "dict_wf (slot_index a)" "dict_wf (reservations a)"
    "\<forall>t \<in> fst ` set (reservations a). t < next_lease_token a"
    "slots_of a = mset [0..<num_slots a]" "slot_size a = 0 \<longrightarrow> num_slots a = 0"
    "\<forall>slot. slot_version (mem a slot) < 2 ^ 32"
    "\<And>x r. (x, r) \<in> set (reservations a) \<Longrightarrow>
       slot_version (mem a (slot_id r)) mod 2 = 1 \<and> promised_size r + HEADER_BYTES \<le> slot_size a"
  shows "arena_inv a"
  unfolding arena_inv_def using assms by (intro conjI) (simp_all only:, auto)

lemma arena_invD:
  assumes "arena_inv a"
  shows "dict_wf (slot_index a)" "dict_wf (reservations a)"
    "\<forall>t \<in> fst ` set (reservations a). t < next_lease_token a"
    "slots_of a = mset [0..<num_slots a]" "slot_size a = 0 \<longrightarrow> num_slots a = 0"
    "\<forall>slot. slot_version (mem a slot) < 2 ^ 32"
    "(x, r) \<in> set (reservations a) \<Longrightarrow>
       slot_version (mem a (slot_id r)) mod 2 = 1 \<and> promised_size r + HEADER_BYTES \<le> slot_size a"
  using assms unfolding arena_inv_def by blast+

lemma mset_dict_del:
  "dict_wf d \<Longrightarrow> dict_get d k = Some v \<Longrightarrow> mset d = add_mset (k, v) (mset (dict_del k d))"
proof (induction d)
  case (Cons x d)
  show ?case
  proof (cases "fst x = k")
    case True
    with Cons.prems have "dict_del k d = d" by (intro dict_del_absent) (auto simp: dict_get_None_iff)
    with True Cons.prems show ?thesis by (cases x) simp
  qed (use Cons in \<open>cases x; auto\<close>)
qed simp

lemma log_eviction_fields [simp]:
  "slot_index (log_eviction a k) = slot_index a" "free_slots (log_eviction a k) = free_slots a"
  "reservations (log_eviction a k) = reservations a" "num_slots (log_eviction a k) = num_slots a"
  "slot_size (log_eviction a k) = slot_size a" "mem (log_eviction a k) = mem a"
  "next_lease_token (log_eviction a k) = next_lease_token a"
  by (simp_all add: log_eviction_def Let_def)

lemma init_grid_inv:
  assumes "arena_inv a" and "init_grid a n = Some a'"
  shows "arena_inv a' \<and> slot_index a' = slot_index a \<and> reservations a' = reservations a \<and>
    mem a' = mem a \<and> (slot_index a \<noteq> [] \<longrightarrow> slot_size a' = slot_size a)"
proof (cases "slot_size a = 0")
  case True
  with assms(1) have "slots_of a = {#}" by (simp add: arena_inv_def)
  then have "slot_index a = []" "reservations a = []" by (auto simp: slots_of_def)
  moreover obtain ss m where "a' = a\<lparr>slot_size := ss, num_slots := m, free_slots := [0..<m]\<rparr>" "m \<noteq> 0" "ss \<noteq> 0"
    using assms(2) True by (auto simp: init_grid_def Let_def HEADER_BYTES_def SLOT_ALIGNMENT_def split: if_splits)
  ultimately show ?thesis using assms(1) by (auto simp: arena_inv_def slots_of_def)
qed (use assms in \<open>auto simp: init_grid_def\<close>)

lemma free_key_inv:
  assumes "arena_inv a"
  shows "arena_inv (free_key a k)"
proof (cases "dict_get (slot_index a) k")
  case (Some slot)
  with assms mset_dict_del [of "slot_index a" k slot] show ?thesis
    by (auto simp: free_key_def arena_inv_def slots_of_def dict_wf_del)
qed (use assms in \<open>simp add: free_key_def\<close>)

lemma free_key_fields [simp]:
  "slot_size (free_key a k) = slot_size a" "mem (free_key a k) = mem a"
  "reservations (free_key a k) = reservations a" "num_slots (free_key a k) = num_slots a"
  by (simp_all add: free_key_def split: option.split)

lemma free_key_index: "dict_get (slot_index (free_key a k)) k' = (if k' = k then None else dict_get (slot_index a) k')"
  by (auto simp: free_key_def dict_get_del split: option.split)

text \<open>Taking a slot removes it from the free list or the index, and changes nothing else.\<close>

lemma take_slot_spec:
  assumes "take_slot a = Inr (slot, a')"
  shows "slots_of a = add_mset slot (slots_of a') \<and> reservations a' = reservations a \<and> mem a' = mem a \<and>
    slot_size a' = slot_size a \<and> num_slots a' = num_slots a \<and> next_lease_token a' = next_lease_token a \<and>
    (\<exists>pre. slot_index a = pre @ slot_index a')"
proof (cases "free_slots a = []")
  case True
  then obtain k rest where "slot_index a = (k, slot) # rest"
    "a' = log_eviction (a\<lparr>slot_index := rest, arena_evictions := arena_evictions a + 1\<rparr>) k"
    using assms by (auto simp: take_slot_def split: list.splits)
  with True show ?thesis by (simp add: slots_of_def)
next
  case False
  then have "mset (free_slots a) = add_mset (last (free_slots a)) (mset (butlast (free_slots a)))"
    by (metis append_butlast_last_id mset.simps mset_append union_mset_add_mset_right add.right_neutral)
  with False assms show ?thesis by (auto simp: take_slot_def slots_of_def)
qed

lemma slots_distinct:
  assumes "slots_of a = mset [0..<n]"
  shows "count (slots_of a) s \<le> 1"
proof -
  have "count (mset [0..<n]) s \<le> 1" using distinct_count_atmost_1 [of "[0..<n]"] by simp
  with assms show ?thesis by simp
qed

text \<open>Steps that only drop entries.\<close>

definition shrinks :: "SharedArena \<Rightarrow> SharedArena \<Rightarrow> bool" where
  "shrinks a a' \<longleftrightarrow> arena_inv a' \<and> mem a' = mem a \<and>
     (\<forall>k s. dict_get (slot_index a') k = Some s \<longrightarrow> dict_get (slot_index a) k = Some s \<and> slot_size a' = slot_size a)"

lemma shrinks_lookup: "shrinks a a' \<Longrightarrow> arena_lookup a' k = Some v \<Longrightarrow> arena_lookup a k = Some v"
  by (auto simp: shrinks_def arena_lookup_def split: option.splits)

lemma shrinks_refl: "arena_inv a \<Longrightarrow> shrinks a a"
  by (simp add: shrinks_def)

lemma shrinks_trans: "shrinks a b \<Longrightarrow> shrinks b c \<Longrightarrow> shrinks a c"
  by (auto simp: shrinks_def)

lemma shrinks_init_grid: "arena_inv a \<Longrightarrow> init_grid a n = Some a' \<Longrightarrow> shrinks a a'"
  using init_grid_inv [of a n a'] by (cases "slot_index a") (auto simp: shrinks_def)

lemma shrinks_free_key: "arena_inv a \<Longrightarrow> shrinks a (free_key a k)"
  by (auto simp: shrinks_def free_key_inv free_key_index split: if_splits)

lemma no_grid_inv: "arena_inv a \<Longrightarrow> init_grid a n = None \<Longrightarrow> shrinks a (a\<lparr>num_slots := 0\<rparr>)"
  by (auto simp: shrinks_def arena_inv_def init_grid_def slots_of_def Let_def split: if_splits)

lemma dict_get_suffix: "dict_wf (pre @ d) \<Longrightarrow> dict_get d k = Some v \<Longrightarrow> dict_get (pre @ d) k = Some v"
proof -
  assume wf: "dict_wf (pre @ d)" and get: "dict_get d k = Some v"
  from map_of_SomeD [OF get] have "k \<in> fst ` set d" by force
  with wf have "k \<notin> fst ` set pre" by auto
  then have "dict_get pre k = None" by (simp add: dict_get_None_iff)
  with get show ?thesis by (simp add: map_add_def)
qed

text \<open>What a taken slot is: owned by nobody in the state that is left.\<close>

lemma take_slot_inv:
  assumes "arena_inv a" and "take_slot a = Inr (slot, a')"
  shows "slot \<notin> snd ` set (slot_index a')" "slot \<notin> (slot_id \<circ> snd) ` set (reservations a)"
    "slot < num_slots a" "dict_wf (slot_index a')"
    "\<And>k s. dict_get (slot_index a') k = Some s \<Longrightarrow> dict_get (slot_index a) k = Some s"
proof -
  note spec = take_slot_spec [OF assms(2)]
  have "count (slots_of a) slot \<le> 1"
    using assms(1) by (intro slots_distinct) (simp add: arena_inv_def)
  with spec have out: "slot \<notin># slots_of a'" by (simp add: not_in_iff)
  then show "slot \<notin> snd ` set (slot_index a')" "slot \<notin> (slot_id \<circ> snd) ` set (reservations a)"
    using spec by (auto simp: slots_of_def)
  have "slot \<in># slots_of a" using spec by simp
  moreover have "slots_of a = mset [0..<num_slots a]" using assms(1) unfolding arena_inv_def by blast
  ultimately show "slot < num_slots a" by simp
  obtain pre where pre: "slot_index a = pre @ slot_index a'" using spec by blast
  then show "dict_wf (slot_index a')" using assms(1) by (simp add: arena_inv_def)
  show "dict_get (slot_index a) k = Some s" if "dict_get (slot_index a') k = Some s" for k s
    using dict_get_suffix [of pre "slot_index a'", OF _ that] assms(1) unfolding pre arena_inv_def by blast
qed

lemma put_alloc_refused:
  assumes "arena_inv a" and "put_alloc a k n = (res, a')" and "\<And>slot. res \<noteq> Inr (Some slot)"
  shows "shrinks a a'"
proof (cases "n > arena_capacity a \<or> init_grid a n = None")
  case True
  then show ?thesis
    using assms no_grid_inv shrinks_refl by (auto simp: put_alloc_def split: if_splits)
next
  case False
  then obtain b where b: "init_grid a n = Some b" "\<not> n > arena_capacity a" by auto
  then have sh: "shrinks a b" "arena_inv b"
    using assms(1) shrinks_init_grid init_grid_inv by blast+
  show ?thesis
  proof (cases "n + HEADER_BYTES > slot_size b")
    case True
    then show ?thesis using assms(2) b sh by (auto simp: put_alloc_def)
  next
    case False
    with assms(2,3) b have "a' = free_key b k"
      by (auto simp: put_alloc_def Let_def split: sum.splits)
    then show ?thesis using sh shrinks_free_key shrinks_trans by blast
  qed
qed

lemma put_alloc_accepted:
  assumes "arena_inv a" and "put_alloc a k n = (Inr (Some slot), a')"
  shows "arena_inv a' \<and> mem a' = mem a \<and> n + HEADER_BYTES \<le> slot_size a' \<and>
    dict_get (slot_index a') k = Some slot \<and> slot \<notin> (slot_id \<circ> snd) ` set (reservations a') \<and>
    (\<forall>k' s. k' \<noteq> k \<longrightarrow> dict_get (slot_index a') k' = Some s \<longrightarrow>
       s \<noteq> slot \<and> dict_get (slot_index a) k' = Some s \<and> slot_size a' = slot_size a)"
proof -
  obtain b where b: "init_grid a n = Some b" "n + HEADER_BYTES \<le> slot_size b"
    using assms(2) by (auto simp: put_alloc_def split: if_splits option.splits)
  have inv: "arena_inv b" "shrinks a b"
    using init_grid_inv [OF assms(1) b(1)] shrinks_init_grid [OF assms(1) b(1)] by auto
  let ?c = "free_key b k"
  have c: "arena_inv ?c" "shrinks a ?c"
    using inv free_key_inv shrinks_free_key shrinks_trans by blast+
  obtain d where d: "take_slot ?c = Inr (slot, d)" "a' = d\<lparr>slot_index := dict_put k slot (slot_index d)\<rparr>"
    using assms(2) b by (auto simp: put_alloc_def Let_def split: sum.splits if_splits)
  note t = take_slot_inv [OF c(1) d(1)] and sp = take_slot_spec [OF d(1)]
  have new: "dict_get (slot_index d) k = None"
    using t(5) [of k] by (cases "dict_get (slot_index d) k") (auto simp: free_key_index)
  then have idx: "slot_index a' = slot_index d @ [(k, slot)]"
    by (simp add: d(2) dict_put_new)
  have f: "free_slots a' = free_slots d" "reservations a' = reservations d" "mem a' = mem d"
    "slot_size a' = slot_size d" "num_slots a' = num_slots d" "next_lease_token a' = next_lease_token d"
    by (simp_all add: d(2))
  have "slots_of a' = slots_of ?c" using sp by (simp add: slots_of_def idx f)
  moreover have "dict_wf (slot_index a')" using t(4) new by (auto simp: idx dict_get_None_iff)
  ultimately have "arena_inv a'"
    using c(1) sp unfolding arena_inv_def f by simp
  moreover have "s \<noteq> slot \<and> dict_get (slot_index a) k' = Some s \<and> slot_size a' = slot_size a"
    if "k' \<noteq> k" "dict_get (slot_index a') k' = Some s" for k' s
  proof -
    from that have ds: "dict_get (slot_index d) k' = Some s"
      by (auto simp: idx map_add_def split: option.splits if_splits)
    then have "s \<in> snd ` set (slot_index d)" by (force dest: map_of_SomeD)
    with t(1) have "s \<noteq> slot" by blast
    moreover have "dict_get (slot_index ?c) k' = Some s" by (rule t(5) [OF ds])
    ultimately show ?thesis using c(2) sp unfolding shrinks_def f by simp
  qed
  moreover have "mem a' = mem a" using sp c(2) by (simp add: f shrinks_def)
  moreover have "n + HEADER_BYTES \<le> slot_size a'" using sp b(2) by (simp add: f)
  moreover have "dict_get (slot_index a') k = Some slot" using new by (simp add: idx map_add_def)
  moreover have "slot \<notin> (slot_id \<circ> snd) ` set (reservations a')" using t(2) sp by (simp add: f)
  ultimately show ?thesis by blast
qed

lemma next_odd_odd: "next_odd v mod 2 = 1"
  by (simp add: next_odd_def mod_Suc)

lemma read_odd: "slot_version m mod 2 = 1 \<Longrightarrow> read_slot ss m = None"
  by (simp add: read_slot_def)

lemma write_slot_ok:
  assumes "write_slot_seqlock v m = (None, m')" and "length v + HEADER_BYTES \<le> ss"
  shows "read_slot ss m' = Some v"
proof -
  have "map (\<lambda>i. if i < length v then v ! i else f i) [0..<length v] = v" for f
    by (auto intro!: nth_equalityI)
  then show ?thesis
    using assms next_odd_odd [of "slot_version m"]
    by (auto simp: write_slot_seqlock_def pack_u32_def read_slot_def write_payload_def Let_def mod_Suc
        split: if_splits)
qed

lemma write_slot_failed:
  assumes "write_slot_seqlock v m = (Some e, m')" and "slot_version m < 2 ^ 32"
  shows "read_slot ss m' = None"
proof (cases "next_odd (slot_version m) < 2 ^ 32")
  case True
  then have "slot_version m' = next_odd (slot_version m)"
    using assms(1)
    by (auto simp: write_slot_seqlock_def pack_u32_def write_payload_def Let_def split: if_splits)
  then show ?thesis by (simp add: read_odd next_odd_odd)
next
  case False
  with assms(2) have "slot_version m mod 2 = 1"
    unfolding next_odd_def by (auto split: if_splits)
  moreover have "m' = m"
    using assms(1) False by (auto simp: write_slot_seqlock_def pack_u32_def Let_def)
  ultimately show ?thesis by (simp add: read_odd)
qed

lemma write_slot_version:
  "slot_version m < 2 ^ 32 \<Longrightarrow> slot_version (snd (write_slot_seqlock v m)) < 2 ^ 32"
  by (auto simp: write_slot_seqlock_def pack_u32_def write_payload_def Let_def)

text \<open>Rewriting one slot's memory keeps the invariant when the slot is not leased.\<close>

lemma inv_mem_update:
  assumes "arena_inv a" and "slot_version m < 2 ^ 32"
    and "slot \<notin> (slot_id \<circ> snd) ` set (reservations a) \<or> slot_version m mod 2 = 1"
  shows "arena_inv (a\<lparr>mem := (mem a)(slot := m)\<rparr>)"
  using assms unfolding arena_inv_def slots_of_def by (auto simp: image_iff split: prod.splits)

lemma inv_counters:
  "arena_inv (a\<lparr>bytes_promoted := n\<rparr>) = arena_inv a" "arena_inv (a\<lparr>torn_reads := n\<rparr>) = arena_inv a"
  "arena_inv (a\<lparr>arena_misses := n\<rparr>) = arena_inv a" "arena_inv (a\<lparr>recent_evicted_keys := ks\<rparr>) = arena_inv a"
  "arena_inv (log_eviction a k) = arena_inv a"
  by (simp_all add: arena_inv_def slots_of_def)

lemma arena_put_step:
  assumes "arena_inv a" and "arena_put a k v = (res, a')"
  shows "arena_inv a'"
    and "res = Inr (Some slot) \<Longrightarrow> arena_lookup a' k = Some v"
    and "arena_lookup a' k' = Some x \<Longrightarrow> k' \<noteq> k \<or> (\<forall>slot. res \<noteq> Inr (Some slot)) \<Longrightarrow> arena_lookup a k' = Some x"
proof -
  obtain r b where al: "put_alloc a k (length v) = (r, b)" by (cases "put_alloc a k (length v)")
  have "arena_inv a' \<and> (\<forall>slot. res = Inr (Some slot) \<longrightarrow> arena_lookup a' k = Some v) \<and>
    (\<forall>k' x. arena_lookup a' k' = Some x \<longrightarrow> k' \<noteq> k \<or> (\<forall>slot. res \<noteq> Inr (Some slot)) \<longrightarrow>
       arena_lookup a k' = Some x)"
  proof (cases "\<exists>slot. r = Inr (Some slot)")
    case False
    with assms(2) al have "a' = b" "res = r"
      by (auto simp: arena_put_def split: sum.splits option.splits)
    with put_alloc_refused [OF assms(1) al] False show ?thesis
      using shrinks_lookup by (auto simp: shrinks_def)
  next
    case True
    then obtain slot where r: "r = Inr (Some slot)" by blast
    note acc = put_alloc_accepted [OF assms(1) al [unfolded r]]
    obtain e m where w: "write_slot_seqlock v (mem b slot) = (e, m)" by (cases "write_slot_seqlock v (mem b slot)")
    have verb: "slot_version (mem b slot) < 2 ^ 32"
      using acc unfolding arena_inv_def by blast
    have ver: "slot_version m < 2 ^ 32"
      using write_slot_version [OF verb, of v] unfolding w by simp
    have inv: "arena_inv (b\<lparr>mem := (mem b)(slot := m)\<rparr>)"
      using acc ver by (intro inv_mem_update) auto
    have a': "slot_index a' = slot_index b" "slot_size a' = slot_size b" "mem a' = (mem b)(slot := m)" "arena_inv a'"
      "res = (case e of None \<Rightarrow> Inr (Some slot) | Some x \<Rightarrow> Inl x)"
      using assms(2) al r w inv inv_counters(1) [where a = "b\<lparr>mem := (mem b)(slot := m)\<rparr>"]
      by (auto simp: arena_put_def put_write_def split: option.splits)
    have own: "arena_lookup a' k = (case e of None \<Rightarrow> Some v | Some _ \<Rightarrow> None)"
    proof (cases e)
      case None
      then show ?thesis
        using acc write_slot_ok [of v "mem b slot" m "slot_size b"] w by (simp add: arena_lookup_def a')
    next
      case (Some x)
      then show ?thesis
        using acc write_slot_failed [OF _ verb, of v x m "slot_size b"] w by (simp add: arena_lookup_def a')
    qed
    have other: "arena_lookup a k' = Some x" if "arena_lookup a' k' = Some x" "k' \<noteq> k" for k' x
      using that acc by (auto simp: arena_lookup_def a' split: option.splits)
    show ?thesis using a' own other by (cases e) fastforce+
  qed
  then show "arena_inv a'" "res = Inr (Some slot) \<Longrightarrow> arena_lookup a' k = Some v"
    "arena_lookup a' k' = Some x \<Longrightarrow> k' \<noteq> k \<or> (\<forall>slot. res \<noteq> Inr (Some slot)) \<Longrightarrow> arena_lookup a k' = Some x"
    by blast+
qed

lemma mark_writing_odd:
  assumes "slot_version m < 2 ^ 32" and "mark_writing m = (e, m')"
  shows "slot_version m' mod 2 = 1 \<and> slot_version m' < 2 ^ 32 \<and> (e \<noteq> None \<longrightarrow> m' = m)"
proof (cases "next_odd (slot_version m) < 2 ^ 32")
  case True
  then show ?thesis using assms(2) next_odd_odd by (auto simp: mark_writing_def pack_u32_def)
next
  case False
  with assms(1) have "slot_version m mod 2 = 1"
    unfolding next_odd_def by (auto split: if_splits)
  with False assms show ?thesis by (auto simp: mark_writing_def pack_u32_def)
qed

text \<open>Handing a taken slot to a lease.\<close>

lemma lease_inv:
  assumes "arena_inv a" and "take_slot a = Inr (slot, b)" and "n + HEADER_BYTES \<le> slot_size a"
    and "slot_version m mod 2 = 1" and "slot_version m < 2 ^ 32"
  shows "shrinks (a\<lparr>mem := (mem a)(slot := m)\<rparr>)
    (b\<lparr>next_lease_token := next_lease_token b + 1,
       reservations := dict_put (next_lease_token b)
         \<lparr>slot_id = slot, promised_size = n, connection_id = c\<rparr> (reservations b),
       mem := (mem b)(slot := m)\<rparr>)" (is "shrinks _ ?d")
proof -
  note t = take_slot_inv [OF assms(1,2)] and sp = take_slot_spec [OF assms(2)]
  have tok: "\<forall>t \<in> fst ` set (reservations b). t < next_lease_token b"
    using assms(1) sp unfolding arena_inv_def by simp
  then have "dict_get (reservations b) (next_lease_token b) = None"
    by (auto simp: dict_get_None_iff)
  then have put: "dict_put (next_lease_token b) r (reservations b) = reservations b @ [(next_lease_token b, r)]" for r
    by (simp add: dict_put_new)
  define d where "d = ?d"
  have res: "reservations d = reservations b @ [(next_lease_token b, \<lparr>slot_id = slot, promised_size = n, connection_id = c\<rparr>)]"
    by (simp add: d_def put)
  have idx: "slot_index d = slot_index b" "free_slots d = free_slots b" "num_slots d = num_slots a"
    "slot_size d = slot_size a" "mem d = (mem a)(slot := m)" "next_lease_token d = next_lease_token b + 1"
    using sp by (simp_all add: d_def)
  have "slots_of d = slots_of a" using sp by (simp add: slots_of_def res idx)
  moreover have "dict_wf (reservations d)"
    using assms(1) sp tok by (auto simp: res arena_inv_def)
  moreover have "\<forall>t \<in> fst ` set (reservations d). t < next_lease_token d"
    using tok by (auto simp: res idx less_Suc_eq)
  moreover have "slot_version (mem d (slot_id r)) mod 2 = 1 \<and> promised_size r + HEADER_BYTES \<le> slot_size d"
    if "(x, r) \<in> set (reservations d)" for x r
  proof (cases "slot_id r = slot")
    case True
    have "(x, r) \<notin> set (reservations a)"
    proof
      assume "(x, r) \<in> set (reservations a)"
      then have "(slot_id \<circ> snd) (x, r) \<in> (slot_id \<circ> snd) ` set (reservations a)" by (rule imageI)
      with True t(2) show False by simp
    qed
    with that sp have "r = \<lparr>slot_id = slot, promised_size = n, connection_id = c\<rparr>" by (simp add: res)
    with assms(3,4) show ?thesis by (simp add: idx)
  next
    case False
    with that sp have "(x, r) \<in> set (reservations a)" by (auto simp: res)
    with False assms(1) show ?thesis unfolding arena_inv_def idx by auto
  qed
  moreover have "slots_of a = mset [0..<num_slots d]" "slot_size d = 0 \<longrightarrow> num_slots d = 0"
    "dict_wf (slot_index d)" "\<forall>s. slot_version (mem d s) < 2 ^ 32"
    using assms(1,5) t(4) unfolding arena_inv_def by (simp_all add: idx)
  ultimately have "arena_inv d" by (intro arena_invI) simp_all
  then show ?thesis
    using t(5) unfolding d_def [symmetric] by (simp add: shrinks_def idx)
qed

lemma lookup_other_slot:
  assumes "slot \<notin> snd ` set (slot_index b)" and "shrinks (a\<lparr>mem := (mem a)(slot := m)\<rparr>) b"
    and "arena_lookup b k = Some v"
  shows "arena_lookup a k = Some v"
proof -
  obtain s where s: "dict_get (slot_index b) k = Some s" "read_slot (slot_size b) (mem b s) = Some v"
    using assms(3) by (auto simp: arena_lookup_def split: option.splits)
  then have "s \<noteq> slot" using assms(1) by (force dest: map_of_SomeD)
  with s assms(2) show ?thesis by (auto simp: shrinks_def arena_lookup_def)
qed

lemma reserve_step:
  assumes "arena_inv a" and "reserve a n c = (res, a')"
  shows "arena_inv a' \<and> (\<forall>k v. arena_lookup a' k = Some v \<longrightarrow> arena_lookup a k = Some v)"
proof (cases "n \<le> 0 \<or> nat n > arena_capacity a \<or> init_grid a (nat n) = None")
  case True
  then have "a' = a \<or> a' = a\<lparr>num_slots := 0\<rparr> \<and> init_grid a (nat n) = None"
    using assms(2) by (auto simp: reserve_def split: if_splits)
  then have "shrinks a a'" using assms(1) no_grid_inv shrinks_refl by (elim disjE) auto
  then show ?thesis using shrinks_lookup unfolding shrinks_def by blast
next
  case False
  then obtain b where b: "init_grid a (nat n) = Some b" by auto
  then have sh: "shrinks a b" "arena_inv b"
    using assms(1) shrinks_init_grid init_grid_inv by blast+
  show ?thesis
  proof (cases "nat n + HEADER_BYTES > slot_size b \<or> isl (take_slot b)")
    case True
    then have "a' = b"
      using assms(2) b False by (auto simp: reserve_def split: sum.splits if_splits)
    then show ?thesis using sh shrinks_lookup by blast
  next
    case fits: False
    then obtain slot d where d: "take_slot b = Inr (slot, d)"
      by (cases "take_slot b") auto
    note t = take_slot_inv [OF sh(2) d] and sp = take_slot_spec [OF d]
    obtain e m where m: "mark_writing (mem b slot) = (e, m)" by (cases "mark_writing (mem b slot)")
    have "slot_version (mem b slot) < 2 ^ 32" using sh(2) unfolding arena_inv_def by blast
    note odd = mark_writing_odd [OF this m]
    let ?d = "d\<lparr>next_lease_token := next_lease_token d + 1,
       reservations := dict_put (next_lease_token d)
         \<lparr>slot_id = slot, promised_size = nat n, connection_id = c\<rparr> (reservations d),
       mem := (mem d)(slot := m)\<rparr>"
    have "\<not> (free_slots b = [] \<and> slot_index b = [])"
      using d by (auto simp: take_slot_def split: list.splits)
    moreover have "mem d = mem b" using sp by simp
    moreover have "a' = snd (reserve a n c)" using assms(2) by simp
    moreover have "e \<noteq> None \<Longrightarrow> (mem b)(slot := m) = mem b" using odd by simp
    ultimately have a': "a' = ?d"
      using b False fits d m by (cases e; cases "free_slots b = []") (simp_all add: reserve_def Let_def)
    have shr: "shrinks (b\<lparr>mem := (mem b)(slot := m)\<rparr>) ?d"
      using fits odd by (intro lease_inv [OF sh(2) d]) auto
    have "arena_lookup b k = Some v" if "arena_lookup ?d k = Some v" for k v
      using t(1) by (intro lookup_other_slot [OF _ shr that]) simp
    then have "arena_lookup a k = Some v" if "arena_lookup ?d k = Some v" for k v
      using that shrinks_lookup [OF sh(1)] by blast
    moreover have "arena_inv ?d" using shr unfolding shrinks_def by blast
    ultimately show ?thesis unfolding a' by blast
  qed
qed

text \<open>A leased slot has no other owner.\<close>

lemma lease_slot:
  assumes "arena_inv a" and "dict_get (reservations a) t = Some r"
  shows "slot_id r \<notin> snd ` set (slot_index a)" "slot_id r \<notin> set (free_slots a)"
    "slot_id r \<notin> (slot_id \<circ> snd) ` set (dict_del t (reservations a))" "slot_id r < num_slots a"
proof -
  note D = arena_invD [OF assms(1)]
  let ?rest = "mset (free_slots a) + image_mset snd (mset (slot_index a)) +
    image_mset (slot_id \<circ> snd) (mset (dict_del t (reservations a)))"
  have s: "slots_of a = add_mset (slot_id r) ?rest"
    by (simp add: slots_of_def mset_dict_del [OF D(2) assms(2)])
  have "count (slots_of a) (slot_id r) \<le> 1" by (rule slots_distinct [OF D(4)])
  with s have "count ?rest (slot_id r) = 0" by simp
  then have "slot_id r \<notin># ?rest" by (simp only: not_in_iff)
  then show "slot_id r \<notin> snd ` set (slot_index a)" "slot_id r \<notin> set (free_slots a)"
    "slot_id r \<notin> (slot_id \<circ> snd) ` set (dict_del t (reservations a))" by auto
  have "slot_id r \<in># slots_of a" using s by simp
  then show "slot_id r < num_slots a" using D(4) by simp
qed

lemma next_even_even: "next_even v mod 2 = 0"
  by (auto simp: next_even_def mod_Suc)

lemma stamp_spec:
  assumes "stamp n m = (e, m')" and "slot_version m < 2 ^ 32" and "slot_version m mod 2 = 1"
    and "n + HEADER_BYTES \<le> ss"
  shows "slot_version m' < 2 ^ 32"
    and "read_slot ss m' = (if e = None then Some (map (slot_payload m) [0..<n]) else None)"
proof -
  show "slot_version m' < 2 ^ 32"
    using assms(1,2) by (auto simp: stamp_def pack_u32_def Let_def split: if_splits)
  show "read_slot ss m' = (if e = None then Some (map (slot_payload m) [0..<n]) else None)"
    using assms(1,3,4) next_even_even [of "slot_version m"]
    by (auto simp: stamp_def pack_u32_def Let_def read_slot_def split: if_splits)
qed

text \<open>What the commit does to the allocator: the lease's slot moves to the key, the key's former
  slot to the free list.\<close>

lemma commit_alloc_inv:
  assumes "arena_inv a" and "dict_get (reservations a) t = Some r"
    and "slot_index b = dict_put k (slot_id r) (dict_del k (slot_index a))"
    and "free_slots b = (case dict_get (slot_index a) k of None \<Rightarrow> free_slots a
        | Some x \<Rightarrow> if x \<noteq> slot_id r then free_slots a @ [x] else free_slots a)"
    and "reservations b = dict_del t (reservations a)"
    and "num_slots b = num_slots a" "slot_size b = slot_size a" "mem b = mem a"
    "next_lease_token b = next_lease_token a"
  shows "arena_inv b"
proof -
  note D = arena_invD [OF assms(1)] and L = lease_slot [OF assms(1,2)]
  have idx: "slot_index b = dict_del k (slot_index a) @ [(k, slot_id r)]"
    by (simp add: assms(3) dict_put_new dict_get_del)
  have res: "mset (reservations a) = add_mset (t, r) (mset (reservations b))"
    by (simp add: assms(5) mset_dict_del [OF D(2) assms(2)])
  have slots: "slots_of b = slots_of a"
  proof (cases "dict_get (slot_index a) k")
    case None
    then show ?thesis by (simp add: slots_of_def idx assms(4) res dict_del_absent)
  next
    case (Some x)
    then have "x \<noteq> slot_id r" using L(1) by (force dest: map_of_SomeD)
    with Some show ?thesis
      by (simp add: slots_of_def idx assms(4) res mset_dict_del [OF D(1) Some])
  qed
  show ?thesis
  proof (rule arena_invI)
    show "dict_wf (slot_index b)" unfolding assms(3) by (intro dict_wf_put dict_wf_del D(1))
    show "dict_wf (reservations b)" unfolding assms(5) by (intro dict_wf_del D(2))
    show "\<forall>x \<in> fst ` set (reservations b). x < next_lease_token b"
      using D(3) by (auto simp: assms(5,9) AList.delete_eq)
    show "slots_of b = mset [0..<num_slots b]" using D(4) by (simp add: slots assms(6))
    show "slot_size b = 0 \<longrightarrow> num_slots b = 0" using D(5) by (simp add: assms(6,7))
    show "\<forall>s. slot_version (mem b s) < 2 ^ 32" using D(6) by (simp add: assms(8))
    fix x q
    assume "(x, q) \<in> set (reservations b)"
    then have "(x, q) \<in> set (reservations a)" by (auto simp: assms(5) AList.delete_eq)
    then show "slot_version (mem b (slot_id q)) mod 2 = 1 \<and> promised_size q + HEADER_BYTES \<le> slot_size b"
      using D(7) [of x q] by (simp add: assms(7,8))
  qed
qed

lemma commit_step:
  assumes "arena_inv a" and "commit_reservation a t k n c = (res, a')"
  shows "arena_inv a'"
    and "res = Inr (Committed x) \<Longrightarrow> dict_get (reservations a) t = Some r \<Longrightarrow>
      arena_lookup a' k = Some (map (slot_payload (mem a (slot_id r))) [0..<nat n])"
    and "arena_lookup a' k' = Some v \<Longrightarrow> k' \<noteq> k \<or> (\<forall>x. res \<noteq> Inr (Committed x)) \<Longrightarrow>
      arena_lookup a k' = Some v"
proof -
  have "arena_inv a' \<and>
    (\<forall>x. res = Inr (Committed x) \<longrightarrow> (\<forall>r. dict_get (reservations a) t = Some r \<longrightarrow>
      arena_lookup a' k = Some (map (slot_payload (mem a (slot_id r))) [0..<nat n]))) \<and>
    (\<forall>k' v. arena_lookup a' k' = Some v \<longrightarrow> k' \<noteq> k \<or> (\<forall>x. res \<noteq> Inr (Committed x)) \<longrightarrow>
      arena_lookup a k' = Some v)"
  proof (cases "\<exists>r. dict_get (reservations a) t = Some r \<and> connection_id r = c \<and> 0 \<le> n \<and> n \<le> int (promised_size r)")
    case False
    then have "a' = a" "\<And>x. res \<noteq> Inr (Committed x)"
      using assms(2) by (auto simp: commit_reservation_def split: option.splits if_splits)
    then show ?thesis using assms(1) by simp
  next
    case True
    then obtain r where r: "dict_get (reservations a) t = Some r" "connection_id r = c" "0 \<le> n" "n \<le> int (promised_size r)"
      by blast
    note D = arena_invD [OF assms(1)] and L = lease_slot [OF assms(1) r(1)]
    obtain e m where st: "stamp (nat n) (mem a (slot_id r)) = (e, m)"
      by (cases "stamp (nat n) (mem a (slot_id r))")
    have rin: "(t, r) \<in> set (reservations a)" by (rule map_of_SomeD [OF r(1)])
    have fit: "nat n + HEADER_BYTES \<le> slot_size a" using D(7) [OF rin] r(3,4) by linarith
    have odd: "slot_version (mem a (slot_id r)) mod 2 = 1" using D(7) [OF rin] by simp
    note S = stamp_spec [OF st D(6) [rule_format] odd fit]
    define b where "b = a\<lparr>slot_index := dict_put k (slot_id r) (dict_del k (slot_index a)),
      free_slots := (case dict_get (slot_index a) k of None \<Rightarrow> free_slots a
        | Some x \<Rightarrow> if x \<noteq> slot_id r then free_slots a @ [x] else free_slots a),
      reservations := dict_del t (reservations a),
      reservations_committed := reservations_committed a + 1, bytes_promoted := bytes_promoted a + nat n\<rparr>"
    have f: "slot_index b = dict_put k (slot_id r) (dict_del k (slot_index a))" "slot_size b = slot_size a"
      "mem b = mem a" "reservations b = dict_del t (reservations a)"
      by (simp_all add: b_def)
    have "arena_inv b"
      by (rule commit_alloc_inv [OF assms(1) r(1), where k = k]) (simp_all add: b_def)
    then have inv: "arena_inv (b\<lparr>mem := (mem b)(slot_id r := m)\<rparr>)"
      using S(1) L(3) by (intro inv_mem_update) (simp_all add: f)
    have a': "a' = b\<lparr>mem := (mem b)(slot_id r := m)\<rparr>"
      and res: "(\<exists>x. res = Inr (Committed x)) \<longleftrightarrow> e = None"
      using assms(2) r st
      by (cases e; simp add: commit_reservation_def Let_def b_def; blast)+
    have own: "arena_lookup a' k = (if e = None then Some (map (slot_payload (mem a (slot_id r))) [0..<nat n]) else None)"
      using S(2) by (simp add: arena_lookup_def a' f dict_get_put)
    have other: "arena_lookup a' k' = arena_lookup a k'" if "k' \<noteq> k" for k'
    proof (cases "dict_get (slot_index a) k'")
      case None
      with that show ?thesis by (simp add: arena_lookup_def a' f dict_get_put dict_get_del)
    next
      case (Some s)
      then have "s \<noteq> slot_id r" using L(1) by (force dest: map_of_SomeD)
      with Some that show ?thesis by (simp add: arena_lookup_def a' f dict_get_put dict_get_del)
    qed
    show ?thesis
    proof (intro conjI allI impI)
      show "arena_inv a'" using inv a' by simp
      fix x q
      assume "res = Inr (Committed x)" "dict_get (reservations a) t = Some q"
      then show "arena_lookup a' k = Some (map (slot_payload (mem a (slot_id q))) [0..<nat n])"
        using res own r(1) by simp
    next
      fix k' v
      assume l: "arena_lookup a' k' = Some v" and o: "k' \<noteq> k \<or> (\<forall>x. res \<noteq> Inr (Committed x))"
      have "k' \<noteq> k"
      proof
        assume "k' = k"
        with o res have "e \<noteq> None" by blast
        with l own \<open>k' = k\<close> show False by simp
      qed
      with l other show "arena_lookup a k' = Some v" by simp
    qed
  qed
  then show "arena_inv a'"
    "res = Inr (Committed x) \<Longrightarrow> dict_get (reservations a) t = Some r \<Longrightarrow>
      arena_lookup a' k = Some (map (slot_payload (mem a (slot_id r))) [0..<nat n])"
    "arena_lookup a' k' = Some v \<Longrightarrow> k' \<noteq> k \<or> (\<forall>x. res \<noteq> Inr (Committed x)) \<Longrightarrow>
      arena_lookup a k' = Some v"
    by blast+
qed

section \<open>The remaining operations\<close>

text \<open>An operation that moves slots from the index or the leases to the free list only shrinks.\<close>

lemma shrinksI:
  assumes "arena_inv a" and "slots_of b = slots_of a" and "dict_wf (slot_index b)"
    and "\<And>k s. dict_get (slot_index b) k = Some s \<Longrightarrow> dict_get (slot_index a) k = Some s"
    and "dict_wf (reservations b)" "set (reservations b) \<subseteq> set (reservations a)"
    and "num_slots b = num_slots a" "slot_size b = slot_size a" "mem b = mem a"
    "next_lease_token b = next_lease_token a"
  shows "shrinks a b"
proof -
  note D = arena_invD [OF assms(1)]
  have "arena_inv b"
  proof (rule arena_invI)
    show "\<forall>x \<in> fst ` set (reservations b). x < next_lease_token b"
      using D(3) assms(6) by (auto simp: assms(10))
    show "slots_of b = mset [0..<num_slots b]" using D(4) by (simp add: assms(2,7))
    show "slot_size b = 0 \<longrightarrow> num_slots b = 0" using D(5) by (simp add: assms(7,8))
    show "\<forall>s. slot_version (mem b s) < 2 ^ 32" using D(6) by (simp add: assms(9))
    fix x r
    assume "(x, r) \<in> set (reservations b)"
    then have "(x, r) \<in> set (reservations a)" using assms(6) by blast
    then show "slot_version (mem b (slot_id r)) mod 2 = 1 \<and> promised_size r + HEADER_BYTES \<le> slot_size b"
      using D(7) [of x r] by (simp add: assms(8,9))
  qed (rule assms(3,5))+
  then show ?thesis using assms(4,8,9) by (simp add: shrinks_def)
qed

lemma shrinks_same:
  assumes "arena_inv a" and "slot_index b = slot_index a" "free_slots b = free_slots a" "reservations b = reservations a"
    "num_slots b = num_slots a" "slot_size b = slot_size a" "mem b = mem a" "next_lease_token b = next_lease_token a"
  shows "shrinks a b"
  using assms arena_invD(1,2) [OF assms(1)] by (intro shrinksI) (simp_all add: slots_of_def)

lemma cancel_shrinks:
  assumes "arena_inv a"
  shows "shrinks a (snd (cancel_reservation a t c))"
proof (cases "\<exists>r. dict_get (reservations a) t = Some r \<and> connection_id r = c")
  case False
  then show ?thesis
    using shrinks_refl [OF assms] by (auto simp: cancel_reservation_def split: option.split)
next
  case True
  then obtain r where r: "dict_get (reservations a) t = Some r" "connection_id r = c" by blast
  note D = arena_invD [OF assms]
  define b where "b = snd (cancel_reservation a t c)"
  have f: "slot_index b = slot_index a" "free_slots b = free_slots a @ [slot_id r]"
    "reservations b = dict_del t (reservations a)" "num_slots b = num_slots a" "slot_size b = slot_size a"
    "mem b = mem a" "next_lease_token b = next_lease_token a"
    using r by (simp_all add: b_def cancel_reservation_def)
  have "slots_of b = slots_of a"
    by (simp add: slots_of_def f mset_dict_del [OF D(2) r(1)])
  moreover have "set (dict_del t (reservations a)) \<subseteq> set (reservations a)"
    by (auto simp: AList.delete_eq)
  ultimately show ?thesis
    unfolding b_def [symmetric]
    by (intro shrinksI [OF assms]) (simp_all add: f D(1) dict_wf_del [OF D(2)])
qed

lemma cancel_connection_shrinks:
  assumes "arena_inv a"
  shows "shrinks a (snd (cancel_connection_reservations a c))"
proof -
  note D = arena_invD [OF assms]
  have part: "image_mset (slot_id \<circ> snd) (mset rs) =
    mset (map (\<lambda>(_, r). slot_id r) (filter (\<lambda>(_, r). connection_id r = c) rs)) +
    image_mset (slot_id \<circ> snd) (mset (filter (\<lambda>(_, r). connection_id r \<noteq> c) rs))" for rs
    by (induction rs) (auto simp del: mset_map mset_filter)
  show ?thesis
    by (rule shrinksI [OF assms])
      (use D(1,2) in \<open>auto simp: cancel_connection_reservations_def Let_def slots_of_def part [of "reservations a"]
         distinct_map_filter simp del: mset_filter mset_map\<close>)
qed

lemma evict_lru_shrinks:
  assumes "arena_inv a"
  shows "shrinks a (snd (arena_evict_lru a b))"
proof (cases "slot_index a")
  case Nil
  then show ?thesis using shrinks_refl [OF assms] by (simp add: arena_evict_lru_def)
next
  case (Cons x rest)
  obtain k s where x: "x = (k, s)" by (cases x)
  note D = arena_invD [OF assms]
  have "dict_get (slot_index a) k' = Some s'" if "dict_get rest k' = Some s'" for k' s'
    using dict_get_suffix [of "[x]" rest k' s'] D(1) that Cons by simp
  moreover define d where "d = a\<lparr>slot_index := rest, free_slots := free_slots a @ [s],
    arena_evictions := arena_evictions a + 1\<rparr>"
  ultimately have "shrinks a d"
    using D(1,2) Cons by (intro shrinksI [OF assms]) (simp_all add: x slots_of_def)
  moreover from this have "shrinks d (log_eviction d k)"
    by (intro shrinks_same) (simp_all add: shrinks_def)
  moreover have "snd (arena_evict_lru a b) = (if b then log_eviction d k else d)"
    by (simp add: arena_evict_lru_def Cons x Let_def d_def)
  ultimately show ?thesis using shrinks_trans by auto
qed

lemma evict_key_shrinks:
  assumes "arena_inv a"
  shows "shrinks a (snd (arena_evict_key a k b))"
proof (cases "dict_get (slot_index a) k")
  case None
  then show ?thesis using shrinks_refl [OF assms] by (simp add: arena_evict_key_def)
next
  case (Some s)
  have "shrinks (free_key a k) (log_eviction (free_key a k) k)"
    by (rule shrinks_same [OF free_key_inv [OF assms]]) simp_all
  with Some shrinks_free_key [OF assms] show ?thesis
    using shrinks_trans by (auto simp: arena_evict_key_def Let_def)
qed

lemma mset_move_to_end: "dict_wf d \<Longrightarrow> mset (dict_move_to_end k d) = mset d"
  by (auto simp: dict_move_to_end_def mset_dict_del split: option.split)

lemma get_slot_shrinks:
  assumes "arena_inv a"
  shows "shrinks a (snd (get_slot_for_key a k))"
proof -
  note D = arena_invD [OF assms]
  show ?thesis
  proof (cases "dict_get (slot_index a) k")
    case None
    then show ?thesis by (intro shrinks_same [OF assms]) (simp_all add: get_slot_for_key_def)
  next
    case (Some s)
    then show ?thesis
      using D(1,2) by (intro shrinksI [OF assms])
        (simp_all add: get_slot_for_key_def slots_of_def mset_move_to_end dict_wf_move_to_end dict_get_move_to_end)
  qed
qed

lemma get_slice_shrinks: "arena_inv a \<Longrightarrow> shrinks a (snd (get_slice a s))"
  by (rule shrinks_same) (simp_all add: get_slice_def split: option.split)

lemma drain_shrinks: "arena_inv a \<Longrightarrow> shrinks a (snd (drain_recent_evictions a))"
  by (rule shrinks_same) (simp_all add: drain_recent_evictions_def)

lemma clear_shrinks:
  assumes "arena_inv a" and "reservations a = []"
  shows "shrinks a (arena_clear a)"
proof -
  note D = arena_invD [OF assms(1)]
  show ?thesis
    using D(4) assms(2) by (intro shrinksI [OF assms(1)]) (simp_all add: arena_clear_def slots_of_def)
qed

text \<open>A lease holder's write is invisible to every key.\<close>

lemma engine_write_step:
  assumes "arena_inv a" and "dict_get (reservations a) t = Some r"
  shows "arena_inv (engine_write a (slot_id r) v)"
    and "arena_lookup (engine_write a (slot_id r) v) k = arena_lookup a k"
proof -
  note D = arena_invD [OF assms(1)] and L = lease_slot [OF assms]
  have "slot_version (mem a (slot_id r)) mod 2 = 1" using D(7) [OF map_of_SomeD [OF assms(2)]] by simp
  then have "slot_version (write_payload v (mem a (slot_id r))) mod 2 = 1" by (simp add: write_payload_def)
  moreover have "slot_version (write_payload v (mem a (slot_id r))) < 2 ^ 32"
    using D(6) [rule_format, of "slot_id r"] by (simp add: write_payload_def)
  ultimately show "arena_inv (engine_write a (slot_id r) v)"
    unfolding engine_write_def by (intro inv_mem_update [OF assms(1)] disjI2)
  show "arena_lookup (engine_write a (slot_id r) v) k = arena_lookup a k"
  proof (cases "dict_get (slot_index a) k")
    case (Some s)
    then have "s \<noteq> slot_id r" using L(1) by (force dest: map_of_SomeD)
    with Some show ?thesis by (simp add: arena_lookup_def engine_write_def)
  qed (simp add: arena_lookup_def engine_write_def)
qed

section \<open>The arena as a storage tier\<close>

fun only_drops :: "arena_op \<Rightarrow> bool" where
  "only_drops (APut k v) = False"
| "only_drops (AReserve n c) = False"
| "only_drops (AEngineWrite t v) = False"
| "only_drops (ACommit t k n c) = False"
| "only_drops _ = True"

lemma arena_step_shrinks:
  assumes "arena_inv a" and "only_drops op"
  shows "shrinks a (arena_step a op)"
  using assms(2) cancel_shrinks [OF assms(1)] cancel_connection_shrinks [OF assms(1)]
    evict_lru_shrinks [OF assms(1)] evict_key_shrinks [OF assms(1)] get_slot_shrinks [OF assms(1)]
    get_slice_shrinks [OF assms(1)] drain_shrinks [OF assms(1)] clear_shrinks [OF assms(1)] shrinks_refl [OF assms(1)]
  by (cases op) simp_all

lemma arena_step_inv:
  assumes "arena_inv a"
  shows "arena_inv (arena_step a op)"
proof (cases op)
  case (APut k v)
  then show ?thesis using arena_put_step(1) [OF assms, of k v] by (cases "arena_put a k v") simp
next
  case (AReserve n c)
  then show ?thesis using reserve_step [OF assms, of n c] by (cases "reserve a n c") simp
next
  case (AEngineWrite t v)
  then show ?thesis using engine_write_step(1) [OF assms] assms by (auto split: option.split)
next
  case (ACommit t k n c)
  then show ?thesis using commit_step(1) [OF assms, of t k n c] by (cases "commit_reservation a t k n c") simp
qed (use arena_step_shrinks [OF assms, of op] in \<open>simp_all add: shrinks_def\<close>)

lemma arena_step_stored:
  assumes "arena_inv a" and "arena_stores a op = Some (k, v)"
  shows "arena_lookup (arena_step a op) k = Some v"
proof (cases op)
  case (APut k' v')
  then show ?thesis
    using arena_put_step(2) [OF assms(1), of k' v'] assms(2)
    by (cases "arena_put a k' v'") (auto split: sum.splits option.splits)
next
  case (ACommit t k' n c)
  then show ?thesis
    using commit_step(2) [OF assms(1), of t k' n c] assms(2)
    by (cases "commit_reservation a t k' n c") (auto split: sum.splits option.splits commit_result.splits)
qed (use assms(2) in simp_all)

lemma arena_step_not_stored:
  assumes "arena_inv a" and "arena_lookup (arena_step a op) k = Some v"
    and "\<forall>x. arena_stores a op \<noteq> Some (k, x)"
  shows "arena_lookup a k = Some v"
proof (cases op)
  case (APut k' v')
  obtain res a' where p: "arena_put a k' v' = (res, a')" by (cases "arena_put a k' v'")
  have "k \<noteq> k' \<or> (\<forall>slot. res \<noteq> Inr (Some slot))" using assms(3) APut p by auto
  then show ?thesis using arena_put_step(3) [OF assms(1) p] assms(2) APut p by simp
next
  case (AReserve n c)
  then show ?thesis using reserve_step [OF assms(1), of n c] assms(2) by (cases "reserve a n c") simp
next
  case (AEngineWrite t v')
  then show ?thesis
    using engine_write_step(2) [OF assms(1)] assms(2) by (auto split: option.splits if_splits)
next
  case (ACommit t k' n c)
  obtain res a' where p: "commit_reservation a t k' n c = (res, a')" by (cases "commit_reservation a t k' n c")
  have "k \<noteq> k' \<or> (\<forall>x. res \<noteq> Inr (Committed x))"
    using assms(3) ACommit p by (auto simp: commit_reservation_def split: option.splits)
  then show ?thesis using commit_step(3) [OF assms(1) p] assms(2) ACommit p by simp
qed (use arena_step_shrinks [OF assms(1), of op] shrinks_lookup [of a "arena_step a op"] assms(2) in simp_all)

interpretation arena_tier: cache_tier arena_inv arena_lookup arena_step arena_stores
  by unfold_locales (fact arena_step_inv arena_step_stored arena_step_not_stored)+

lemma make_arena_inv: "make_arena c = Inr a \<Longrightarrow> arena_inv a"
  by (auto simp: make_arena_def arena_inv_def slots_of_def split: if_splits)

lemma make_arena_empty: "make_arena c = Inr a \<Longrightarrow> arena_lookup a k = None"
  by (auto simp: make_arena_def arena_lookup_def split: if_splits)

lemmas arena_run_inv = arena_tier.inv_run [OF make_arena_inv]

text \<open>
  C8. Whatever sequence of puts, reservations, writes of lease holders, commits, cancellations,
  evictions, reads and clears an arena goes through, the free list, the slots of the key index and the
  slots under lease partition the slots of the grid: no slot is handed out twice and none is lost. The
  one condition is that no clear runs while a lease is out, which the code does not check;
  \<open>clear_double_leases\<close> shows what happens otherwise.
\<close>

theorem arena_slots_partition:
  assumes "make_arena c = Inr a" and "clears_unleased a ops" and "b = foldl arena_exec a ops"
  shows "distinct (free_slots b @ map snd (slot_index b) @ map (slot_id \<circ> snd) (reservations b)) \<and>
    set (free_slots b @ map snd (slot_index b) @ map (slot_id \<circ> snd) (reservations b)) = {0..<num_slots b}"
proof -
  let ?xs = "free_slots b @ map snd (slot_index b) @ map (slot_id \<circ> snd) (reservations b)"
  have b: "b = foldl arena_step a ops" unfolding assms(3) by (rule exec_eq_step [OF assms(2)])
  have "mset ?xs = mset [0..<num_slots b]"
    using arena_invD(4) [OF arena_run_inv [OF assms(1), of ops]] by (simp add: b slots_of_def add.assoc)
  then show ?thesis
    by (metis distinct_upt mset_eq_imp_distinct_iff mset_eq_setD set_upt)
qed

theorem arena_slots_partition_witness:
  "\<exists>a. make_arena 200 = Inr a \<and> clears_unleased a [AClear, APut [1] [7, 7], AReserve 5 1] \<and>
    distinct (free_slots (foldl arena_exec a [AClear, APut [1] [7, 7], AReserve 5 1]) @
      map snd (slot_index (foldl arena_exec a [AClear, APut [1] [7, 7], AReserve 5 1])) @
      map (slot_id \<circ> snd) (reservations (foldl arena_exec a [AClear, APut [1] [7, 7], AReserve 5 1])))"
proof -
  obtain a where a: "make_arena 200 = Inr a" "reservations a = []" by (simp add: make_arena_def)
  have c: "clears_unleased a [AClear, APut [1] [7, 7], AReserve 5 1]" using a(2) by simp
  from arena_slots_partition [OF a(1) c refl] a(1) c show ?thesis by blast
qed

text \<open>
  C3. A read of a key through the arena's index returns exactly the bytes of the last accepted put
  or committed lease of that key, never another key's bytes, a refused write's or a half-written
  slot's: slots that are recycled, overwritten, leased or left odd by a failed write read as absent.
  The history takes a clear only while no lease is out.
\<close>

theorem arena_serves_last_store:
  assumes "make_arena c = Inr a" and "arena_lookup (foldl arena_step a ops) k = Some v"
  shows "last_stored arena_step arena_stores a k None ops = Some v"
  by (rule arena_tier.lookup_from_empty [OF make_arena_inv [OF assms(1)] make_arena_empty [OF assms(1)] assms(2)])

text \<open>The lease protocol on a one-slot arena, as the round trip evaluates it.\<close>

definition arena_demo :: SharedArena where
  "arena_demo = (case make_arena 64 of Inr a \<Rightarrow> a)"

lemma arena_demo_ok: "make_arena 64 = Inr arena_demo"
  by (simp add: arena_demo_def make_arena_def)

lemmas arena_eval = arena_demo_def make_arena_def arena_put_def put_alloc_def init_grid_def free_key_def
  take_slot_def put_write_def write_slot_seqlock_def write_payload_def next_odd_def pack_u32_def
  reserve_def mark_writing_def commit_reservation_def stamp_def next_even_def engine_write_def
  arena_lookup_def read_slot_def log_eviction_def
  HEADER_BYTES_def SLOT_ALIGNMENT_def EVICT_LOG_CAP_def Let_def

theorem arena_serves_last_store_witness:
  "last_stored arena_step arena_stores arena_demo [9] None [APut [9] [4, 5]] = Some [4, 5]"
  by (rule arena_serves_last_store [OF arena_demo_ok]) (simp add: arena_eval upt_rec)

section \<open>Isolation of leases\<close>

text \<open>The operations that end a lease or write its slot.\<close>

fun touches_lease :: "nat \<Rightarrow> nat \<Rightarrow> arena_op \<Rightarrow> bool" where
  "touches_lease t c (AEngineWrite t' v) \<longleftrightarrow> t' = t"
| "touches_lease t c (ACommit t' k n c') \<longleftrightarrow> t' = t"
| "touches_lease t c (ACancel t' c') \<longleftrightarrow> t' = t"
| "touches_lease t c (ACancelConn c') \<longleftrightarrow> c' = c"
| "touches_lease t c _ \<longleftrightarrow> False"

lemma put_alloc_reservations: "reservations (snd (put_alloc a k n)) = reservations a"
proof (cases "init_grid a n")
  case (Some b)
  then have b: "reservations b = reservations a" by (auto simp: init_grid_def Let_def split: if_splits)
  show ?thesis
  proof (cases "take_slot (free_key b k)")
    case (Inr p)
    then have "reservations (snd p) = reservations a"
      using take_slot_spec [of "free_key b k" "fst p" "snd p"] b by simp
    with Some Inr b show ?thesis by (cases p) (simp add: put_alloc_def Let_def)
  qed (simp add: put_alloc_def Some b Let_def)
qed (simp add: put_alloc_def)

lemma put_frame:
  assumes "arena_inv a" and "dict_get (reservations a) t = Some r"
  shows "reservations (snd (arena_put a k v)) = reservations a"
    and "mem (snd (arena_put a k v)) (slot_id r) = mem a (slot_id r)"
proof -
  obtain res b where al: "put_alloc a k (length v) = (res, b)" by (cases "put_alloc a k (length v)")
  have rb: "reservations b = reservations a" using put_alloc_reservations [of a k "length v"] al by simp
  have leased: "slot_id r \<in> (slot_id \<circ> snd) ` set (reservations b)"
    using map_of_SomeD [OF assms(2)] unfolding rb by force
  show "reservations (snd (arena_put a k v)) = reservations a"
    using rb by (auto simp: arena_put_def al put_write_def split: sum.split option.split prod.split)
  show "mem (snd (arena_put a k v)) (slot_id r) = mem a (slot_id r)"
  proof (cases "\<exists>slot. res = Inr (Some slot)")
    case True
    then obtain slot where res: "res = Inr (Some slot)" by blast
    note acc = put_alloc_accepted [OF assms(1) al [unfolded res]]
    then have "slot \<noteq> slot_id r" using leased by blast
    then show ?thesis
      using acc by (auto simp: arena_put_def al res put_write_def split: option.split prod.split)
  next
    case False
    then have "mem b = mem a" using put_alloc_refused [OF assms(1) al] by (simp add: shrinks_def)
    with False show ?thesis by (auto simp: arena_put_def al split: sum.split option.split)
  qed
qed

lemma reserve_frame:
  assumes "arena_inv a" and "dict_get (reservations a) t = Some r"
  shows "dict_get (reservations (snd (reserve a n c))) t = Some r"
    and "mem (snd (reserve a n c)) (slot_id r) = mem a (slot_id r)"
proof -
  have "dict_get (reservations (snd (reserve a n c))) t = Some r \<and>
    mem (snd (reserve a n c)) (slot_id r) = mem a (slot_id r)"
  proof (cases "\<exists>b slot d. init_grid a (nat n) = Some b \<and> take_slot b = Inr (slot, d)")
    case False
    then have "snd (reserve a n c) \<in> {a, a\<lparr>num_slots := 0\<rparr>} \<or> init_grid a (nat n) = Some (snd (reserve a n c))"
      by (cases "init_grid a (nat n)"; cases "take_slot (the (init_grid a (nat n)))") (auto simp: reserve_def)
    then have "reservations (snd (reserve a n c)) = reservations a \<and> mem (snd (reserve a n c)) = mem a"
      using init_grid_inv [OF assms(1)] by auto
    with assms(2) show ?thesis by simp
  next
    case True
    then obtain b slot d where b: "init_grid a (nat n) = Some b" and d: "take_slot b = Inr (slot, d)" by blast
    note g = init_grid_inv [OF assms(1) b] and sp = take_slot_spec [OF d]
    have "arena_inv b" using g by blast
    note t = take_slot_inv [OF this d]
    have rin: "(t, r) \<in> set (reservations b)" using g map_of_SomeD [OF assms(2)] by simp
    then have "slot \<noteq> slot_id r" using t(2) by force
    moreover have "t < next_lease_token d"
      using arena_invD(3) [OF \<open>arena_inv b\<close>] rin sp by force
    moreover have "reservations d = reservations a" "mem d = mem a" "reservations b = reservations a" "mem b = mem a"
      using g sp by simp_all
    moreover obtain e m where m: "mark_writing (mem d slot) = (e, m)" by (cases "mark_writing (mem d slot)")
    moreover have "snd (reserve a n c) = a \<or> snd (reserve a n c) = b \<or>
      reservations (snd (reserve a n c)) = dict_put (next_lease_token d)
        \<lparr>slot_id = slot, promised_size = nat n, connection_id = c\<rparr> (reservations d) \<and>
      mem (snd (reserve a n c)) = (case e of None \<Rightarrow> (mem d)(slot := m) | Some _ \<Rightarrow> mem d)"
      by (cases e) (simp_all add: reserve_def b d m Let_def)
    ultimately show ?thesis
      using assms(2) by (elim disjE conjE; cases e) (simp_all add: dict_get_put)
  qed
  then show "dict_get (reservations (snd (reserve a n c))) t = Some r"
    "mem (snd (reserve a n c)) (slot_id r) = mem a (slot_id r)" by blast+
qed

lemma dict_get_filter_keep:
  "dict_wf d \<Longrightarrow> dict_get d k = Some v \<Longrightarrow> P (k, v) \<Longrightarrow> dict_get (filter P d) k = Some v"
  using distinct_map_filter [of fst d P] by (auto simp: map_of_eq_Some_iff)

lemma commit_frame:
  assumes "arena_inv a" and "dict_get (reservations a) t = Some r" and "t' \<noteq> t"
  shows "dict_get (reservations (snd (commit_reservation a t' k n c))) t = Some r"
    and "mem (snd (commit_reservation a t' k n c)) (slot_id r) = mem a (slot_id r)"
proof -
  have ne: "slot_id q \<noteq> slot_id r" if "dict_get (reservations a) t' = Some q" for q
  proof -
    have "(t, r) \<in> set (dict_del t' (reservations a))"
      using map_of_SomeD [OF assms(2)] assms(3) by (auto simp: AList.delete_eq)
    then have "slot_id r \<in> (slot_id \<circ> snd) ` set (dict_del t' (reservations a))" by force
    with lease_slot(3) [OF assms(1) that] show ?thesis by metis
  qed
  show "dict_get (reservations (snd (commit_reservation a t' k n c))) t = Some r"
    "mem (snd (commit_reservation a t' k n c)) (slot_id r) = mem a (slot_id r)"
    using assms(2,3) ne
    by (auto simp: commit_reservation_def Let_def dict_get_del split: option.split prod.split)
qed

lemma only_drops_frame:
  assumes "arena_inv a" and "dict_get (reservations a) t = Some r" and "only_drops op"
    and "\<not> touches_lease t (connection_id r) op"
  shows "dict_get (reservations (arena_step a op)) t = Some r"
proof (cases op)
  case (ACancel t' c)
  then show ?thesis using assms(2,4) by (auto simp: cancel_reservation_def dict_get_del split: option.split)
next
  case (ACancelConn c)
  then show ?thesis
    using assms(2,4) arena_invD(2) [OF assms(1)]
    by (auto simp: cancel_connection_reservations_def Let_def intro: dict_get_filter_keep)
next
  case (AEvictLru b)
  then show ?thesis using assms(2) by (auto simp: arena_evict_lru_def Let_def split: list.split)
next
  case (AEvictKey k b)
  then show ?thesis using assms(2) by (auto simp: arena_evict_key_def Let_def split: option.split)
next
  case (AGetSlot k)
  then show ?thesis using assms(2) by (auto simp: get_slot_for_key_def split: option.split)
next
  case (AGetSlice s)
  then show ?thesis using assms(2) by (auto simp: get_slice_def split: option.split)
next
  case ADrain
  then show ?thesis using assms(2) by (simp add: drain_recent_evictions_def)
next
  case AClear
  then show ?thesis using assms(2) by (auto simp: arena_clear_def)
qed (use assms(3) in simp_all)

lemma lease_frame:
  assumes "arena_inv a" and "dict_get (reservations a) t = Some r"
    and "\<not> touches_lease t (connection_id r) op"
  shows "dict_get (reservations (arena_step a op)) t = Some r \<and>
    mem (arena_step a op) (slot_id r) = mem a (slot_id r)"
proof (cases "only_drops op")
  case True
  with only_drops_frame [OF assms(1,2) _ assms(3)] arena_step_shrinks [OF assms(1)] show ?thesis
    by (simp add: shrinks_def)
next
  case False
  show ?thesis
  proof (cases op)
    case (AEngineWrite t' v)
    have "slot_id q \<noteq> slot_id r" if "dict_get (reservations a) t' = Some q" for q
    proof -
      have "(t, r) \<in> set (dict_del t' (reservations a))"
        using map_of_SomeD [OF assms(2)] assms(3) AEngineWrite by (auto simp: AList.delete_eq)
      then have "slot_id r \<in> (slot_id \<circ> snd) ` set (dict_del t' (reservations a))" by force
      with lease_slot(3) [OF assms(1) that] show ?thesis by metis
    qed
    then show ?thesis
      using assms(2) AEngineWrite by (auto simp: engine_write_def split: option.split)
  qed (use False assms put_frame [OF assms(1,2)] reserve_frame [OF assms(1,2)]
      commit_frame [OF assms(1,2)] in simp_all)
qed

lemma lease_frame_run:
  assumes "arena_inv a" and "dict_get (reservations a) t = Some r"
    and "\<forall>op \<in> set ops. \<not> touches_lease t (connection_id r) op"
  shows "dict_get (reservations (foldl arena_step a ops)) t = Some r \<and>
    mem (foldl arena_step a ops) (slot_id r) = mem a (slot_id r)"
  using assms
proof (induction ops arbitrary: a)
  case (Cons op ops)
  note f = lease_frame [OF Cons.prems(1,2), of op]
  with Cons.IH [OF arena_step_inv [OF Cons.prems(1), of op]] Cons.prems(3) show ?case by simp
qed simp

lemma reserve_accepted:
  assumes "arena_inv a" and "reserve a n c = (Inr (Some (tok, slot, off)), b)"
  shows "dict_get (reservations b) tok = Some \<lparr>slot_id = slot, promised_size = nat n, connection_id = c\<rparr>"
    and "off = slot * slot_size b + HEADER_BYTES"
proof -
  have "dict_get (reservations b) tok = Some \<lparr>slot_id = slot, promised_size = nat n, connection_id = c\<rparr> \<and>
    off = slot * slot_size b + HEADER_BYTES"
    using assms(2)
    by (auto simp: reserve_def Let_def dict_get_put split: if_splits option.splits sum.splits prod.splits)
  then show "dict_get (reservations b) tok = Some \<lparr>slot_id = slot, promised_size = nat n, connection_id = c\<rparr>"
    "off = slot * slot_size b + HEADER_BYTES" by blast+
qed

lemma commit_succeeds:
  assumes "dict_get (reservations a) t = Some r" and "connection_id r = c"
    and "0 \<le> n" "n \<le> int (promised_size r)" "n < 2 ^ 32"
    and "slot_version (mem a (slot_id r)) mod 2 = 1" "slot_version (mem a (slot_id r)) + 1 < 2 ^ 32"
  shows "\<exists>x. fst (commit_reservation a t k n c) = Inr (Committed x)"
proof -
  have "nat n < 2 ^ 32" using assms(3,5) by (simp add: nat_less_iff)
  with assms show ?thesis
    by (auto simp: commit_reservation_def Let_def stamp_def pack_u32_def next_even_def)
qed

text \<open>
  C34. The two-phase save is a round trip: the bytes a lease holder writes into its reserved slot
  are the bytes a reader of the committed key gets, whatever the other connections put, reserve,
  commit, cancel or evict in between, as long as the slot's version counter has room and no clear
  runs while a lease is out. While the lease is out no key maps to the slot.
\<close>

theorem lease_round_trip:
  assumes "make_arena cap = Inr a0" and "reserve (foldl arena_step a0 ops) n c = (Inr (Some (tok, slot, off)), b)"
    and "int (length v) \<le> n" "n < 2 ^ 32" and "slot_version (mem b slot) + 1 < 2 ^ 32"
    and "\<forall>op \<in> set ops'. \<not> touches_lease tok c op"
    and "d = foldl arena_step (engine_write b slot v) ops'"
  shows "(\<forall>k'. dict_get (slot_index d) k' \<noteq> Some slot) \<and>
    (\<exists>x. fst (commit_reservation d tok k (int (length v)) c) = Inr (Committed x)) \<and>
    arena_lookup (snd (commit_reservation d tok k (int (length v)) c)) k = Some v"
proof -
  let ?r = "\<lparr>slot_id = slot, promised_size = nat n, connection_id = c\<rparr>"
  have inv0: "arena_inv (foldl arena_step a0 ops)" by (rule arena_run_inv [OF assms(1)])
  have invb: "arena_inv b" using reserve_step [OF inv0 assms(2)] by blast
  note rb = reserve_accepted(1) [OF inv0 assms(2)]
  let ?b = "engine_write b slot v"
  have invw: "arena_inv ?b" using engine_write_step(1) [OF invb rb] by simp
  have rw: "dict_get (reservations ?b) tok = Some ?r" using rb by (simp add: engine_write_def)
  have invd: "arena_inv d" unfolding assms(7) by (rule arena_tier.inv_run [OF invw])
  have d: "dict_get (reservations d) tok = Some ?r" "mem d slot = write_payload v (mem b slot)"
    using lease_frame_run [OF invw rw, of ops'] assms(6,7) by (simp_all add: engine_write_def)
  have odd: "slot_version (mem b slot) mod 2 = 1"
    using arena_invD(7) [OF invb map_of_SomeD [OF rb]] by simp
  have ok: "\<exists>x. fst (commit_reservation d tok k (int (length v)) c) = Inr (Committed x)"
    using assms(3,4,5) odd d(2) by (intro commit_succeeds [OF d(1)]) (simp_all add: write_payload_def)
  then obtain x d' where cm: "commit_reservation d tok k (int (length v)) c = (Inr (Committed x), d')"
    by (metis prod.collapse)
  have "map (slot_payload (write_payload v (mem b slot))) [0..<length v] = v"
    by (auto simp: write_payload_def intro!: nth_equalityI)
  then have "arena_lookup d' k = Some v"
    using commit_step(2) [OF invd cm refl d(1)] d(2) by simp
  moreover have "dict_get (slot_index d) k' \<noteq> Some slot" for k'
    using lease_slot(1) [OF invd d(1)] by (force dest: map_of_SomeD)
  ultimately show ?thesis using cm ok by simp
qed

theorem lease_round_trip_witness:
  "arena_lookup (snd (commit_reservation
     (foldl arena_step (engine_write (snd (reserve arena_demo 4 7)) 0 [3, 1]) [APut [5] [6], AEvictLru True])
     1 [2] 2 7)) [2] = Some [3, 1]"
proof -
  have r: "reserve (foldl arena_step arena_demo []) 4 7 = (Inr (Some (1, 0, 16)), snd (reserve arena_demo 4 7))"
    by (simp add: arena_eval)
  have v: "slot_version (mem (snd (reserve arena_demo 4 7)) 0) + 1 < 2 ^ 32"
    by (simp add: arena_eval)
  show ?thesis
    using lease_round_trip [OF arena_demo_ok r _ _ v _ refl, of "[3, 1]" "[APut [5] [6], AEvictLru True]" "[2]"] by simp
qed

section \<open>Edges of the contract\<close>

lemma take_slot_fails: "take_slot a = Inl e \<longleftrightarrow> free_slots a = [] \<and> slot_index a = [] \<and> e = KeyError"
  by (auto simp: take_slot_def split: list.splits)

lemma put_raises_KeyError:
  "fst (arena_put a k v) = Inl KeyError \<longleftrightarrow>
   length v \<le> arena_capacity a \<and> (\<exists>b. init_grid a (length v) = Some b \<and>
     length v + HEADER_BYTES \<le> slot_size b \<and> free_slots (free_key b k) = [] \<and> slot_index (free_key b k) = [])"
proof -
  have w: "put_write b slot v \<noteq> (Some KeyError, d)" for b slot d
    by (auto simp: put_write_def write_slot_seqlock_def pack_u32_def Let_def split: prod.split)
  have p: "fst (arena_put a k v) = Inl KeyError \<longleftrightarrow> fst (put_alloc a k (length v)) = Inl KeyError"
    using w by (cases "put_alloc a k (length v)") (auto simp: arena_put_def split: sum.split option.split prod.split)
  show ?thesis
  proof (cases "init_grid a (length v)")
    case (Some b)
    then show ?thesis
      using take_slot_fails [of "free_key b k"]
      by (cases "take_slot (free_key b k)") (auto simp: p put_alloc_def Let_def)
  qed (simp add: p put_alloc_def)
qed

text \<open>
  C35. A put raises \<open>KeyError\<close> exactly when it fits the slot grid and every slot is under lease;
  the refusal that \<open>reserve\<close> makes in the same state is missing from \<open>put\<close>. The history takes a
  clear only while no lease is out.
\<close>

theorem put_raises_iff_all_leased:
  assumes "make_arena c = Inr a0" and "a = foldl arena_step a0 ops"
  shows "fst (arena_put a k v) = Inl KeyError \<longleftrightarrow>
    length v \<le> arena_capacity a \<and> slot_size a \<noteq> 0 \<and> length v + HEADER_BYTES \<le> slot_size a \<and>
    length (reservations a) = num_slots a"
proof -
  have inv: "arena_inv a" unfolding assms(2) by (rule arena_run_inv [OF assms(1)])
  note D = arena_invD [OF inv]
  have "size (slots_of a) = num_slots a" using D(4) by simp
  then have card: "length (free_slots a) + length (slot_index a) + length (reservations a) = num_slots a"
    by (simp add: slots_of_def)
  have fk: "free_slots (free_key b k) = [] \<and> slot_index (free_key b k) = [] \<longleftrightarrow>
    free_slots b = [] \<and> slot_index b = []" for b
    by (auto simp: free_key_def split: option.split)
  show ?thesis
  proof (cases "slot_size a = 0")
    case True
    then have "init_grid a (length v) = Some b \<Longrightarrow> free_slots b \<noteq> []" for b
      by (auto simp: init_grid_def Let_def split: if_splits)
    with True show ?thesis by (auto simp: put_raises_KeyError fk)
  next
    case False
    then show ?thesis using card by (auto simp: put_raises_KeyError fk init_grid_def)
  qed
qed

theorem put_raises_iff_all_leased_witness:
  "fst (arena_put (foldl arena_step arena_demo [AReserve 4 7]) [5] [6]) = Inl KeyError"
  unfolding put_raises_iff_all_leased [OF arena_demo_ok refl] by (simp add: arena_eval)

text \<open>Where \<open>reserve\<close> refuses.\<close>

lemma reserve_refuses_when_all_leased:
  "fst (reserve (foldl arena_step arena_demo [AReserve 4 7]) 4 8) = Inr None"
  by (simp add: arena_eval)

text \<open>\<open>clear\<close> while a lease is out puts the leased slot back on the free list, and the next
  reservation leases it a second time.\<close>

lemma clear_double_leases:
  "map (slot_id \<circ> snd) (reservations (snd (reserve (arena_clear (snd (reserve arena_demo 4 7))) 4 8))) = [0, 0]"
  by (simp add: arena_eval arena_clear_def)

text \<open>The write of a put runs outside the allocator lock: when a second put evicts the first one's
  slot in between and finishes first, the second key serves the first value.\<close>

lemma put_interleaving_mixes_keys:
  assumes "put_alloc arena_demo [1] 1 = (r1, a1)" and "put_alloc a1 [2] 1 = (r2, a2)"
    and "put_write a2 0 [22] = (e3, a3)" and "put_write a3 0 [11] = (e4, a4)"
  shows "r1 = Inr (Some 0) \<and> r2 = Inr (Some 0) \<and> arena_lookup a4 [2] = Some [11]"
proof -
  have a1: "r1 = Inr (Some 0)" "slot_index a1 = [([1], 0)]" "free_slots a1 = []" "slot_size a1 = 64"
    "arena_capacity a1 = 64" "slot_version (mem a1 0) = 0"
    using assms(1) by (auto simp: arena_eval)
  then have a2: "r2 = Inr (Some 0)" "slot_index a2 = [([2], 0)]" "slot_size a2 = 64" "slot_version (mem a2 0) = 0"
    using assms(2) by (auto simp: arena_eval)
  then have a3: "slot_index a3 = [([2], 0)]" "slot_size a3 = 64" "slot_version (mem a3 0) = 2"
    using assms(3) by (auto simp: arena_eval)
  then have "slot_index a4 = [([2], 0)]" "slot_size a4 = 64" "read_slot 64 (mem a4 0) = Some [11]"
    using assms(4) by (auto simp: arena_eval)
  with a1 a2 show ?thesis by (simp add: arena_lookup_def)
qed

text \<open>The pre-flight check accepts a first blob that the alignment then refuses.\<close>

lemma would_accept_then_refuse:
  "make_arena 70 = Inr a \<Longrightarrow> length v = 54 \<Longrightarrow> would_accept_size a 54 \<and> fst (arena_put a k v) = Inr None"
  by (auto simp: make_arena_def would_accept_size_def arena_put_def put_alloc_def init_grid_def
      HEADER_BYTES_def SLOT_ALIGNMENT_def Let_def)

text \<open>The version counter does not wrap: the write that would pass 32 bits raises.\<close>

lemma version_overflow_raises:
  "slot_version m = 2 ^ 32 - 2 \<Longrightarrow> length v < 2 ^ 32 \<Longrightarrow>
   fst (write_slot_seqlock v m) = Some StructError \<and> read_slot ss (snd (write_slot_seqlock v m)) = None"
  by (simp add: write_slot_seqlock_def pack_u32_def next_odd_def write_payload_def read_slot_def Let_def)

end
