(* ===== verification/Seqlock.thy ===== *)
theory Seqlock
  imports Arena
begin

text \<open>
  The seqlock of one arena slot, step by step: a writer under the slot's write lock
  (\<open>SharedArena._write_slot_seqlock\<close>), a lease holder between \<open>reserve\<close> and
  \<open>commit_reservation\<close>, and a reader (\<open>SharedArena.get_slice\<close>) that takes no lock. Every
  access to the shared memory is one step, the copies go byte by byte in any order, and the
  steps of the three interleave freely. The ghost field \<open>published\<close> records which bytes a
  writer published at which version.
\<close>

section \<open>States\<close>

datatype writer_pc =
    WIdle
  | WCopy "byte list" "nat set"
  | WLen "byte list"
  | WLease nat
  | WStamp

datatype reader_pc =
    RStart nat
  | RVersion nat nat
  | RCopy nat nat nat "nat set" "nat \<Rightarrow> byte"
  | RReturn nat "byte list"
  | RGaveUp

record seqlock =
  shared :: slot_mem
  writer_at :: writer_pc
  reader_at :: reader_pc
  published :: "nat \<Rightarrow> byte list option"

definition seqlock_init :: seqlock where
  "seqlock_init = \<lparr>shared = \<lparr>slot_version = 0, slot_length = 0, slot_payload = (\<lambda>_. 0)\<rparr>,
     writer_at = WIdle, reader_at = RStart MAX_TORN_READ_RETRIES, published = [0 \<mapsto> []]\<rparr>"

section \<open>Steps\<close>

text \<open>A put: mark the version odd, copy the payload, write the length, mark the version even. When
  the even version does not fit 32 bits the lock is released with the version odd.\<close>

inductive writer_step :: "nat \<Rightarrow> seqlock \<Rightarrow> seqlock \<Rightarrow> bool" for ss where
  begin_write: "writer_at s = WIdle \<Longrightarrow> length v + HEADER_BYTES \<le> ss \<Longrightarrow>
    next_odd (slot_version (shared s)) < 2 ^ 32 \<Longrightarrow>
    writer_step ss s (s\<lparr>shared := (shared s)\<lparr>slot_version := next_odd (slot_version (shared s))\<rparr>,
      writer_at := WCopy v {0..<length v}\<rparr>)"
| copy_byte: "writer_at s = WCopy v todo \<Longrightarrow> j \<in> todo \<Longrightarrow>
    writer_step ss s (s\<lparr>shared := (shared s)\<lparr>slot_payload := (slot_payload (shared s))(j := v ! j)\<rparr>,
      writer_at := WCopy v (todo - {j})\<rparr>)"
| write_length: "writer_at s = WCopy v {} \<Longrightarrow>
    writer_step ss s (s\<lparr>shared := (shared s)\<lparr>slot_length := length v\<rparr>, writer_at := WLen v\<rparr>)"
| end_write: "writer_at s = WLen v \<Longrightarrow> slot_version (shared s) + 1 < 2 ^ 32 \<Longrightarrow>
    writer_step ss s (s\<lparr>shared := (shared s)\<lparr>slot_version := slot_version (shared s) + 1\<rparr>,
      writer_at := WIdle, published := (published s)(slot_version (shared s) + 1 \<mapsto> v)\<rparr>)"
| end_raises: "writer_at s = WLen v \<Longrightarrow> slot_version (shared s) + 1 = 2 ^ 32 \<Longrightarrow>
    writer_step ss s (s\<lparr>writer_at := WIdle\<rparr>)"

text \<open>A lease: \<open>reserve\<close> marks the version odd and clears the length, the engine writes payload
  bytes of its own, \<open>commit_reservation\<close> writes the length and then the even version, and a
  cancelled lease leaves the version odd.\<close>

inductive lease_step :: "nat \<Rightarrow> seqlock \<Rightarrow> seqlock \<Rightarrow> bool" for ss where
  lease: "writer_at s = WIdle \<Longrightarrow> n + HEADER_BYTES \<le> ss \<Longrightarrow>
    next_odd (slot_version (shared s)) < 2 ^ 32 \<Longrightarrow>
    lease_step ss s (s\<lparr>shared := (shared s)\<lparr>slot_version := next_odd (slot_version (shared s)), slot_length := 0\<rparr>,
      writer_at := WLease n\<rparr>)"
| engine_byte: "writer_at s = WLease n \<Longrightarrow> j < n \<Longrightarrow>
    lease_step ss s (s\<lparr>shared := (shared s)\<lparr>slot_payload := (slot_payload (shared s))(j := x)\<rparr>\<rparr>)"
| commit_length: "writer_at s = WLease n \<Longrightarrow> len \<le> n \<Longrightarrow>
    lease_step ss s (s\<lparr>shared := (shared s)\<lparr>slot_length := len\<rparr>, writer_at := WStamp\<rparr>)"
| commit_version: "writer_at s = WStamp \<Longrightarrow> next_even (slot_version (shared s)) < 2 ^ 32 \<Longrightarrow>
    lease_step ss s (s\<lparr>shared := (shared s)\<lparr>slot_version := next_even (slot_version (shared s))\<rparr>,
      writer_at := WIdle, published := (published s)(next_even (slot_version (shared s)) \<mapsto>
        map (slot_payload (shared s)) [0..<slot_length (shared s)])\<rparr>)"
| commit_raises: "writer_at s = WStamp \<Longrightarrow> \<not> next_even (slot_version (shared s)) < 2 ^ 32 \<Longrightarrow>
    lease_step ss s (s\<lparr>writer_at := WIdle\<rparr>)"
| cancel: "writer_at s = WLease n \<Longrightarrow> lease_step ss s (s\<lparr>writer_at := WIdle\<rparr>)"

text \<open>A read: the version, the length, the payload, the version again; on any sign of a torn read
  one attempt is used up.\<close>

definition retry :: "nat \<Rightarrow> reader_pc" where
  "retry n = (if n = 0 then RGaveUp else RStart n)"

inductive reader_step :: "nat \<Rightarrow> seqlock \<Rightarrow> seqlock \<Rightarrow> bool" for ss where
  read_version: "reader_at s = RStart (Suc n) \<Longrightarrow> slot_version (shared s) mod 2 = 0 \<Longrightarrow>
    reader_step ss s (s\<lparr>reader_at := RVersion n (slot_version (shared s))\<rparr>)"
| read_odd: "reader_at s = RStart (Suc n) \<Longrightarrow> slot_version (shared s) mod 2 \<noteq> 0 \<Longrightarrow>
    reader_step ss s (s\<lparr>reader_at := retry n\<rparr>)"
| read_length: "reader_at s = RVersion n v1 \<Longrightarrow> slot_length (shared s) \<le> ss - HEADER_BYTES \<Longrightarrow>
    reader_step ss s (s\<lparr>reader_at := RCopy n v1 (slot_length (shared s)) {0..<slot_length (shared s)} (\<lambda>_. 0)\<rparr>)"
| bogus_length: "reader_at s = RVersion n v1 \<Longrightarrow> slot_length (shared s) > ss - HEADER_BYTES \<Longrightarrow>
    reader_step ss s (s\<lparr>reader_at := retry n\<rparr>)"
| read_byte: "reader_at s = RCopy n v1 len todo buf \<Longrightarrow> j \<in> todo \<Longrightarrow>
    reader_step ss s (s\<lparr>reader_at := RCopy n v1 len (todo - {j}) (buf(j := slot_payload (shared s) j))\<rparr>)"
| same_version: "reader_at s = RCopy n v1 len {} buf \<Longrightarrow> slot_version (shared s) = v1 \<Longrightarrow>
    slot_version (shared s) mod 2 = 0 \<Longrightarrow>
    reader_step ss s (s\<lparr>reader_at := RReturn v1 (map buf [0..<len])\<rparr>)"
| torn: "reader_at s = RCopy n v1 len {} buf \<Longrightarrow>
    \<not> (slot_version (shared s) = v1 \<and> slot_version (shared s) mod 2 = 0) \<Longrightarrow>
    reader_step ss s (s\<lparr>reader_at := retry n\<rparr>)"

inductive seqlock_reachable :: "nat \<Rightarrow> seqlock \<Rightarrow> bool" for ss where
  start: "seqlock_reachable ss seqlock_init"
| by_writer: "seqlock_reachable ss s \<Longrightarrow> writer_step ss s s' \<Longrightarrow> seqlock_reachable ss s'"
| by_lease: "seqlock_reachable ss s \<Longrightarrow> lease_step ss s s' \<Longrightarrow> seqlock_reachable ss s'"
| by_reader: "seqlock_reachable ss s \<Longrightarrow> reader_step ss s s' \<Longrightarrow> seqlock_reachable ss s'"

section \<open>Invariant\<close>

text \<open>The bytes the slot holds.\<close>

definition content :: "slot_mem \<Rightarrow> byte list" where
  "content m = map (slot_payload m) [0..<slot_length m]"

fun writer_inv :: "slot_mem \<Rightarrow> writer_pc \<Rightarrow> bool" where
  "writer_inv m WIdle \<longleftrightarrow> True"
| "writer_inv m (WCopy v todo) \<longleftrightarrow> slot_version m mod 2 = 1 \<and>
     (\<forall>j < length v. j \<notin> todo \<longrightarrow> slot_payload m j = v ! j)"
| "writer_inv m (WLen v) \<longleftrightarrow> slot_version m mod 2 = 1 \<and> content m = v"
| "writer_inv m (WLease n) \<longleftrightarrow> slot_version m mod 2 = 1"
| "writer_inv m WStamp \<longleftrightarrow> slot_version m mod 2 = 1"

text \<open>What the slot holds is published while its version is even, and versions only grow.\<close>

definition publish_inv :: "seqlock \<Rightarrow> bool" where
  "publish_inv s \<longleftrightarrow>
     (slot_version (shared s) mod 2 = 0 \<longrightarrow> published s (slot_version (shared s)) = Some (content (shared s)))"

text \<open>What a reader has copied at a version that is still current is a part of the content.\<close>

fun reader_inv :: "seqlock \<Rightarrow> reader_pc \<Rightarrow> bool" where
  "reader_inv s (RStart n) \<longleftrightarrow> True"
| "reader_inv s (RVersion n v1) \<longleftrightarrow> v1 \<le> slot_version (shared s) \<and> v1 mod 2 = 0"
| "reader_inv s (RCopy n v1 len todo buf) \<longleftrightarrow> v1 \<le> slot_version (shared s) \<and> v1 mod 2 = 0 \<and>
     (slot_version (shared s) = v1 \<longrightarrow> len = slot_length (shared s) \<and>
        (\<forall>j < len. j \<notin> todo \<longrightarrow> buf j = slot_payload (shared s) j))"
| "reader_inv s (RReturn v1 bs) \<longleftrightarrow> v1 \<le> slot_version (shared s) \<and> v1 mod 2 = 0 \<and> published s v1 = Some bs"
| "reader_inv s RGaveUp \<longleftrightarrow> True"

definition seqlock_inv :: "seqlock \<Rightarrow> bool" where
  "seqlock_inv s \<longleftrightarrow> writer_inv (shared s) (writer_at s) \<and> publish_inv s \<and> reader_inv s (reader_at s)"

text \<open>A step that moves the version up, or leaves an odd one, keeps what a reader has.\<close>

lemma reader_inv_mono:
  assumes "reader_inv s r" and "slot_version (shared s) < slot_version (shared s') \<or>
      slot_version (shared s') = slot_version (shared s) \<and> slot_version (shared s) mod 2 = 1"
    and "\<And>v. v \<le> slot_version (shared s) \<Longrightarrow> v mod 2 = 0 \<Longrightarrow> published s' v = published s v"
  shows "reader_inv s' r"
  using assms(1,2) assms(3) by (cases r) fastforce+

lemma next_odd_gt: "v < next_odd v" by (simp add: next_odd_def)
lemma next_even_gt: "v < next_even v" by (simp add: next_even_def)

lemma writer_step_inv:
  assumes "writer_step ss s s'" and "seqlock_inv s"
  shows "seqlock_inv s'"
  using assms(1)
proof cases
  case (begin_write v)
  have "reader_inv s' (reader_at s)"
    by (rule reader_inv_mono [of s]) (use assms(2) begin_write next_odd_gt in \<open>auto simp: seqlock_inv_def\<close>)
  then show ?thesis using begin_write next_odd_odd by (simp add: seqlock_inv_def publish_inv_def)
next
  case (copy_byte v todo j)
  have odd: "slot_version (shared s) mod 2 = 1" using copy_byte assms(2) by (simp add: seqlock_inv_def)
  have "reader_inv s' (reader_at s)"
    by (rule reader_inv_mono [of s]) (use assms(2) copy_byte odd in \<open>auto simp: seqlock_inv_def\<close>)
  then show ?thesis using copy_byte assms(2) odd by (auto simp: seqlock_inv_def publish_inv_def)
next
  case (write_length v)
  have odd: "slot_version (shared s) mod 2 = 1" using write_length assms(2) by (simp add: seqlock_inv_def)
  have "reader_inv s' (reader_at s)"
    by (rule reader_inv_mono [of s]) (use assms(2) write_length odd in \<open>auto simp: seqlock_inv_def\<close>)
  then show ?thesis
    using write_length assms(2) odd
    by (auto simp: seqlock_inv_def publish_inv_def content_def intro!: nth_equalityI)
next
  case (end_write v)
  have odd: "slot_version (shared s) mod 2 = 1" using end_write assms(2) by (simp add: seqlock_inv_def)
  have "reader_inv s' (reader_at s)"
    by (rule reader_inv_mono [of s]) (use assms(2) end_write in \<open>auto simp: seqlock_inv_def\<close>)
  then show ?thesis
    using end_write assms(2) by (auto simp: seqlock_inv_def publish_inv_def content_def)
next
  case (end_raises v)
  have odd: "slot_version (shared s) mod 2 = 1" using end_raises assms(2) by (simp add: seqlock_inv_def)
  have "reader_inv s' (reader_at s)"
    by (rule reader_inv_mono [of s]) (use assms(2) end_raises odd in \<open>auto simp: seqlock_inv_def\<close>)
  then show ?thesis using end_raises odd by (simp add: seqlock_inv_def publish_inv_def)
qed

lemma lease_step_inv:
  assumes "lease_step ss s s'" and "seqlock_inv s"
  shows "seqlock_inv s'"
  using assms(1)
proof cases
  case (lease n)
  have "reader_inv s' (reader_at s)"
    by (rule reader_inv_mono [of s]) (use assms(2) lease next_odd_gt in \<open>auto simp: seqlock_inv_def\<close>)
  then show ?thesis using lease next_odd_odd by (simp add: seqlock_inv_def publish_inv_def)
next
  case (commit_version)
  have "reader_inv s' (reader_at s)"
    by (rule reader_inv_mono [of s])
      (use assms(2) commit_version next_even_gt [of "slot_version (shared s)"] in \<open>auto simp: seqlock_inv_def\<close>)
  then show ?thesis using commit_version by (simp add: seqlock_inv_def publish_inv_def content_def)
qed (use assms(2) reader_inv_mono [of s "reader_at s" s'] in \<open>simp_all add: seqlock_inv_def publish_inv_def\<close>)

lemma reader_step_inv:
  assumes "reader_step ss s s'" and "seqlock_inv s"
  shows "seqlock_inv s'"
  using assms(1)
proof cases
  case (same_version n v1 len buf)
  with assms(2) have "map buf [0..<len] = content (shared s)"
    by (auto simp: seqlock_inv_def content_def)
  with same_version assms(2) show ?thesis by (simp add: seqlock_inv_def publish_inv_def)
qed (use assms(2) in \<open>auto simp: seqlock_inv_def publish_inv_def retry_def\<close>)

lemma reachable_inv: "seqlock_reachable ss s \<Longrightarrow> seqlock_inv s"
proof (induction rule: seqlock_reachable.induct)
  case start
  then show ?case by (simp add: seqlock_inv_def seqlock_init_def publish_inv_def content_def)
qed (auto dest: writer_step_inv lease_step_inv reader_step_inv)
text \<open>
  C4. However a reader interleaves with writers, lease holders and commits of the same slot, byte
  by byte, the bytes it returns with a version are exactly the bytes that were published at that
  version: never a mix of two writes, and never the bytes of a write that was not finished.
\<close>

theorem reader_returns_published:
  assumes "seqlock_reachable ss s" and "reader_at s = RReturn v bs"
  shows "published s v = Some bs"
  using reachable_inv [OF assms(1)] assms(2) by (simp add: seqlock_inv_def)

text \<open>A writer that publishes one byte and a reader that comes after it.\<close>

lemma seqlock_example:
  "seqlock_reachable 64 \<lparr>shared = \<lparr>slot_version = 2, slot_length = 1, slot_payload = (\<lambda>_. 0)(0 := 9)\<rparr>,
     writer_at = WIdle, reader_at = RReturn 2 [9], published = [0 \<mapsto> [], 2 \<mapsto> [9]]\<rparr>"
proof -
  let ?m = "\<lambda>v n f. \<lparr>slot_version = v, slot_length = n, slot_payload = f\<rparr>"
  let ?s = "\<lambda>m w r p. \<lparr>shared = m, writer_at = w, reader_at = r, published = p\<rparr>"
  let ?p = "(\<lambda>_. 0)(0 := 9) :: nat \<Rightarrow> byte"
  have "seqlock_reachable 64 (?s (?m 0 0 (\<lambda>_. 0)) WIdle (RStart 3) [0 \<mapsto> []])"
    using start by (simp add: seqlock_init_def MAX_TORN_READ_RETRIES_def)
  from by_writer [OF this begin_write [where v = "[9]"]]
  have "seqlock_reachable 64 (?s (?m 1 0 (\<lambda>_. 0)) (WCopy [9] {0}) (RStart 3) [0 \<mapsto> []])"
    by (simp add: next_odd_def HEADER_BYTES_def)
  from by_writer [OF this copy_byte [where j = 0]]
  have "seqlock_reachable 64 (?s (?m 1 0 ?p) (WCopy [9] {}) (RStart 3) [0 \<mapsto> []])" by simp
  from by_writer [OF this write_length]
  have "seqlock_reachable 64 (?s (?m 1 1 ?p) (WLen [9]) (RStart 3) [0 \<mapsto> []])" by simp
  from by_writer [OF this end_write]
  have "seqlock_reachable 64 (?s (?m 2 1 ?p) WIdle (RStart 3) [0 \<mapsto> [], 2 \<mapsto> [9]])" by (simp del: One_nat_def)
  from by_reader [OF this read_version [where n = 2]]
  have "seqlock_reachable 64 (?s (?m 2 1 ?p) WIdle (RVersion 2 2) [0 \<mapsto> [], 2 \<mapsto> [9]])" by (simp add: numeral_3_eq_3)
  from by_reader [OF this read_length]
  have "seqlock_reachable 64 (?s (?m 2 1 ?p) WIdle (RCopy 2 2 1 {0} (\<lambda>_. 0)) [0 \<mapsto> [], 2 \<mapsto> [9]])"
    by (simp add: HEADER_BYTES_def)
  from by_reader [OF this read_byte [where j = 0]]
  have "seqlock_reachable 64 (?s (?m 2 1 ?p) WIdle (RCopy 2 2 1 {} ?p) [0 \<mapsto> [], 2 \<mapsto> [9]])" by simp
  from by_reader [OF this same_version] show ?thesis by simp
qed

theorem reader_returns_published_witness:
  "published \<lparr>shared = \<lparr>slot_version = 2, slot_length = 1, slot_payload = (\<lambda>_. 0)(0 := 9)\<rparr>,
     writer_at = WIdle, reader_at = RReturn 2 [9], published = [0 \<mapsto> [], 2 \<mapsto> [9]]\<rparr> 2 = Some [9]"
  by (rule reader_returns_published [OF seqlock_example]) simp

section \<open>The reader never waits\<close>

text \<open>The steps of the run that are the reader's.\<close>

inductive seqlock_run :: "nat \<Rightarrow> nat \<Rightarrow> seqlock \<Rightarrow> bool" for ss where
  run_start: "seqlock_run ss 0 seqlock_init"
| run_writer: "seqlock_run ss n s \<Longrightarrow> writer_step ss s s' \<Longrightarrow> seqlock_run ss n s'"
| run_lease: "seqlock_run ss n s \<Longrightarrow> lease_step ss s s' \<Longrightarrow> seqlock_run ss n s'"
| run_reader: "seqlock_run ss n s \<Longrightarrow> reader_step ss s s' \<Longrightarrow> seqlock_run ss (Suc n) s'"

text \<open>A bound on the steps a reader has left.\<close>

fun reader_left :: "nat \<Rightarrow> reader_pc \<Rightarrow> nat" where
  "reader_left ss (RStart n) = n * (ss + 3)"
| "reader_left ss (RVersion n v1) = n * (ss + 3) + ss + 2"
| "reader_left ss (RCopy n v1 len todo buf) = n * (ss + 3) + card todo + 1"
| "reader_left ss (RReturn v1 bs) = 0"
| "reader_left ss RGaveUp = 0"

fun reader_wf :: "reader_pc \<Rightarrow> bool" where
  "reader_wf (RStart n) \<longleftrightarrow> n \<noteq> 0"
| "reader_wf (RCopy n v1 len todo buf) \<longleftrightarrow> finite todo"
| "reader_wf _ \<longleftrightarrow> True"

lemma reader_step_decreases:
  assumes "reader_step ss s s'" and "reader_wf (reader_at s)"
  shows "reader_wf (reader_at s')" and "reader_left ss (reader_at s') < reader_left ss (reader_at s)"
proof -
  show "reader_wf (reader_at s')" using assms by cases (auto simp: retry_def)
  show "reader_left ss (reader_at s') < reader_left ss (reader_at s)"
    using assms
  proof cases
    case (read_byte n v1 len todo buf j)
    then show ?thesis using assms(2) card_Diff1_less [of todo j] by simp
  qed (auto simp: retry_def)
qed

lemma writer_keeps_reader: "writer_step ss s s' \<Longrightarrow> reader_at s' = reader_at s"
  by (cases rule: writer_step.cases) auto

lemma lease_keeps_reader: "lease_step ss s s' \<Longrightarrow> reader_at s' = reader_at s"
  by (cases rule: lease_step.cases) auto

lemma run_bound:
  "seqlock_run ss n s \<Longrightarrow>
   reader_wf (reader_at s) \<and> n + reader_left ss (reader_at s) \<le> MAX_TORN_READ_RETRIES * (ss + 3)"
proof (induction rule: seqlock_run.induct)
  case run_start
  then show ?case by (simp add: seqlock_init_def MAX_TORN_READ_RETRIES_def)
next
  case (run_reader n s s')
  then show ?case using reader_step_decreases [OF run_reader.hyps(2)] by linarith
qed (simp_all add: writer_keeps_reader lease_keeps_reader)

lemma reader_can_step:
  assumes "reader_wf (reader_at s)" and "\<And>v bs. reader_at s \<noteq> RReturn v bs" and "reader_at s \<noteq> RGaveUp"
  shows "\<exists>s'. reader_step ss s s'"
proof (cases "reader_at s")
  case (RStart m)
  then obtain n where "m = Suc n" using assms(1) by (cases m) auto
  with RStart show ?thesis
    using read_version [of s n ss] read_odd [of s n ss] by (cases "slot_version (shared s) mod 2 = 0") blast+
next
  case (RVersion n v1)
  then show ?thesis
    using read_length [of s n v1 ss] bogus_length [of s n v1 ss]
    by (cases "slot_length (shared s) \<le> ss - HEADER_BYTES") (auto simp: not_le)
next
  case (RCopy n v1 len todo buf)
  show ?thesis
  proof (cases "todo = {}")
    case True
    with RCopy have r: "reader_at s = RCopy n v1 len {} buf" by simp
    show ?thesis
    proof (cases "slot_version (shared s) = v1 \<and> slot_version (shared s) mod 2 = 0")
      case True
      then show ?thesis using same_version [OF r conjunct1 conjunct2, OF True True] by (intro exI)
    next
      case False
      then show ?thesis by (intro exI) (rule torn [OF r])
    qed
  next
    case False
    then obtain j where "j \<in> todo" by blast
    with RCopy show ?thesis using read_byte [of s n v1 len todo buf j ss] by blast
  qed
qed (use assms in auto)

text \<open>
  C36. A read is wait-free: whatever the writers and lease holders of the slot do meanwhile, the
  reader takes at most \<open>3 * (slot_size + 3)\<close> memory accesses, and until it has returned bytes or
  given up it can always take the next one.
\<close>

theorem reader_terminates:
  assumes "seqlock_run ss n s"
  shows "n \<le> MAX_TORN_READ_RETRIES * (ss + 3) \<and>
    ((\<exists>v bs. reader_at s = RReturn v bs) \<or> reader_at s = RGaveUp \<or> (\<exists>s'. reader_step ss s s'))"
proof -
  have "n \<le> MAX_TORN_READ_RETRIES * (ss + 3)" using run_bound [OF assms] by linarith
  moreover have "reader_wf (reader_at s)" using run_bound [OF assms] by blast
  ultimately show ?thesis using reader_can_step [of s ss] by blast
qed

theorem reader_terminates_witness:
  "\<exists>s'. reader_step 64 seqlock_init s'"
  using reader_terminates [OF run_start [of 64]] by (simp add: seqlock_init_def)

end
