(* ===== verification/Ssd_Names.thy ===== *)
theory Ssd_Names
  imports Hashing
begin

text \<open>
  The names of the SSD regions of \<open>src/infera/kvd/ssd.py\<close>: the composite key of a block, its
  percent-encoded file name, and the sharded path. A Python \<open>str\<close> is the list of its UTF-8
  bytes. The digest \<open>sha256(...).hexdigest()\<close> is a parameter.
\<close>

section \<open>Base64\<close>

text \<open>\<open>base64.urlsafe_b64encode\<close>: four characters for three bytes, the last group padded.\<close>

definition b64_alphabet :: string where
  "b64_alphabet = ''ABCDEFGHIJKLMNOPQRSTUVWXYZabcdefghijklmnopqrstuvwxyz0123456789-_''"

definition b64_char :: "nat \<Rightarrow> char" where
  "b64_char n = b64_alphabet ! (n mod 64)"

fun urlsafe_b64encode :: "byte list \<Rightarrow> string" where
  "urlsafe_b64encode [] = []"
| "urlsafe_b64encode [a] =
     [b64_char (unat a div 4), b64_char (unat a mod 4 * 16), CHR ''='', CHR ''='']"
| "urlsafe_b64encode [a, b] =
     [b64_char (unat a div 4), b64_char (unat a mod 4 * 16 + unat b div 16),
      b64_char (unat b mod 16 * 4), CHR ''='']"
| "urlsafe_b64encode (a # b # c # bs) =
     b64_char (unat a div 4) # b64_char (unat a mod 4 * 16 + unat b div 16) #
     b64_char (unat b mod 16 * 4 + unat c div 64) # b64_char (unat c mod 64) # urlsafe_b64encode bs"

definition rstrip_pad :: "string \<Rightarrow> string" where
  "rstrip_pad s = rev (dropWhile (\<lambda>c. c = CHR ''='') (rev s))"

text \<open>The value of a character; both alphabets are accepted, because the decoder translates \<open>-\<close> and
  \<open>_\<close> to \<open>+\<close> and \<open>/\<close> first.\<close>

definition b64_value :: "char \<Rightarrow> nat option" where
  "b64_value c =
     (if c = CHR ''+'' then Some 62 else if c = CHR ''/'' then Some 63
      else find (\<lambda>n. b64_alphabet ! n = c) [0..<64])"

definition byte_of :: "nat \<Rightarrow> byte" where
  "byte_of n = word_of_nat n"

text \<open>\<open>binascii.a2b_base64\<close> outside strict mode: characters of neither alphabet are skipped, a
  complete pad sequence ends the input, and left-over characters are an error. The arguments are
  the position in the group, the bits carried over and the pads seen.\<close>

fun a2b_base64 :: "nat \<Rightarrow> nat \<Rightarrow> nat \<Rightarrow> string \<Rightarrow> py_error + byte list" where
  "a2b_base64 q left pads [] = (if q = 0 then Inr [] else Inl ValueError)"
| "a2b_base64 q left pads (c # cs) =
     (if c = CHR ''='' then
        if 2 \<le> q then if q + pads + 1 \<ge> 4 then Inr [] else a2b_base64 q left (pads + 1) cs
        else a2b_base64 q left pads cs
      else case b64_value c of
        None \<Rightarrow> a2b_base64 q left pads cs
      | Some v \<Rightarrow>
          if q = 0 then a2b_base64 1 v 0 cs
          else if q = 1 then sum_bind (a2b_base64 2 (v mod 16) 0 cs) (\<lambda>r. Inr (byte_of (left * 4 + v div 16) # r))
          else if q = 2 then sum_bind (a2b_base64 3 (v mod 4) 0 cs) (\<lambda>r. Inr (byte_of (left * 16 + v div 4) # r))
          else sum_bind (a2b_base64 0 0 0 cs) (\<lambda>r. Inr (byte_of (left * 64 + v) # r)))"

section \<open>Composite keys\<close>

definition encode_composite :: "string \<Rightarrow> string \<Rightarrow> byte list \<Rightarrow> string" where
  "encode_composite model compat_key key =
     model @ ''|'' @ compat_key @ ''|'' @ rstrip_pad (urlsafe_b64encode key)"

text \<open>\<open>s.split("|", n)\<close>.\<close>

fun split_bar :: "nat \<Rightarrow> string \<Rightarrow> string list" where
  "split_bar 0 s = [s]"
| "split_bar (Suc n) s =
     (case dropWhile (\<lambda>c. c \<noteq> CHR ''|'') s of
        [] \<Rightarrow> [s]
      | _ # rest \<Rightarrow> takeWhile (\<lambda>c. c \<noteq> CHR ''|'') s # split_bar n rest)"

text \<open>\<open>base64.urlsafe_b64decode\<close> of a \<open>str\<close>, which must be ASCII.\<close>

definition is_ascii :: "string \<Rightarrow> bool" where
  "is_ascii s \<longleftrightarrow> list_all (\<lambda>c. of_char c < (128 :: nat)) s"

definition urlsafe_b64decode :: "string \<Rightarrow> py_error + byte list" where
  "urlsafe_b64decode s = (if is_ascii s then a2b_base64 0 0 0 s else Inl ValueError)"

definition decode_composite :: "string \<Rightarrow> py_error + string \<times> string \<times> byte list" where
  "decode_composite composite =
     (case split_bar 2 composite of
        [model, compat_key, key_b64] \<Rightarrow>
          sum_bind (urlsafe_b64decode (key_b64 @ replicate ((4 - length key_b64 mod 4) mod 4) (CHR ''='')))
            (\<lambda>key. Inr (model, compat_key, key))
      | _ \<Rightarrow> Inl ValueError)"

section \<open>File names\<close>

text \<open>\<open>urllib.parse.quote(s, safe="")\<close> and \<open>unquote\<close>.\<close>

definition unreserved :: "char \<Rightarrow> bool" where
  "unreserved c \<longleftrightarrow>
     c \<in> set ''ABCDEFGHIJKLMNOPQRSTUVWXYZabcdefghijklmnopqrstuvwxyz0123456789_.-~''"

definition hex_digit :: "nat \<Rightarrow> char" where
  "hex_digit n = ''0123456789ABCDEF'' ! (n mod 16)"

definition hex_value :: "char \<Rightarrow> nat option" where
  "hex_value c =
     (case find (\<lambda>n. ''0123456789ABCDEF'' ! n = c) [0..<16] of
        Some n \<Rightarrow> Some n
      | None \<Rightarrow> find (\<lambda>n. ''0123456789abcdef'' ! n = c) [0..<16])"

fun quote :: "string \<Rightarrow> string" where
  "quote [] = []"
| "quote (c # cs) =
     (if unreserved c then c # quote cs
      else CHR ''%'' # hex_digit (of_char c div 16) # hex_digit (of_char c mod 16) # quote cs)"

fun unquote :: "string \<Rightarrow> string" where
  "unquote (c # a # b # cs) =
     (if c = CHR ''%'' then
        case (hex_value a, hex_value b) of
          (Some h, Some l) \<Rightarrow> char_of (16 * h + l) # unquote cs
        | _ \<Rightarrow> c # unquote (a # b # cs)
      else c # unquote (a # b # cs))"
| "unquote s = s"

definition filename_for_composite :: "string \<Rightarrow> string" where
  "filename_for_composite composite = quote composite"

definition is_lower_hex :: "string \<Rightarrow> bool" where
  "is_lower_hex s \<longleftrightarrow> s \<noteq> [] \<and> list_all (\<lambda>c. c \<in> set ''0123456789abcdef'') s"

text \<open>A path below the region root: the two shard directories and the file name.\<close>

type_synonym ssd_path = "string \<times> string \<times> string"

definition DATA_EXT :: string where "DATA_EXT = ''.kvcache''"
definition METADATA_EXT :: string where "METADATA_EXT = ''.kvcache.metadata''"

definition paths_for_composite :: "(string \<Rightarrow> string) \<Rightarrow> string \<Rightarrow> ssd_path \<times> ssd_path" where
  "paths_for_composite hexdigest composite =
     (let h = hexdigest composite; fname = filename_for_composite composite
      in ((take 2 h, take 2 (drop 2 h), fname @ DATA_EXT),
          (take 2 h, take 2 (drop 2 h), fname @ METADATA_EXT)))"

section \<open>Round trips\<close>

lemma all_below_64: "(\<forall>n \<in> set [0..<64]. P n) \<Longrightarrow> n < 64 \<Longrightarrow> P (n :: nat)"
  by simp

lemma b64_value_char: "n < 64 \<Longrightarrow> b64_value (b64_char n) = Some n \<and> b64_char n \<noteq> CHR ''=''"
  by (rule all_below_64 [where P = "\<lambda>n. b64_value (b64_char n) = Some n \<and> b64_char n \<noteq> CHR ''=''"]) code_simp

lemma b64_value_charD [simp]:
  "n < 64 \<Longrightarrow> b64_value (b64_char n) = Some n" "n < 64 \<Longrightarrow> b64_char n \<noteq> CHR ''=''"
  using b64_value_char by blast+

lemma unat_byte_less [simp]: "unat (b :: byte) < 256"
proof -
  have "unat b < 2 ^ LENGTH(8)" by (rule unsigned_less)
  then show ?thesis by simp
qed

lemma unat_byte_bounds [simp]:
  "unat (a :: byte) div 4 < 64" "unat (a :: byte) mod 4 * 16 + unat (b :: byte) div 16 < 64"
  "unat (b :: byte) mod 16 * 4 + unat (c :: byte) div 64 < 64" "unat (a :: byte) mod 4 * 16 < 64"
  "unat (b :: byte) mod 16 * 4 < 64"
proof -
  have "unat a < 256" "unat b < 256" "unat c < 256" by simp_all
  then show "unat a div 4 < 64" "unat a mod 4 * 16 + unat b div 16 < 64"
    "unat b mod 16 * 4 + unat c div 64 < 64" "unat a mod 4 * 16 < 64" "unat b mod 16 * 4 < 64"
    by linarith+
qed

fun b64_nopad :: "byte list \<Rightarrow> string" where
  "b64_nopad [] = []"
| "b64_nopad [a] = [b64_char (unat a div 4), b64_char (unat a mod 4 * 16)]"
| "b64_nopad [a, b] =
     [b64_char (unat a div 4), b64_char (unat a mod 4 * 16 + unat b div 16), b64_char (unat b mod 16 * 4)]"
| "b64_nopad (a # b # c # bs) =
     b64_char (unat a div 4) # b64_char (unat a mod 4 * 16 + unat b div 16) #
     b64_char (unat b mod 16 * 4 + unat c div 64) # b64_char (unat c mod 64) # b64_nopad bs"

lemma b64_char_in: "b64_char n \<in> set b64_alphabet"
proof -
  have "n mod 64 < length b64_alphabet" by (simp add: b64_alphabet_def)
  then show ?thesis unfolding b64_char_def by (rule nth_mem)
qed

lemma b64_nopad_set: "set (b64_nopad bs) \<subseteq> set b64_alphabet"
  by (induction bs rule: b64_nopad.induct) (simp_all add: b64_char_in)

lemma b64_nopad_no_eq: "CHR ''='' \<notin> set (b64_nopad bs)" "CHR ''|'' \<notin> set (b64_nopad bs)"
  using b64_nopad_set [of bs] by (auto simp: b64_alphabet_def)

lemma b64_encode_nopad:
  "\<exists>n. urlsafe_b64encode bs = b64_nopad bs @ replicate n (CHR ''='')"
proof (induction bs rule: b64_nopad.induct)
  case 1
  show ?case by (rule exI [of _ 0]) simp
next
  case (2 a)
  show ?case by (rule exI [of _ 2]) (simp add: numeral_2_eq_2)
next
  case (3 a b)
  show ?case by (rule exI [of _ 1]) simp
qed auto

lemma rstrip_b64: "rstrip_pad (urlsafe_b64encode bs) = b64_nopad bs"
proof -
  obtain n where n: "urlsafe_b64encode bs = b64_nopad bs @ replicate n (CHR ''='')"
    using b64_encode_nopad by blast
  have "dropWhile (\<lambda>c. c = CHR ''='') (replicate n (CHR ''='') @ rev (b64_nopad bs)) = rev (b64_nopad bs)"
  proof (induction n)
    case 0
    have "x \<noteq> CHR ''=''" if "x \<in> set (rev (b64_nopad bs))" for x
      using that b64_nopad_no_eq(1) [of bs] by auto
    then show ?case by (cases "rev (b64_nopad bs)") auto
  qed simp
  then show ?thesis by (simp add: rstrip_pad_def n)
qed
lemma byte_ofI: "n = unat a \<Longrightarrow> byte_of n = a"
  by (simp add: byte_of_def)

lemma sextets:
  "byte_of (unat a div 4 * 4 + unat a mod 4 * 16 div 16) = a"
  "byte_of (unat a div 4 * 4 + (unat a mod 4 * 16 + unat b div 16) div 16) = a"
  "byte_of ((unat a mod 4 * 16 + unat b div 16) mod 16 * 16 + unat b mod 16 * 4 div 4) = b"
  "byte_of ((unat a mod 4 * 16 + unat b div 16) mod 16 * 16 + (unat b mod 16 * 4 + unat c div 64) div 4) = b"
  "byte_of ((unat b mod 16 * 4 + unat c div 64) mod 4 * 64 + unat c mod 64) = c"
proof -
  have "unat a < 256" "unat b < 256" "unat c < 256" by simp_all
  then have d: "unat b div 16 < 16" "unat c div 64 < 4" by linarith+
  show "byte_of (unat a div 4 * 4 + unat a mod 4 * 16 div 16) = a" by (rule byte_ofI) simp
  show "byte_of (unat a div 4 * 4 + (unat a mod 4 * 16 + unat b div 16) div 16) = a"
    by (rule byte_ofI) (use d in simp)
  show "byte_of ((unat a mod 4 * 16 + unat b div 16) mod 16 * 16 + unat b mod 16 * 4 div 4) = b"
    by (rule byte_ofI) (use d in simp)
  show "byte_of ((unat a mod 4 * 16 + unat b div 16) mod 16 * 16 + (unat b mod 16 * 4 + unat c div 64) div 4) = b"
    by (rule byte_ofI) (use d in simp)
  show "byte_of ((unat b mod 16 * 4 + unat c div 64) mod 4 * 64 + unat c mod 64) = c"
    by (rule byte_ofI) (use d in simp)
qed

text \<open>One group of the decoder.\<close>

lemma a2b_first: "x < 64 \<Longrightarrow> a2b_base64 0 l p (b64_char x # cs) = a2b_base64 1 x 0 cs"
  by simp

lemma a2b_next:
  assumes "y < 64"
  shows "a2b_base64 1 x p (b64_char y # cs) = sum_bind (a2b_base64 2 (y mod 16) 0 cs) (\<lambda>r. Inr (byte_of (x * 4 + y div 16) # r))"
    and "a2b_base64 2 x p (b64_char y # cs) = sum_bind (a2b_base64 3 (y mod 4) 0 cs) (\<lambda>r. Inr (byte_of (x * 16 + y div 4) # r))"
    and "a2b_base64 3 x p (b64_char y # cs) = sum_bind (a2b_base64 0 0 0 cs) (\<lambda>r. Inr (byte_of (x * 64 + y) # r))"
  using assms by simp_all

lemmas a2b_quad = a2b_first a2b_next

lemma a2b_pads: "a2b_base64 3 l 0 [CHR ''=''] = Inr []" "a2b_base64 2 l 0 [CHR ''='', CHR ''=''] = Inr []"
  by simp_all

lemma a2b_nopad:
  "a2b_base64 0 0 0 (b64_nopad bs @ replicate ((4 - length (b64_nopad bs) mod 4) mod 4) (CHR ''='')) = Inr bs"
proof (induction bs rule: b64_nopad.induct)
  case (2 a)
  have "replicate ((4 - length (b64_nopad [a]) mod 4) mod 4) (CHR ''='') = [CHR ''='', CHR ''='']"
    by (simp add: numeral_2_eq_2)
  then show ?case by (simp only: b64_nopad.simps append.simps a2b_quad unat_byte_bounds a2b_pads sextets sum_bind.simps)
next
  case (3 a b)
  have "replicate ((4 - length (b64_nopad [a, b]) mod 4) mod 4) (CHR ''='') = [CHR ''='']"
    by simp
  then show ?case
    by (simp only: b64_nopad.simps append.simps a2b_quad unat_byte_bounds a2b_pads sextets sum_bind.simps)
next
  case (4 a b c bs)
  have l: "length (b64_nopad (a # b # c # bs)) mod 4 = length (b64_nopad bs) mod 4" "unat c mod 64 < 64" by simp_all
  show ?case unfolding l(1)
    by (simp only: b64_nopad.simps append.simps a2b_quad unat_byte_bounds l(2) 4 sextets sum_bind.simps)
qed simp

lemma split_bar_hit:
  assumes "CHR ''|'' \<notin> set a"
  shows "split_bar (Suc n) (a @ CHR ''|'' # rest) = a # split_bar n rest"
proof -
  have "dropWhile (\<lambda>c. c \<noteq> CHR ''|'') (a @ CHR ''|'' # rest) = CHR ''|'' # rest"
    "takeWhile (\<lambda>c. c \<noteq> CHR ''|'') (a @ CHR ''|'' # rest) = a"
    using assms by (induction a) auto
  then show ?thesis by simp
qed

lemma split_composite:
  assumes "CHR ''|'' \<notin> set model" and "CHR ''|'' \<notin> set compat_key"
  shows "split_bar 2 (encode_composite model compat_key key) = [model, compat_key, b64_nopad key]"
proof -
  have "encode_composite model compat_key key =
      model @ CHR ''|'' # (compat_key @ CHR ''|'' # b64_nopad key)"
    by (simp add: encode_composite_def rstrip_b64)
  then show ?thesis
    unfolding numeral_2_eq_2 by (simp only: split_bar_hit [OF assms(1)] split_bar_hit [OF assms(2)] split_bar.simps(1))
qed

lemma b64_nopad_ascii: "is_ascii (b64_nopad bs @ replicate n (CHR ''=''))"
proof -
  have "\<forall>c \<in> set b64_alphabet. of_char c < (128 :: nat)" unfolding b64_alphabet_def by code_simp
  then show ?thesis using b64_nopad_set [of bs] by (auto simp: is_ascii_def list_all_iff)
qed

lemma decode_nopad:
  "urlsafe_b64decode (b64_nopad bs @ replicate ((4 - length (b64_nopad bs) mod 4) mod 4) (CHR ''='')) = Inr bs"
  by (simp only: urlsafe_b64decode_def b64_nopad_ascii if_True a2b_nopad)

lemma composite_decode:
  assumes "CHR ''|'' \<notin> set model" and "CHR ''|'' \<notin> set compat_key"
  shows "decode_composite (encode_composite model compat_key key) = Inr (model, compat_key, key)"
  by (simp only: decode_composite_def split_composite [OF assms] decode_nopad list.case sum_bind.simps)

text \<open>A model name with \<open>|\<close> collides with another identity.\<close>

lemma composite_collision:
  "encode_composite ''a|b'' ''c'' k = encode_composite ''a'' ''b|c'' k"
  by (simp add: encode_composite_def)

lemma encode_composite_inj:
  assumes "encode_composite m c k = encode_composite m' c' k'"
    and "CHR ''|'' \<notin> set m" "CHR ''|'' \<notin> set c" "CHR ''|'' \<notin> set m'" "CHR ''|'' \<notin> set c'"
  shows "m = m' \<and> c = c' \<and> k = k'"
proof -
  have "[m, c, b64_nopad k] = [m', c', b64_nopad k']"
    using split_composite [OF assms(2,3), of k] split_composite [OF assms(4,5), of k'] assms(1) by simp
  then have eq: "m = m'" "c = c'" "b64_nopad k = b64_nopad k'" by simp_all
  have "(Inr k :: py_error + byte list) = Inr k'"
    by (rule trans [OF a2b_nopad [of k, symmetric]]) (simp only: eq(3) a2b_nopad)
  with eq show ?thesis by simp
qed

lemma all_below_16: "(\<forall>n \<in> set [0..<16]. P n) \<Longrightarrow> n < 16 \<Longrightarrow> P (n :: nat)"
  by simp

lemma hex_value_digit: "n < 16 \<Longrightarrow> hex_value (hex_digit n) = Some n"
  by (rule all_below_16 [where P = "\<lambda>n. hex_value (hex_digit n) = Some n"]) code_simp

lemma of_char_less: "of_char c < (256 :: nat)"
  using of_char_mod_256 [of c, where ?'a = nat] mod_less_divisor [of 256 "of_char c"] by simp

lemma unquote_cons: "c \<noteq> CHR ''%'' \<Longrightarrow> unquote (c # s) = c # unquote s"
  by (cases s rule: unquote.cases) simp_all

lemma unquote_quote: "unquote (quote s) = s"
proof (induction s)
  case (Cons c s)
  show ?case
  proof (cases "unreserved c")
    case True
    then have "c \<noteq> CHR ''%''" by (auto simp: unreserved_def)
    with True Cons show ?thesis by (simp add: unquote_cons)
  next
    case False
    have "of_char c div 16 < (16 :: nat)" using of_char_less [of c] by linarith
    with False Cons show ?thesis by (simp add: hex_value_digit)
  qed
qed simp

lemma quote_inj: "quote s = quote t \<Longrightarrow> s = t"
  by (metis unquote_quote)

lemma quote_chars: "c \<in> set (quote s) \<Longrightarrow> unreserved c \<or> c = CHR ''%''"
proof (induction s rule: quote.induct)
  case (2 d ds)
  have "unreserved (hex_digit n)" for n
  proof -
    have "hex_digit n \<in> set ''0123456789ABCDEF''" unfolding hex_digit_def by (rule nth_mem) simp
    then show ?thesis by (auto simp: unreserved_def)
  qed
  with 2 show ?case by (auto split: if_splits)
qed simp

section \<open>Property\<close>

text \<open>
  C37. The identity of a block survives its file name: for a model and a compatibility key without
  \<open>|\<close>, and for any key bytes, undoing the URL encoding of the file name and decoding the composite
  key returns the three parts. The name itself is safe on any file system: it consists of unreserved
  characters and \<open>%\<close>, so it has no path separator.
\<close>

theorem composite_round_trip:
  assumes "CHR ''|'' \<notin> set model" and "CHR ''|'' \<notin> set compat_key"
  shows "decode_composite (unquote (filename_for_composite (encode_composite model compat_key key))) = Inr (model, compat_key, key) \<and>
    (\<forall>c \<in> set (filename_for_composite (encode_composite model compat_key key)). unreserved c \<or> c = CHR ''%'')"
  using composite_decode [OF assms] quote_chars by (simp add: filename_for_composite_def unquote_quote)

theorem composite_round_trip_witness:
  "decode_composite (unquote (filename_for_composite (encode_composite ''org/m'' ''c'' [255, 0]))) = Inr (''org/m'', ''c'', [255, 0]) \<and>
   CHR ''/'' \<notin> set (filename_for_composite (encode_composite ''org/m'' ''c'' [255, 0]))"
proof -
  note T = composite_round_trip [of "''org/m''" "''c''" "[255, 0]"]
  have "\<not> unreserved (CHR ''/'')" by (simp add: unreserved_def)
  then show ?thesis using T by auto
qed

end
