(* ===== verification/Ssd.thy ===== *)
theory Ssd
  imports Ssd_Names
begin

text \<open>
  The SSD regions of \<open>src/infera/kvd/ssd.py\<close>: the in-memory index with its byte accounting and
  LRU eviction, the data and sidecar files on disk, and the recovery scan of the long region.
  The disk is a dictionary from paths to file contents; a put is a list of disk operations, so
  that a crash is a prefix of the list. \<open>json\<close> and \<open>sha256\<close> are parameters; the clocks, the
  random suffix of a temporary file and the outcome of the disk writes are arguments. Directory
  creation, \<open>fsync\<close>, the file-system probe and the legacy-layout check are not modelled.
\<close>

section \<open>Sidecars\<close>

definition SIDECAR_VERSION :: int where "SIDECAR_VERSION = 1"
definition SIDECAR_HEADER_LEN_BYTES :: nat where "SIDECAR_HEADER_LEN_BYTES = 8"
definition SIDECAR_TOTAL_BYTES :: nat where "SIDECAR_TOTAL_BYTES = 4096"

datatype entry_meta = UserMeta "(string \<times> string) list" | HipfileMeta string int

text \<open>The payload of a sidecar; a field is \<open>None\<close> when the JSON object lacks it.\<close>

record sidecar =
  sc_version :: "int option"
  sc_retention :: "string option"
  sc_size_bytes :: "int option"
  sc_inserted_at :: "real option"
  sc_last_access :: "real option"
  sc_model :: "string option"
  sc_compat_key :: "string option"
  sc_value_sha256 :: "string option"
  sc_metadata :: "entry_meta option"

text \<open>The library functions the regions call.\<close>

record ssd_lib =
  hexdigest :: "string \<Rightarrow> string"
  value_digest :: "byte list \<Rightarrow> string"
  json_dumps :: "sidecar \<Rightarrow> byte list"
  json_loads :: "byte list \<Rightarrow> sidecar option"

datatype sidecar_error = SidecarError

definition encode_sidecar :: "ssd_lib \<Rightarrow> sidecar \<Rightarrow> sidecar_error + byte list" where
  "encode_sidecar lib payload =
     (let js = json_dumps lib payload in
      if length js > SIDECAR_TOTAL_BYTES - SIDECAR_HEADER_LEN_BYTES then Inl SidecarError
      else Inr (le_bytes 8 (int (length js)) @ js @
                replicate (SIDECAR_TOTAL_BYTES - SIDECAR_HEADER_LEN_BYTES - length js) 0))"

definition decode_sidecar :: "ssd_lib \<Rightarrow> byte list \<Rightarrow> sidecar_error + sidecar" where
  "decode_sidecar lib blob =
     (if length blob \<noteq> SIDECAR_TOTAL_BYTES then Inl SidecarError
      else let n = nat (le_int (take SIDECAR_HEADER_LEN_BYTES blob)) in
           if n > SIDECAR_TOTAL_BYTES - SIDECAR_HEADER_LEN_BYTES then Inl SidecarError
           else case json_loads lib (take n (drop SIDECAR_HEADER_LEN_BYTES blob)) of
                  None \<Rightarrow> Inl SidecarError
                | Some payload \<Rightarrow> Inr payload)"

lemma sidecar_round_trip:
  assumes "json_loads lib (json_dumps lib p) = Some p" and "encode_sidecar lib p = Inr blob"
  shows "decode_sidecar lib blob = Inr p"
proof -
  let ?js = "json_dumps lib p"
  have len: "length ?js \<le> 4088"
    using assms(2) by (auto simp: encode_sidecar_def SIDECAR_TOTAL_BYTES_def SIDECAR_HEADER_LEN_BYTES_def Let_def
        split: if_splits)
  have blob: "blob = le_bytes 8 (int (length ?js)) @ ?js @ replicate (4088 - length ?js) 0"
    using assms(2) by (auto simp: encode_sidecar_def SIDECAR_TOTAL_BYTES_def SIDECAR_HEADER_LEN_BYTES_def Let_def
        split: if_splits)
  have "le_int (le_bytes 8 (int (length ?js))) = int (length ?js)"
    using len by (intro le_int_le_bytes) auto
  with len assms(1) show ?thesis
    by (simp add: decode_sidecar_def blob SIDECAR_TOTAL_BYTES_def SIDECAR_HEADER_LEN_BYTES_def Let_def)
qed

section \<open>Regions\<close>

definition RETENTION_SHORT :: string where "RETENTION_SHORT = ''short''"
definition RETENTION_LONG :: string where "RETENTION_LONG = ''long''"

definition validate_retention :: "string \<Rightarrow> py_error + string" where
  "validate_retention r =
     (if r \<in> {''none'', ''ephemeral'', ''short'', ''long''} then Inr r else Inl ValueError)"

type_synonym identity = "string \<times> string \<times> byte list"

record SsdEntry =
  ent_key :: "byte list"
  ent_size :: nat
  ent_retention :: string
  ent_model :: string
  ent_compat :: string
  ent_inserted_at :: real
  ent_last_access :: real
  ent_metadata :: entry_meta

definition ent_composite :: "SsdEntry \<Rightarrow> string" where
  "ent_composite e = encode_composite (ent_model e) (ent_compat e) (ent_key e)"

type_synonym disk = "(ssd_path, byte list) dict"

record SsdRegion =
  region_max_bytes :: nat
  region_entries :: "(identity, SsdEntry) dict"
  region_used :: int
  region_disk :: disk

definition make_region :: "int \<Rightarrow> disk \<Rightarrow> py_error + SsdRegion" where
  "make_region mx d =
     (if mx \<le> 0 then Inl ValueError
      else Inr \<lparr>region_max_bytes = nat mx, region_entries = [], region_used = 0, region_disk = d\<rparr>)"

definition paths_for :: "ssd_lib \<Rightarrow> SsdEntry \<Rightarrow> ssd_path \<times> ssd_path" where
  "paths_for lib e = paths_for_composite (hexdigest lib) (ent_composite e)"

text \<open>The clocks an operation reads: \<open>time.monotonic()\<close> and \<open>time.time()\<close>.\<close>

type_synonym clock = "real \<times> real"

definition to_wall :: "clock \<Rightarrow> real \<Rightarrow> real" where
  "to_wall now t = snd now - (fst now - t)"

definition from_wall :: "clock \<Rightarrow> real \<Rightarrow> real" where
  "from_wall now t = fst now - (snd now - t)"

section \<open>Disk operations\<close>

datatype disk_op = WriteFile ssd_path "byte list" | Replace ssd_path ssd_path | Unlink ssd_path

fun apply_op :: "disk \<Rightarrow> disk_op \<Rightarrow> disk" where
  "apply_op d (WriteFile p b) = dict_put p b d"
| "apply_op d (Replace p q) =
     (case dict_get d p of None \<Rightarrow> d | Some b \<Rightarrow> dict_put q b (dict_del p d))"
| "apply_op d (Unlink p) = dict_del p d"

abbreviation run_ops :: "disk \<Rightarrow> disk_op list \<Rightarrow> disk" where
  "run_ops \<equiv> foldl apply_op"

definition delete_block_files :: "ssd_lib \<Rightarrow> SsdEntry \<Rightarrow> disk_op list" where
  "delete_block_files lib e = [Unlink (fst (paths_for lib e)), Unlink (snd (paths_for lib e))]"

text \<open>Whether the disk accepts the data and the sidecar write.\<close>

datatype io_outcome = IoOk | DataWriteFails | SidecarWriteFails

fun tmp_path :: "ssd_path \<Rightarrow> string \<Rightarrow> ssd_path" where
  "tmp_path (s, l, name) rand = (s, l, name @ ''.tmp.'' @ rand)"

definition sidecar_of :: "ssd_lib \<Rightarrow> clock \<Rightarrow> SsdEntry \<Rightarrow> byte list \<Rightarrow> sidecar" where
  "sidecar_of lib now e value =
     \<lparr>sc_version = Some SIDECAR_VERSION, sc_retention = Some (ent_retention e),
      sc_size_bytes = Some (int (ent_size e)), sc_inserted_at = Some (to_wall now (ent_inserted_at e)),
      sc_last_access = Some (to_wall now (ent_last_access e)), sc_model = Some (ent_model e),
      sc_compat_key = Some (ent_compat e), sc_value_sha256 = Some (value_digest lib value),
      sc_metadata = Some (ent_metadata e)\<rparr>"

text \<open>Data first, then the sidecar, each through a temporary file. The flag tells success; after a
  failed write the temporary file is unlinked.\<close>

definition write_block_file ::
  "ssd_lib \<Rightarrow> clock \<Rightarrow> string \<Rightarrow> io_outcome \<Rightarrow> SsdEntry \<Rightarrow> byte list \<Rightarrow> disk_op list \<times> bool" where
  "write_block_file lib now rand io e value =
     (let (data_path, meta_path) = paths_for lib e;
          data_ops = [WriteFile (tmp_path data_path rand) value, Replace (tmp_path data_path rand) data_path]
      in if io = DataWriteFails then
           ([WriteFile (tmp_path data_path rand) value, Unlink (tmp_path data_path rand)], False)
         else case encode_sidecar lib (sidecar_of lib now e value) of
           Inl _ \<Rightarrow> (data_ops, False)
         | Inr blob \<Rightarrow>
             if io = SidecarWriteFails then
               (data_ops @ [WriteFile (tmp_path meta_path rand) blob, Unlink (tmp_path meta_path rand)], False)
             else (data_ops @ [WriteFile (tmp_path meta_path rand) blob, Replace (tmp_path meta_path rand) meta_path], True))"

section \<open>Eviction\<close>

fun lru_scan :: "(identity \<times> real) option \<Rightarrow> (identity, SsdEntry) dict \<Rightarrow> (identity \<times> real) option" where
  "lru_scan best [] = best"
| "lru_scan best ((k, e) # es) =
     lru_scan (case best of
                 None \<Rightarrow> Some (k, ent_last_access e)
               | Some (b, t) \<Rightarrow> if ent_last_access e < t then Some (k, ent_last_access e) else Some (b, t)) es"

definition pick_lru_victim :: "(identity, SsdEntry) dict \<Rightarrow> identity option" where
  "pick_lru_victim es = map_option fst (lru_scan None es)"

text \<open>Drop an entry from the index and the accounting.\<close>

definition forget_entry :: "SsdRegion \<Rightarrow> identity \<Rightarrow> SsdEntry \<Rightarrow> SsdRegion" where
  "forget_entry r k e =
     r\<lparr>region_entries := dict_del k (region_entries r), region_used := max 0 (region_used r - int (ent_size e))\<rparr>"

lemma lru_scan_in:
  "lru_scan best es = Some (k, t) \<Longrightarrow>
   best = Some (k, t) \<or> (\<exists>e. (k, e) \<in> set es \<and> ent_last_access e = t)"
proof (induction best es rule: lru_scan.induct)
  case (2 best k' e es)
  from 2(1) 2(2) show ?case by (auto split: option.splits if_splits)
qed simp

lemma pick_lru_in:
  assumes "pick_lru_victim es = Some k"
  shows "k \<in> fst ` set es"
  using assms lru_scan_in [of None es k] by (force simp: pick_lru_victim_def)

lemma dict_del_shorter: "k \<in> fst ` set d \<Longrightarrow> length (dict_del k d) < length d"
proof -
  assume "k \<in> fst ` set d"
  then obtain x where "x \<in> set d" "fst x = k" by auto
  then show ?thesis unfolding AList.delete_eq by (intro length_filter_less [of x]) auto
qed

text \<open>Evict the least recently used entries until \<open>size\<close> bytes fit. The result lists the evicted
  entries; the flag is \<open>False\<close> when the region ran out of victims.\<close>

function make_room :: "nat \<Rightarrow> SsdRegion \<Rightarrow> SsdEntry list \<times> SsdRegion \<times> bool" where
  "make_room sz r =
     (if region_used r + int sz \<le> int (region_max_bytes r) then ([], r, True)
      else case pick_lru_victim (region_entries r) of
             None \<Rightarrow> ([], r, False)
           | Some k \<Rightarrow>
               (case dict_get (region_entries r) k of
                  None \<Rightarrow> ([], r, False)
                | Some e \<Rightarrow>
                    let (es, r', ok) = make_room sz (forget_entry r k e) in (e # es, r', ok)))"
  by pat_completeness auto
termination
proof (relation "measure (\<lambda>(sz, r). length (region_entries r))")
  fix sz k e and r :: SsdRegion
  assume "pick_lru_victim (region_entries r) = Some k"
  then have "k \<in> fst ` set (region_entries r)" by (rule pick_lru_in)
  then show "((sz, forget_entry r k e), sz, r) \<in> measure (\<lambda>(sz, r). length (region_entries r))"
    using dict_del_shorter by (simp add: forget_entry_def)
qed simp

declare make_room.simps [simp del]

section \<open>Operations\<close>

text \<open>The result \<open>(accepted, reason)\<close> of a put.\<close>

type_synonym put_result = "bool \<times> string option"

text \<open>Write the files of an indexed entry; a failed write rolls the index entry back.\<close>

definition finish_put ::
  "ssd_lib \<Rightarrow> clock \<Rightarrow> string \<Rightarrow> io_outcome \<Rightarrow> identity \<Rightarrow> SsdEntry \<Rightarrow> byte list \<Rightarrow> SsdRegion \<Rightarrow>
   disk_op list \<Rightarrow> SsdRegion \<times> disk_op list \<times> put_result" where
  "finish_put lib now rand io k e value r pre =
     (let (ops, ok) = write_block_file lib now rand io e value in
      if ok then (r, pre @ ops, True, None)
      else case dict_get (region_entries r) k of
             None \<Rightarrow> (r, pre @ ops, False, Some ''disk_write_failed'')
           | Some e' \<Rightarrow> (forget_entry r k e', pre @ ops, False, Some ''disk_write_failed''))"

definition new_entry :: "clock \<Rightarrow> identity \<Rightarrow> nat \<Rightarrow> string \<Rightarrow> entry_meta \<Rightarrow> SsdEntry" where
  "new_entry now k sz ret meta =
     (case k of (model, ck, key) \<Rightarrow>
        \<lparr>ent_key = key, ent_size = sz, ent_retention = ret, ent_model = model, ent_compat = ck,
         ent_inserted_at = fst now, ent_last_access = fst now, ent_metadata = meta\<rparr>)"

text \<open>A put as the new index, the disk operations and the result. \<open>kind\<close> is the only retention the
  region takes and \<open>wrong\<close>, \<open>full\<close> are its reasons.\<close>

definition put_plan ::
  "string \<Rightarrow> string \<Rightarrow> string \<Rightarrow> ssd_lib \<Rightarrow> clock \<Rightarrow> string \<Rightarrow> io_outcome \<Rightarrow> SsdRegion \<Rightarrow>
   identity \<Rightarrow> byte list \<Rightarrow> string \<Rightarrow> entry_meta \<Rightarrow> SsdRegion \<times> disk_op list \<times> put_result" where
  "put_plan kind wrong full lib now rand io r k value ret meta =
     (if ret \<noteq> kind then (r, [], False, Some wrong)
      else if length value > region_max_bytes r then (r, [], False, Some ''value_larger_than_region'')
      else case dict_get (region_entries r) k of
             Some old \<Rightarrow>
               let e = old\<lparr>ent_size := length value, ent_last_access := fst now, ent_metadata := meta\<rparr>
               in finish_put lib now rand io k e value
                    (r\<lparr>region_entries := dict_put k e (region_entries r),
                       region_used := region_used r + (int (length value) - int (ent_size old))\<rparr>) []
           | None \<Rightarrow>
               (case make_room (length value) r of
                  (victims, r', ok) \<Rightarrow>
                    let pre = concat (map (delete_block_files lib) victims) in
                    if \<not> ok then (r', pre, False, Some full)
                    else let e = new_entry now k (length value) ret meta
                         in finish_put lib now rand io k e value
                              (r'\<lparr>region_entries := dict_put k e (region_entries r'),
                                  region_used := region_used r' + int (length value)\<rparr>) pre))"

definition execute :: "SsdRegion \<times> disk_op list \<times> put_result \<Rightarrow> put_result \<times> SsdRegion" where
  "execute p = (case p of (r, ops, res) \<Rightarrow> (res, r\<lparr>region_disk := run_ops (region_disk r) ops\<rparr>))"

definition region_put ::
  "string \<Rightarrow> string \<Rightarrow> string \<Rightarrow> ssd_lib \<Rightarrow> clock \<Rightarrow> string \<Rightarrow> io_outcome \<Rightarrow> SsdRegion \<Rightarrow>
   identity \<Rightarrow> byte list \<Rightarrow> string \<Rightarrow> entry_meta \<Rightarrow> (py_error + put_result) \<times> SsdRegion" where
  "region_put kind wrong full lib now rand io r k value ret meta =
     (case validate_retention ret of
        Inl e \<Rightarrow> (Inl e, r)
      | Inr _ \<Rightarrow> (case execute (put_plan kind wrong full lib now rand io r k value ret meta) of (res, r') \<Rightarrow> (Inr res, r')))"

definition spillover_put where
  "spillover_put = region_put RETENTION_SHORT ''spillover_only_accepts_short_retention'' ''spillover_full_no_victim''"

definition long_put where
  "long_put = region_put RETENTION_LONG ''long_region_only_accepts_long_retention'' ''long_region_full_no_victim''"

definition get_bytes :: "ssd_lib \<Rightarrow> clock \<Rightarrow> SsdRegion \<Rightarrow> identity \<Rightarrow> byte list option \<times> SsdRegion" where
  "get_bytes lib now r k =
     (case dict_get (region_entries r) k of
        None \<Rightarrow> (None, r)
      | Some e \<Rightarrow>
          let e' = e\<lparr>ent_last_access := fst now\<rparr>; r' = r\<lparr>region_entries := dict_put k e' (region_entries r)\<rparr>
          in case dict_get (region_disk r) (fst (paths_for lib e)) of
               Some b \<Rightarrow> (Some b, r')
             | None \<Rightarrow> (None, forget_entry r' k e'))"

definition region_exists :: "SsdRegion \<Rightarrow> string \<Rightarrow> string \<Rightarrow> byte list list \<Rightarrow> bool list" where
  "region_exists r model ck keys =
     map (\<lambda>k. dict_get (region_entries r) (model, ck, k) \<noteq> None) keys"

definition get_entry :: "SsdRegion \<Rightarrow> identity \<Rightarrow> SsdEntry option" where
  "get_entry r k = dict_get (region_entries r) k"

definition insert_metadata_only ::
  "ssd_lib \<Rightarrow> clock \<Rightarrow> SsdRegion \<Rightarrow> identity \<Rightarrow> string \<Rightarrow> int \<Rightarrow> string \<Rightarrow> int \<Rightarrow>
   (py_error + put_result) \<times> SsdRegion" where
  "insert_metadata_only lib now r k path sz ret version =
     (case validate_retention ret of
        Inl e \<Rightarrow> (Inl e, r)
      | Inr _ \<Rightarrow>
          if sz \<le> 0 then (Inr (False, Some ''bad_size''), r)
          else
            let meta = HipfileMeta path version; n = nat sz in
            case dict_get (region_entries r) k of
              Some old \<Rightarrow>
                (Inr (True, None),
                 r\<lparr>region_entries := dict_put k (old\<lparr>ent_size := n, ent_last_access := fst now,
                      ent_metadata := meta, ent_retention := ret\<rparr>) (region_entries r),
                   region_used := region_used r + (int n - int (ent_size old))\<rparr>)
            | None \<Rightarrow>
                (case make_room n r of
                   (victims, r', ok) \<Rightarrow>
                     let r' = r'\<lparr>region_disk := run_ops (region_disk r') (concat (map (delete_block_files lib) victims))\<rparr> in
                     if \<not> ok then (Inr (False, Some ''region_full''), r')
                     else
                       let e = new_entry now k n ret meta
                       in (Inr (True, None),
                           r'\<lparr>region_entries := dict_put k e (region_entries r'), region_used := region_used r' + int n\<rparr>)))"

definition region_remove :: "ssd_lib \<Rightarrow> SsdRegion \<Rightarrow> identity \<Rightarrow> bool \<times> SsdRegion" where
  "region_remove lib r k =
     (case dict_get (region_entries r) k of
        None \<Rightarrow> (False, r)
      | Some e \<Rightarrow>
          (True, (forget_entry r k e)\<lparr>region_disk := run_ops (region_disk r) (delete_block_files lib e)\<rparr>))"

definition region_clear :: "ssd_lib \<Rightarrow> SsdRegion \<Rightarrow> nat \<times> SsdRegion" where
  "region_clear lib r =
     (length (region_entries r),
      r\<lparr>region_entries := [], region_used := 0,
        region_disk := run_ops (region_disk r) (concat (map (delete_block_files lib \<circ> snd) (region_entries r)))\<rparr>)"

section \<open>Startup\<close>

definition contains_tmp :: "string \<Rightarrow> bool" where
  "contains_tmp name \<longleftrightarrow> (\<exists>i \<in> set [0..<length name]. take 5 (drop i name) = ''.tmp.'')"

definition ends_with :: "string \<Rightarrow> string \<Rightarrow> bool" where
  "ends_with suf s \<longleftrightarrow> length suf \<le> length s \<and> drop (length s - length suf) s = suf"

definition strip_suffix :: "string \<Rightarrow> string \<Rightarrow> string" where
  "strip_suffix suf s = take (length s - length suf) s"

definition is_shard :: "string \<Rightarrow> bool" where
  "is_shard s \<longleftrightarrow> length s = 2 \<and> is_lower_hex s"

text \<open>One sidecar and its data file: the entry to recover, or \<open>None\<close> when the pair is dropped.\<close>

definition check_pair :: "ssd_lib \<Rightarrow> clock \<Rightarrow> string \<Rightarrow> byte list \<Rightarrow> byte list \<Rightarrow> SsdEntry option" where
  "check_pair lib now stem blob data =
     (case decode_sidecar lib blob of
        Inl _ \<Rightarrow> None
      | Inr p \<Rightarrow>
          if sc_version p \<noteq> Some SIDECAR_VERSION then None
          else case decode_composite (unquote stem) of
            Inl _ \<Rightarrow> None
          | Inr (model, ck, key) \<Rightarrow>
              if sc_model p \<noteq> Some model \<or> sc_compat_key p \<noteq> Some ck then None
              else if int (length data) \<noteq> (case sc_size_bytes p of None \<Rightarrow> - 1 | Some n \<Rightarrow> n) then None
              else Some \<lparr>ent_key = key, ent_size = length data,
                         ent_retention = (case sc_retention p of None \<Rightarrow> RETENTION_LONG | Some s \<Rightarrow> s),
                         ent_model = model, ent_compat = ck,
                         ent_inserted_at = from_wall now (case sc_inserted_at p of None \<Rightarrow> snd now | Some t \<Rightarrow> t),
                         ent_last_access = from_wall now (case sc_last_access p of None \<Rightarrow> snd now | Some t \<Rightarrow> t),
                         ent_metadata = (case sc_metadata p of None \<Rightarrow> UserMeta [] | Some m \<Rightarrow> m)\<rparr>)"

text \<open>One leaf directory, given its files: the recovered entries and the names to unlink.\<close>

definition meta_stems :: "(string \<times> byte list) list \<Rightarrow> (string, byte list) dict" where
  "meta_stems files =
     map (\<lambda>(n, b). (strip_suffix METADATA_EXT n, b))
       (filter (\<lambda>(n, b). \<not> contains_tmp n \<and> ends_with METADATA_EXT n) files)"

definition data_stems :: "(string \<times> byte list) list \<Rightarrow> (string, byte list) dict" where
  "data_stems files =
     map (\<lambda>(n, b). (strip_suffix DATA_EXT n, b))
       (filter (\<lambda>(n, b). \<not> contains_tmp n \<and> \<not> ends_with METADATA_EXT n \<and> ends_with DATA_EXT n) files)"

definition found_entry :: "ssd_lib \<Rightarrow> clock \<Rightarrow> (string, byte list) dict \<Rightarrow> string \<times> byte list \<Rightarrow> SsdEntry option" where
  "found_entry lib now datas = (\<lambda>(stem, blob).
     case dict_get datas stem of None \<Rightarrow> None | Some data \<Rightarrow> check_pair lib now stem blob data)"

definition dropped_names :: "ssd_lib \<Rightarrow> clock \<Rightarrow> (string, byte list) dict \<Rightarrow> string \<times> byte list \<Rightarrow> string list" where
  "dropped_names lib now datas = (\<lambda>(stem, blob).
     if dict_get datas stem = None then [stem @ METADATA_EXT]
     else if found_entry lib now datas (stem, blob) = None then [stem @ DATA_EXT, stem @ METADATA_EXT] else [])"

definition scan_leaf_dir :: "ssd_lib \<Rightarrow> clock \<Rightarrow> (string \<times> byte list) list \<Rightarrow> SsdEntry list \<times> string list" where
  "scan_leaf_dir lib now files =
     (let metas = meta_stems files; datas = data_stems files
      in (List.map_filter (found_entry lib now datas) metas,
          map fst (filter (\<lambda>(n, b). contains_tmp n) files) @
          map (\<lambda>(stem, _). stem @ DATA_EXT) (filter (\<lambda>(stem, _). dict_get metas stem = None) datas) @
          concat (map (dropped_names lib now datas) metas)))"

definition leaf_files :: "disk \<Rightarrow> string \<Rightarrow> string \<Rightarrow> (string \<times> byte list) list" where
  "leaf_files d s l = map (\<lambda>((_, _, n), b). (n, b)) (filter (\<lambda>((s', l', _), _). s' = s \<and> l' = l) d)"

definition leaf_dirs :: "disk \<Rightarrow> (string \<times> string) list" where
  "leaf_dirs d = filter (\<lambda>(s, l). is_shard s \<and> is_shard l) (remdups (map (\<lambda>((s, l, _), _). (s, l)) d))"

definition scan_metadata_dir :: "ssd_lib \<Rightarrow> clock \<Rightarrow> disk \<Rightarrow> string \<times> string \<Rightarrow> SsdEntry list \<times> disk_op list" where
  "scan_metadata_dir lib now d = (\<lambda>(s, l).
     let (es, names) = scan_leaf_dir lib now (leaf_files d s l) in (es, map (\<lambda>n. Unlink (s, l, n)) names))"

definition recover_from_sidecars :: "ssd_lib \<Rightarrow> clock \<Rightarrow> disk \<Rightarrow> SsdEntry list \<times> disk_op list" where
  "recover_from_sidecars lib now d =
     (let scans = map (scan_metadata_dir lib now d) (leaf_dirs d)
      in (concat (map fst scans), concat (map snd scans)))"

definition ent_identity :: "SsdEntry \<Rightarrow> identity" where
  "ent_identity e = (ent_model e, ent_compat e, ent_key e)"

definition long_start :: "ssd_lib \<Rightarrow> clock \<Rightarrow> SsdRegion \<Rightarrow> SsdRegion" where
  "long_start lib now r =
     (let (es, ops) = recover_from_sidecars lib now (region_disk r)
      in r\<lparr>region_entries := foldl (\<lambda>d e. dict_put (ent_identity e) e d) [] es,
           region_used := sum_list (map (\<lambda>e. int (ent_size e)) es),
           region_disk := run_ops (region_disk r) ops\<rparr>)"

definition spillover_start :: "SsdRegion \<Rightarrow> SsdRegion" where
  "spillover_start r =
     r\<lparr>region_entries := [], region_used := 0,
       region_disk := filter (\<lambda>((s, _, _), _). \<not> is_shard s) (region_disk r)\<rparr>"

section \<open>The index and its accounting\<close>

abbreviation esize :: "SsdEntry \<Rightarrow> int" where "esize e \<equiv> int (ent_size e)"

text \<open>Every entry is filed under its identity, and the byte counter is the sum of the sizes.\<close>

definition region_wf :: "SsdRegion \<Rightarrow> bool" where
  "region_wf r \<longleftrightarrow> dict_wf (region_entries r) \<and>
     region_used r = dict_total esize (region_entries r) \<and>
     (\<forall>(k, e) \<in> set (region_entries r). ent_identity e = k)"

lemma region_wfD:
  assumes "region_wf r"
  shows "dict_wf (region_entries r)" "region_used r = dict_total esize (region_entries r)"
    "dict_get (region_entries r) k = Some e \<Longrightarrow> ent_identity e = k"
  using assms by (auto simp: region_wf_def dest: map_of_SomeD)

lemma total_nonneg: "0 \<le> dict_total esize d"
  by (rule dict_total_nonneg) simp

lemma forget_entry_wf:
  assumes "region_wf r" and "dict_get (region_entries r) k = Some e"
  shows "region_wf (forget_entry r k e)" and "region_used (forget_entry r k e) = region_used r - esize e"
proof -
  note D = region_wfD [OF assms(1)]
  have t: "dict_total esize (dict_del k (region_entries r)) = region_used r - esize e"
    using dict_total_del [OF D(1) assms(2), of esize] D(2) by simp
  then have m: "max 0 (region_used r - esize e) = region_used r - esize e"
    using total_nonneg [of "dict_del k (region_entries r)"] by simp
  have "set (dict_del k (region_entries r)) \<subseteq> set (region_entries r)" by (auto simp: AList.delete_eq)
  then show "region_wf (forget_entry r k e)"
    using assms(1) t m dict_wf_del [OF D(1), of k] by (auto simp: region_wf_def forget_entry_def)
  show "region_used (forget_entry r k e) = region_used r - esize e" using m by (simp add: forget_entry_def)
qed

lemma insert_entry_wf:
  assumes "region_wf r" and "dict_get (region_entries r) k = None" and "ent_identity e = k"
  shows "region_wf (r\<lparr>region_entries := dict_put k e (region_entries r), region_used := region_used r + esize e\<rparr>)"
  using assms dict_wf_put [OF region_wfD(1) [OF assms(1)], of k e]
    set_dict_put [of k e "region_entries r"] dict_total_put_new [OF assms(2), of esize e]
  by (auto simp: region_wf_def)

lemma update_entry_wf:
  assumes "region_wf r" and "dict_get (region_entries r) k = Some old" and "ent_identity e = k"
  shows "region_wf (r\<lparr>region_entries := dict_put k e (region_entries r),
    region_used := region_used r + (esize e - esize old)\<rparr>)"
  using assms dict_wf_put [OF region_wfD(1) [OF assms(1)], of k e]
    set_dict_put [of k e "region_entries r"] dict_total_put [OF region_wfD(1) [OF assms(1)] assms(2), of esize e]
  by (auto simp: region_wf_def)

lemma region_wf_disk [simp]: "region_wf (r\<lparr>region_disk := d\<rparr>) = region_wf r"
  by (simp add: region_wf_def)

lemma lru_scan_min:
  "lru_scan best es = Some (k, t) \<Longrightarrow>
   (\<forall>(k', e) \<in> set es. t \<le> ent_last_access e) \<and> (\<forall>p. best = Some p \<longrightarrow> t \<le> snd p)"
proof (induction best es rule: lru_scan.induct)
  case (2 best k' e es)
  show ?case
  proof (cases best)
    case None
    with 2 show ?thesis by (cases k') auto
  next
    case (Some p)
    with 2 show ?thesis by (cases p; cases k') (auto split: if_splits)
  qed
qed simp

text \<open>The victim is the least recently used entry.\<close>

lemma pick_lru_min:
  assumes "dict_wf es" "pick_lru_victim es = Some k" "dict_get es k = Some e" "dict_get es k' = Some e'"
  shows "ent_last_access e \<le> ent_last_access e'"
proof -
  obtain t where t: "lru_scan None es = Some (k, t)" using assms(2) by (auto simp: pick_lru_victim_def)
  have le: "(\<forall>(k', e) \<in> set es. t \<le> ent_last_access e)" using lru_scan_min [OF t] by blast
  obtain e0 where "(k, e0) \<in> set es" "ent_last_access e0 = t" using lru_scan_in [OF t] by auto
  with assms(1,3) have "ent_last_access e = t" by simp
  moreover have "t \<le> ent_last_access e'" using le map_of_SomeD [OF assms(4)] by auto
  ultimately show ?thesis by simp
qed

lemma lru_scan_some: "lru_scan best es = None \<Longrightarrow> best = None \<and> es = []"
  by (induction best es rule: lru_scan.induct) (auto split: option.splits if_splits)

lemma pick_lru_None: "pick_lru_victim es = None \<longleftrightarrow> es = []"
  using lru_scan_some [of None es] by (auto simp: pick_lru_victim_def)

text \<open>Making room drops entries, least recently used first, and nothing else; on a well-formed
  region it succeeds exactly when the block fits the region at all.\<close>

lemma make_room_spec:
  assumes "region_wf r" and "make_room sz r = (vs, r', ok)"
  shows "region_wf r' \<and> region_disk r' = region_disk r \<and> region_max_bytes r' = region_max_bytes r \<and>
    (ok \<longleftrightarrow> sz \<le> region_max_bytes r) \<and> (ok \<longrightarrow> region_used r' + int sz \<le> int (region_max_bytes r)) \<and>
    (\<not> ok \<longrightarrow> region_entries r' = []) \<and>
    (\<forall>k. dict_get (region_entries r') k = (if k \<in> ent_identity ` set vs then None else dict_get (region_entries r) k)) \<and>
    (\<forall>e \<in> set vs. dict_get (region_entries r) (ent_identity e) = Some e)"
  using assms
proof (induction sz r arbitrary: vs rule: make_room.induct)
  case (1 sz r)
  show ?case
  proof (cases "region_used r + int sz \<le> int (region_max_bytes r)")
    case True
    then have "vs = []" "r' = r" "ok" using 1(3) by (auto simp: make_room.simps [of sz r])
    moreover have "0 \<le> region_used r" using region_wfD(2) [OF 1(2)] total_nonneg by simp
    ultimately show ?thesis using True 1(2) by auto
  next
    case False
    show ?thesis
    proof (cases "pick_lru_victim (region_entries r)")
      case None
      then have "region_entries r = []" by (simp add: pick_lru_None)
      moreover from this have "region_used r = 0" using region_wfD(2) [OF 1(2)] by simp
      ultimately show ?thesis using 1(2,3) False None by (auto simp: make_room.simps [of sz r])
    next
      case (Some k)
      then have "k \<in> fst ` set (region_entries r)" by (rule pick_lru_in)
      then obtain e where e: "dict_get (region_entries r) k = Some e"
        by (cases "dict_get (region_entries r) k") (auto simp: dict_get_None_iff)
      obtain ws where ws: "make_room sz (forget_entry r k e) = (ws, r', ok)" "vs = e # ws"
        using 1(3) False Some e by (auto simp: make_room.simps [of sz r] split: prod.splits)
      have ide: "ent_identity e = k" by (rule region_wfD(3) [OF 1(2) e])
      have f: "region_disk (forget_entry r k e) = region_disk r" "region_max_bytes (forget_entry r k e) = region_max_bytes r"
        "region_entries (forget_entry r k e) = dict_del k (region_entries r)"
        by (simp_all add: forget_entry_def)
      note ih = 1(1) [OF False Some e forget_entry_wf(1) [OF 1(2) e] ws(1)]
      have "dict_get (region_entries r) (ent_identity w) = Some w" if "w \<in> set ws" for w
        using ih that by (auto simp: f dict_get_del split: if_splits)
      then show ?thesis using ih e ide by (auto simp: f ws(2) dict_get_del)
    qed
  qed
qed

lemma make_room_get:
  assumes "region_wf r" and "make_room sz r = (vs, r', ok)"
  shows "dict_get (region_entries r') k = (if k \<in> ent_identity ` set vs then None else dict_get (region_entries r) k)"
  using make_room_spec [OF assms] by blast

lemma make_room_wf:
  assumes "region_wf r" and "make_room sz r = (vs, r', ok)"
  shows "region_wf r'" "region_disk r' = region_disk r" "region_max_bytes r' = region_max_bytes r"
  using make_room_spec [OF assms] by blast+

lemma new_entry_fields [simp]:
  "ent_size (new_entry now k n ret meta) = n" "ent_retention (new_entry now k n ret meta) = ret"
  "ent_identity (new_entry now k n ret meta) = k" "ent_metadata (new_entry now k n ret meta) = meta"
  by (simp_all add: new_entry_def ent_identity_def split: prod.split)

lemma finish_put_wf:
  assumes "region_wf r"
  shows "region_wf (fst (finish_put lib now rand io k e v r pre))"
  using assms forget_entry_wf(1) [OF assms]
  by (auto simp: finish_put_def Let_def split: prod.split option.split)

lemma put_plan_wf:
  assumes "region_wf r"
  shows "region_wf (fst (put_plan kind wrong full lib now rand io r k v ret meta))"
proof (cases "ret \<noteq> kind \<or> length v > region_max_bytes r")
  case True
  then show ?thesis using assms by (auto simp: put_plan_def)
next
  case fits: False
  show ?thesis
  proof (cases "dict_get (region_entries r) k")
    case (Some old)
    let ?e = "old\<lparr>ent_size := length v, ent_last_access := fst now, ent_metadata := meta\<rparr>"
    have "ent_identity ?e = k" using region_wfD(3) [OF assms Some] by (simp add: ent_identity_def)
    from update_entry_wf [OF assms Some this] finish_put_wf show ?thesis
      using fits Some by (auto simp: put_plan_def Let_def)
  next
    case None
    obtain vs r' ok where m: "make_room (length v) r = (vs, r', ok)" by (cases "make_room (length v) r")
    note sp = make_room_wf [OF assms m]
    have "dict_get (region_entries r') k = None" using make_room_get [OF assms m, of k] None by simp
    then have "region_wf (r'\<lparr>region_entries := dict_put k (new_entry now k (length v) ret meta) (region_entries r'),
        region_used := region_used r' + int (length v)\<rparr>)"
      using sp insert_entry_wf [of r' k "new_entry now k (length v) ret meta"] by simp
    then show ?thesis using fits None m sp finish_put_wf by (auto simp: put_plan_def Let_def)
  qed
qed

section \<open>Histories\<close>

datatype ssd_op =
    SPut clock string io_outcome identity "byte list" string entry_meta
  | SMetadata clock identity string int string int
  | SGet clock identity
  | SRemove identity
  | SClear

fun ssd_step :: "string \<Rightarrow> ssd_lib \<Rightarrow> SsdRegion \<Rightarrow> ssd_op \<Rightarrow> SsdRegion" where
  "ssd_step kind lib r (SPut now rand io k v ret meta) =
     snd (region_put kind ''wrong_retention'' ''region_full'' lib now rand io r k v ret meta)"
| "ssd_step kind lib r (SMetadata now k path sz ret version) =
     snd (insert_metadata_only lib now r k path sz ret version)"
| "ssd_step kind lib r (SGet now k) = snd (get_bytes lib now r k)"
| "ssd_step kind lib r (SRemove k) = snd (region_remove lib r k)"
| "ssd_step kind lib r SClear = snd (region_clear lib r)"

lemma region_put_snd:
  "snd (region_put kind wrong full lib now rand io r k v ret meta) =
   (if isl (validate_retention ret) then r
    else let p = put_plan kind wrong full lib now rand io r k v ret meta
         in (fst p)\<lparr>region_disk := run_ops (region_disk (fst p)) (fst (snd p))\<rparr>)"
  by (auto simp: region_put_def execute_def Let_def split: sum.split prod.split)

lemma touch_entry_wf:
  assumes "region_wf r" and "dict_get (region_entries r) k = Some e"
  shows "region_wf (r\<lparr>region_entries := dict_put k (e\<lparr>ent_last_access := t\<rparr>) (region_entries r)\<rparr>)"
  using update_entry_wf [OF assms, of "e\<lparr>ent_last_access := t\<rparr>"] region_wfD(3) [OF assms]
  by (simp add: ent_identity_def)

lemma metadata_wf:
  assumes "region_wf r"
  shows "region_wf (snd (insert_metadata_only lib now r k path sz ret version))"
proof (cases "isl (validate_retention ret) \<or> sz \<le> 0")
  case True
  then show ?thesis using assms by (auto simp: insert_metadata_only_def split: sum.split)
next
  case ok: False
  show ?thesis
  proof (cases "dict_get (region_entries r) k")
    case (Some old)
    let ?e = "old\<lparr>ent_size := nat sz, ent_last_access := fst now, ent_metadata := HipfileMeta path version, ent_retention := ret\<rparr>"
    have "ent_identity ?e = k" using region_wfD(3) [OF assms Some] by (simp add: ent_identity_def)
    from update_entry_wf [OF assms Some this] show ?thesis
      using ok Some by (auto simp: insert_metadata_only_def Let_def split: sum.split)
  next
    case None
    obtain vs r' b where m: "make_room (nat sz) r = (vs, r', b)" by (cases "make_room (nat sz) r")
    note sp = make_room_wf [OF assms m]
    have n: "dict_get (region_entries r') k = None" using make_room_get [OF assms m, of k] None by simp
    let ?d = "run_ops (region_disk r') (concat (map (delete_block_files lib) vs))"
    have "region_wf (r'\<lparr>region_disk := ?d,
        region_entries := dict_put k (new_entry now k (nat sz) ret (HipfileMeta path version)) (region_entries r'),
        region_used := region_used r' + int (nat sz)\<rparr>)"
      using sp n insert_entry_wf [of "r'\<lparr>region_disk := ?d\<rparr>" k "new_entry now k (nat sz) ret (HipfileMeta path version)"] by simp
    then show ?thesis using ok None m sp by (auto simp: insert_metadata_only_def Let_def split: sum.split)
  qed
qed

lemma ssd_step_wf:
  assumes "region_wf r"
  shows "region_wf (ssd_step kind lib r op)"
proof (cases op)
  case (SPut now rand io k v ret meta)
  then show ?thesis using assms put_plan_wf by (simp add: region_put_snd Let_def)
next
  case (SMetadata now k path sz ret version)
  then show ?thesis using metadata_wf [OF assms] by simp
next
  case (SGet now k)
  show ?thesis
  proof (cases "dict_get (region_entries r) k")
    case (Some e)
    let ?r = "r\<lparr>region_entries := dict_put k (e\<lparr>ent_last_access := fst now\<rparr>) (region_entries r)\<rparr>"
    have wf: "region_wf ?r" by (rule touch_entry_wf [OF assms Some])
    have "dict_get (region_entries ?r) k = Some (e\<lparr>ent_last_access := fst now\<rparr>)" by (simp add: dict_get_put)
    from forget_entry_wf(1) [OF wf this] wf show ?thesis
      using SGet Some by (auto simp: get_bytes_def Let_def split: option.split)
  qed (use SGet assms in \<open>simp add: get_bytes_def\<close>)
next
  case (SRemove k)
  then show ?thesis
    using assms forget_entry_wf(1) [OF assms] by (auto simp: region_remove_def split: option.split)
next
  case SClear
  then show ?thesis by (simp add: region_clear_def region_wf_def)
qed

lemma ssd_run_wf: "region_wf r \<Longrightarrow> region_wf (foldl (ssd_step kind lib) r ops)"
  by (induction ops arbitrary: r) (auto simp: ssd_step_wf)

lemma make_region_wf: "make_region mx d = Inr r \<Longrightarrow> region_wf r"
  by (auto simp: make_region_def region_wf_def split: if_splits)

lemma finish_put_accepted:
  "finish_put lib now rand io k e v r pre = (r', ops, True, x) \<Longrightarrow> r' = r"
  by (auto simp: finish_put_def Let_def split: prod.splits option.splits if_splits)

lemma finish_put_not_full:
  "finish_put lib now rand io k e v r pre = (r', ops, res) \<Longrightarrow> snd res \<in> {None, Some ''disk_write_failed''}"
  by (auto simp: finish_put_def Let_def split: prod.splits option.splits if_splits)

text \<open>What a put of a new key does, when the region takes its retention and it fits.\<close>

lemma put_plan_new:
  assumes "region_wf r" and "dict_get (region_entries r) k = None"
    and "length v \<le> region_max_bytes r" and "ret = kind"
  shows "\<exists>vs r1. make_room (length v) r = (vs, r1, True) \<and>
    put_plan kind wrong full lib now rand io r k v ret meta =
      finish_put lib now rand io k (new_entry now k (length v) ret meta) v
        (r1\<lparr>region_entries := dict_put k (new_entry now k (length v) ret meta) (region_entries r1),
            region_used := region_used r1 + int (length v)\<rparr>) (concat (map (delete_block_files lib) vs))"
proof -
  obtain vs r1 ok where m: "make_room (length v) r = (vs, r1, ok)" by (cases "make_room (length v) r")
  have "ok" using make_room_spec [OF assms(1) m] assms(3) by blast
  with m assms(2-4) show ?thesis by (simp add: put_plan_def Let_def)
qed

text \<open>
  C38. The byte accounting of a region is exact after every history of puts, metadata inserts, reads,
  removals and clears, failed disk writes included: the counter is the sum of the entry sizes. A new
  block that fits the region at all is never refused for lack of room, and once it is accepted the
  region is within its budget.
\<close>

theorem ssd_accounting:
  assumes "make_region mx d = Inr r0" and "r = foldl (ssd_step kind lib) r0 ops"
  shows "region_used r = dict_total esize (region_entries r) \<and>
    (dict_get (region_entries r) k = None \<and> length v \<le> region_max_bytes r \<and> ret = kind \<longrightarrow>
      (case put_plan kind wrong full lib now rand io r k v ret meta of (r', _, accepted, reason) \<Rightarrow>
         (accepted \<longrightarrow> region_used r' \<le> int (region_max_bytes r)) \<and>
         (\<not> accepted \<longrightarrow> reason = Some ''disk_write_failed'')))"
proof -
  have wf: "region_wf r" unfolding assms(2) by (rule ssd_run_wf [OF make_region_wf [OF assms(1)]])
  have "(accepted \<longrightarrow> region_used r' \<le> int (region_max_bytes r)) \<and> (\<not> accepted \<longrightarrow> reason = Some ''disk_write_failed'')"
    if new: "dict_get (region_entries r) k = None" "length v \<le> region_max_bytes r" "ret = kind"
      and p: "put_plan kind wrong full lib now rand io r k v ret meta = (r', dops, accepted, reason)"
    for r' dops accepted reason
  proof -
    obtain vs r1 where m: "make_room (length v) r = (vs, r1, True)"
      and f: "finish_put lib now rand io k (new_entry now k (length v) ret meta) v
        (r1\<lparr>region_entries := dict_put k (new_entry now k (length v) ret meta) (region_entries r1),
            region_used := region_used r1 + int (length v)\<rparr>) (concat (map (delete_block_files lib) vs)) =
        (r', dops, accepted, reason)"
      using put_plan_new [OF wf new, of wrong full lib now rand io meta] p by auto
    have "region_used r1 + int (length v) \<le> int (region_max_bytes r)"
      using make_room_spec [OF wf m] by blast
    moreover have "accepted \<Longrightarrow> region_used r' = region_used r1 + int (length v)"
      using f by (cases accepted) (auto dest!: finish_put_accepted)
    moreover have "\<not> accepted \<Longrightarrow> reason = Some ''disk_write_failed''"
      using f by (auto simp: finish_put_def Let_def split: prod.splits option.splits if_splits)
    ultimately show ?thesis by auto
  qed
  then show ?thesis
    using region_wfD(2) [OF wf]
    by (cases "put_plan kind wrong full lib now rand io r k v ret meta") auto
qed

text \<open>A concrete library: a constant digest and a codec of one byte for the sidecar of the example.\<close>

definition demo_sidecar :: sidecar where
  "demo_sidecar = \<lparr>sc_version = Some 1, sc_retention = Some ''long'', sc_size_bytes = Some 2,
     sc_inserted_at = Some 7, sc_last_access = Some 7, sc_model = Some ''m'', sc_compat_key = Some ''c'',
     sc_value_sha256 = Some ''0'', sc_metadata = Some (UserMeta [])\<rparr>"

definition demo_lib :: ssd_lib where
  "demo_lib = \<lparr>hexdigest = (\<lambda>_. ''a1b2''), value_digest = (\<lambda>_. ''0''), json_dumps = (\<lambda>_. [1]),
     json_loads = (\<lambda>b. if b = [1] then Some demo_sidecar else None)\<rparr>"

definition demo_region :: SsdRegion where
  "demo_region = \<lparr>region_max_bytes = 5, region_entries = [], region_used = 0, region_disk = []\<rparr>"

theorem ssd_accounting_witness:
  "region_used (foldl (ssd_step ''long'' demo_lib) demo_region [SMetadata (1, 7) (''m'', ''c'', [0]) ''/f'' 3 ''long'' 1]) =
   dict_total esize (region_entries (foldl (ssd_step ''long'' demo_lib) demo_region
     [SMetadata (1, 7) (''m'', ''c'', [0]) ''/f'' 3 ''long'' 1]))"
proof -
  have "make_region 5 [] = Inr demo_region" by (simp add: make_region_def demo_region_def)
  from ssd_accounting [OF this refl] show ?thesis by blast
qed

text \<open>An overwrite does not make room: two puts of one key exceed the budget of a region that holds
  another block.\<close>

lemma overwrite_exceeds_budget:
  assumes "region_max_bytes r = 5" "region_used r = 4" "ent_size e = 2"
    "dict_get (region_entries r) k = Some e" "length v = 5"
    "write_block_file lib now rand IoOk (e\<lparr>ent_size := 5, ent_last_access := fst now, ent_metadata := meta\<rparr>) v = (dops, True)"
  shows "region_used (fst (put_plan ''long'' wrong full lib now rand IoOk r k v ''long'' meta)) = 7"
  using assms by (simp add: put_plan_def finish_put_def)

text \<open>A metadata insert larger than the whole region first evicts every entry and is then refused.\<close>

lemma oversize_metadata_flushes_region:
  assumes "region_wf r" and "sz > int (region_max_bytes r)" and "dict_get (region_entries r) k = None"
    and "validate_retention ret = Inr x"
  shows "fst (insert_metadata_only lib now r k path sz ret version) = Inr (False, Some ''region_full'') \<and>
    region_entries (snd (insert_metadata_only lib now r k path sz ret version)) = []"
proof -
  obtain vs r' ok where m: "make_room (nat sz) r = (vs, r', ok)" by (cases "make_room (nat sz) r")
  have "\<not> ok" "region_entries r' = []" using make_room_spec [OF assms(1) m] assms(2) by auto
  with m assms show ?thesis by (simp add: insert_metadata_only_def Let_def)
qed

text \<open>A read of a block the engine registered by metadata only finds no file and drops the entry.\<close>

lemma get_bytes_drops_registered_entry:
  assumes "dict_get (region_entries r) k = Some e" and "dict_get (region_disk r) (fst (paths_for lib e)) = None"
  shows "fst (get_bytes lib now r k) = None \<and> dict_get (region_entries (snd (get_bytes lib now r k))) k = None"
  using assms by (simp add: get_bytes_def forget_entry_def dict_get_del Let_def)

section \<open>Retention of a region\<close>

definition retention_typed :: "string \<Rightarrow> SsdRegion \<Rightarrow> bool" where
  "retention_typed kind r \<longleftrightarrow> (\<forall>e \<in> snd ` set (region_entries r). ent_retention e = kind)"

fun registers_metadata :: "ssd_op \<Rightarrow> bool" where
  "registers_metadata (SMetadata now k path sz ret version) = True"
| "registers_metadata _ = False"

lemma typed_put: "retention_typed kind r \<Longrightarrow> ent_retention e = kind \<Longrightarrow>
  retention_typed kind (r\<lparr>region_entries := dict_put k e (region_entries r)\<rparr>)"
  using set_dict_put [of k e "region_entries r"] by (fastforce simp: retention_typed_def)

lemma typed_del: "retention_typed kind r \<Longrightarrow> retention_typed kind (r\<lparr>region_entries := dict_del k (region_entries r)\<rparr>)"
  by (auto simp: retention_typed_def AList.delete_eq)

lemma typed_fields [simp]:
  "retention_typed kind (r\<lparr>region_used := u\<rparr>) = retention_typed kind r"
  "retention_typed kind (r\<lparr>region_disk := d\<rparr>) = retention_typed kind r"
  by (simp_all add: retention_typed_def)

lemma typed_forget: "retention_typed kind r \<Longrightarrow> retention_typed kind (forget_entry r k e)"
  by (simp add: forget_entry_def typed_del)

lemma typed_put_used: "retention_typed kind r \<Longrightarrow> ent_retention e = kind \<Longrightarrow>
  retention_typed kind (r\<lparr>region_entries := dict_put k e (region_entries r), region_used := u\<rparr>)"
  by (simp add: typed_put)

lemma typed_get: "retention_typed kind r \<Longrightarrow> dict_get (region_entries r) k = Some e \<Longrightarrow> ent_retention e = kind"
  by (force simp: retention_typed_def dest: map_of_SomeD)

lemma typed_make_room:
  "retention_typed kind r \<Longrightarrow> make_room sz r = (vs, r', ok) \<Longrightarrow> retention_typed kind r'"
proof (induction sz r arbitrary: vs rule: make_room.induct)
  case (1 sz r)
  show ?case
  proof (cases "\<exists>k e. region_used r + int sz > int (region_max_bytes r) \<and>
      pick_lru_victim (region_entries r) = Some k \<and> dict_get (region_entries r) k = Some e")
    case True
    then obtain k e where ke: "\<not> region_used r + int sz \<le> int (region_max_bytes r)"
      "pick_lru_victim (region_entries r) = Some k" "dict_get (region_entries r) k = Some e" by auto
    obtain ws where "make_room sz (forget_entry r k e) = (ws, r', ok)"
      using 1(3) ke by (auto simp: make_room.simps [of sz r] split: prod.splits)
    then show ?thesis by (rule 1(1) [OF ke typed_forget [OF 1(2)]])
  next
    case False
    then have "r' = r" using 1(3) by (auto simp: make_room.simps [of sz r] split: if_splits option.splits)
    then show ?thesis using 1(2) by simp
  qed
qed

lemma typed_finish_put:
  "retention_typed kind r \<Longrightarrow> retention_typed kind (fst (finish_put lib now rand io k e v r pre))"
  by (auto simp: finish_put_def Let_def typed_forget split: prod.split option.split)

lemma typed_put_plan:
  assumes "retention_typed kind r"
  shows "retention_typed kind (fst (put_plan kind wrong full lib now rand io r k v ret meta))"
proof (cases "ret \<noteq> kind \<or> length v > region_max_bytes r")
  case fits: False
  show ?thesis
  proof (cases "dict_get (region_entries r) k")
    case (Some old)
    then show ?thesis
      using fits typed_get [OF assms Some] assms
      by (auto simp: put_plan_def Let_def intro!: typed_finish_put typed_put_used)
  next
    case None
    obtain vs r' ok where m: "make_room (length v) r = (vs, r', ok)" by (cases "make_room (length v) r")
    with typed_make_room [OF assms m] fits None show ?thesis
      by (auto simp: put_plan_def Let_def intro!: typed_finish_put typed_put_used)
  qed
qed (use assms in \<open>auto simp: put_plan_def\<close>)

text \<open>
  C39. The regions are disjoint by retention: whatever is put, read, removed or rolled back, every
  entry of a region driven through its \<open>put\<close> has the one retention the region accepts.
\<close>

theorem region_holds_one_retention:
  assumes "make_region mx d = Inr r0" and "list_all (Not \<circ> registers_metadata) ops"
    and "(k, e) \<in> set (region_entries (foldl (ssd_step kind lib) r0 ops))"
  shows "ent_retention e = kind"
proof -
  have step: "retention_typed kind (ssd_step kind lib r op)"
    if "retention_typed kind r" "\<not> registers_metadata op" for r op
  proof (cases op)
    case (SGet now k)
    show ?thesis
    proof (cases "dict_get (region_entries r) k")
      case (Some e)
      then show ?thesis
        using SGet that(1) typed_get [OF that(1) Some]
        by (auto simp: get_bytes_def Let_def intro!: typed_forget typed_put split: option.split)
    qed (use SGet that in \<open>simp add: get_bytes_def\<close>)
  next
    case (SRemove k)
    then show ?thesis
      using that(1) by (auto simp: region_remove_def intro!: typed_forget split: option.split)
  next
    case (SPut now rand io k v ret meta)
    then show ?thesis using that(1) typed_put_plan [OF that(1)] by (simp add: region_put_snd Let_def)
  next
    case SClear
    then show ?thesis by (simp add: region_clear_def retention_typed_def)
  qed (use that(2) in simp)
  have "retention_typed kind r \<Longrightarrow> retention_typed kind (foldl (ssd_step kind lib) r ops)" for r
    using assms(2) step by (induction ops arbitrary: r) auto
  moreover have "retention_typed kind r0"
    using assms(1) by (auto simp: make_region_def retention_typed_def split: if_splits)
  ultimately have "retention_typed kind (foldl (ssd_step kind lib) r0 ops)" by blast
  with assms(3) show ?thesis by (force simp: retention_typed_def)
qed

text \<open>A put into the empty region of the example.\<close>

abbreviation demo_put :: ssd_op where
  "demo_put \<equiv> SPut (1, 7) ''r'' IoOk (''m'', ''c'', [0]) [8, 9] ''long'' (UserMeta [])"

lemma demo_put_entries:
  "region_entries (foldl (ssd_step ''long'' demo_lib) demo_region [demo_put]) =
   [((''m'', ''c'', [0]), new_entry (1, 7) (''m'', ''c'', [0]) 2 ''long'' (UserMeta []))]"
proof -
  have w: "snd (write_block_file demo_lib (1, 7) ''r'' IoOk e v)" for e v
    by (simp add: write_block_file_def encode_sidecar_def demo_lib_def Let_def
        SIDECAR_TOTAL_BYTES_def SIDECAR_HEADER_LEN_BYTES_def split: prod.split)
  have "make_room 2 demo_region = ([], demo_region, True)"
    by (simp add: make_room.simps demo_region_def)
  with w show ?thesis
    by (simp add: region_put_snd validate_retention_def Let_def put_plan_def finish_put_def demo_region_def
        case_prod_beta numeral_2_eq_2)
qed

theorem region_holds_one_retention_witness:
  "ent_retention (new_entry (1, 7) (''m'', ''c'', [0]) 2 ''long'' (UserMeta [])) = ''long''"
proof (rule region_holds_one_retention)
  show "make_region 5 [] = Inr demo_region" by (simp add: make_region_def demo_region_def)
  show "list_all (Not \<circ> registers_metadata) [demo_put]" by simp
  show "((''m'', ''c'', [0]), new_entry (1, 7) (''m'', ''c'', [0]) 2 ''long'' (UserMeta [])) \<in>
    set (region_entries (foldl (ssd_step ''long'' demo_lib) demo_region [demo_put]))"
    unfolding demo_put_entries by simp
qed

end
