(* ===== verification/Ssd_Recovery.thy ===== *)
theory Ssd_Recovery
  imports Ssd
begin

text \<open>
  Crash safety of the long region: what the recovery scan of \<open>LongStorageRegion.start\<close> rebuilds
  from the files a put leaves behind, at every point where the process can stop. The digest is
  assumed to be lower-case hexadecimal of at least four characters and the JSON codec to decode
  the sidecars that were written.
\<close>

declare split_paired_Ex [simp del] split_paired_All [simp del]

section \<open>Paths of blocks\<close>

fun key_composite :: "identity \<Rightarrow> string" where
  "key_composite (m, ck, key) = encode_composite m ck key"

abbreviation fname :: "identity \<Rightarrow> string" where
  "fname k \<equiv> filename_for_composite (key_composite k)"

definition data_path :: "ssd_lib \<Rightarrow> identity \<Rightarrow> ssd_path" where
  "data_path lib k = fst (paths_for_composite (hexdigest lib) (key_composite k))"

definition meta_path :: "ssd_lib \<Rightarrow> identity \<Rightarrow> ssd_path" where
  "meta_path lib k = snd (paths_for_composite (hexdigest lib) (key_composite k))"

lemma paths_for_identity: "paths_for lib e = (data_path lib (ent_identity e), meta_path lib (ent_identity e))"
  by (simp add: paths_for_def data_path_def meta_path_def ent_identity_def ent_composite_def)

text \<open>The identities whose files the scan can tell apart: no separator in the names, and no
  \<open>.tmp.\<close> in the file names.\<close>

definition names_ok :: "identity \<Rightarrow> bool" where
  "names_ok k \<longleftrightarrow> CHR ''|'' \<notin> set (fst k) \<and> CHR ''|'' \<notin> set (fst (snd k)) \<and>
     \<not> contains_tmp (fname k @ DATA_EXT) \<and> \<not> contains_tmp (fname k @ METADATA_EXT)"

definition lib_ok :: "ssd_lib \<Rightarrow> bool" where
  "lib_ok lib \<longleftrightarrow> (\<forall>s. 4 \<le> length (hexdigest lib s) \<and> is_lower_hex (hexdigest lib s))"

lemma composite_inj: "names_ok k \<Longrightarrow> names_ok k' \<Longrightarrow> fname k = fname k' \<Longrightarrow> k = k'"
proof -
  assume ok: "names_ok k" "names_ok k'" and eq: "fname k = fname k'"
  obtain m c b where k: "k = (m, c, b)" by (cases k)
  obtain m' c' b' where k': "k' = (m', c', b')" by (cases k')
  have "encode_composite m c b = encode_composite m' c' b'"
    using quote_inj [OF eq [unfolded filename_for_composite_def]] by (simp add: k k')
  from encode_composite_inj [OF this] ok show "k = k'" by (simp add: k k' names_ok_def)
qed

lemma data_path_inj: "data_path lib k = data_path lib k' \<Longrightarrow> names_ok k \<Longrightarrow> names_ok k' \<Longrightarrow> k = k'"
  using composite_inj [of k k'] by (simp add: data_path_def paths_for_composite_def Let_def)

lemma meta_path_inj: "meta_path lib k = meta_path lib k' \<Longrightarrow> names_ok k \<Longrightarrow> names_ok k' \<Longrightarrow> k = k'"
  using composite_inj [of k k'] by (simp add: meta_path_def paths_for_composite_def Let_def)

lemma ext_last: "last (n @ DATA_EXT) = CHR ''e''" "last (n @ METADATA_EXT) = CHR ''a''"
  by (simp_all add: DATA_EXT_def METADATA_EXT_def)

lemma ext_neq: "n @ DATA_EXT \<noteq> n' @ METADATA_EXT" "n' @ METADATA_EXT \<noteq> n @ DATA_EXT"
proof -
  show "n @ DATA_EXT \<noteq> n' @ METADATA_EXT"
  proof
    assume "n @ DATA_EXT = n' @ METADATA_EXT"
    then have "last (n @ DATA_EXT) = last (n' @ METADATA_EXT)" by (rule arg_cong)
    then show False by (simp add: ext_last)
  qed
  then show "n' @ METADATA_EXT \<noteq> n @ DATA_EXT" by (rule not_sym)
qed

lemma data_meta_path: "data_path lib k \<noteq> meta_path lib k'"
  by (simp add: data_path_def meta_path_def paths_for_composite_def Let_def ext_neq)

lemmas path_neq = data_meta_path data_meta_path [symmetric]

lemma contains_tmp_infix: "contains_tmp (n @ ''.tmp.'' @ r)"
  unfolding contains_tmp_def by (rule bexI [of _ "length n"]) simp_all

lemma tmp_path_contains: "contains_tmp (snd (snd (tmp_path p rand)))"
  by (cases p) (simp del: append.simps append_assoc add: contains_tmp_infix)

lemma block_paths_not_tmp:
  "names_ok k \<Longrightarrow> \<not> contains_tmp (snd (snd (data_path lib k)))"
  "names_ok k \<Longrightarrow> \<not> contains_tmp (snd (snd (meta_path lib k)))"
  by (simp_all add: names_ok_def data_path_def meta_path_def paths_for_composite_def Let_def)

lemma tmp_neq:
  assumes "names_ok k"
  shows "tmp_path p rand \<noteq> data_path lib k" "tmp_path p rand \<noteq> meta_path lib k"
    "data_path lib k \<noteq> tmp_path p rand" "meta_path lib k \<noteq> tmp_path p rand"
  using block_paths_not_tmp [OF assms] tmp_path_contains [of p rand] by metis+

section \<open>What a disk holds of a block\<close>

lemma check_pair_clock: "check_pair lib now stem b v = None \<longleftrightarrow> check_pair lib now' stem b v = None"
  by (auto simp: check_pair_def split: sum.splits prod.splits if_splits)

definition check_ok :: "ssd_lib \<Rightarrow> identity \<Rightarrow> byte list \<Rightarrow> byte list \<Rightarrow> bool" where
  "check_ok lib k b v \<longleftrightarrow> check_pair lib (0, 0) (fname k) b v \<noteq> None"

definition disk_lookup :: "ssd_lib \<Rightarrow> disk \<Rightarrow> identity \<Rightarrow> byte list option" where
  "disk_lookup lib d k =
     (case dict_get d (data_path lib k) of
        None \<Rightarrow> None
      | Some v \<Rightarrow> (case dict_get d (meta_path lib k) of
                     None \<Rightarrow> None | Some b \<Rightarrow> if check_ok lib k b v then Some v else None))"

lemma decode_fname:
  "names_ok k \<Longrightarrow> decode_composite (unquote (fname k)) = Inr k"
  by (cases k) (simp add: names_ok_def filename_for_composite_def unquote_quote composite_decode)

lemma check_pair_identity:
  "names_ok k \<Longrightarrow> check_pair lib now (fname k) b v = Some e \<Longrightarrow> ent_identity e = k"
  by (auto simp: check_pair_def decode_fname ent_identity_def split: sum.splits prod.splits if_splits)

definition region_lookup :: "ssd_lib \<Rightarrow> SsdRegion \<Rightarrow> identity \<Rightarrow> byte list option" where
  "region_lookup lib r k =
     (case dict_get (region_entries r) k of
        None \<Rightarrow> None | Some e \<Rightarrow> dict_get (region_disk r) (fst (paths_for lib e)))"

text \<open>Every file on disk belongs to a block with proper names, or is a temporary file.\<close>

definition disk_wf :: "ssd_lib \<Rightarrow> disk \<Rightarrow> bool" where
  "disk_wf lib d \<longleftrightarrow> dict_wf d \<and>
     (\<forall>p \<in> fst ` set d. (\<exists>k. names_ok k \<and> (p = data_path lib k \<or> p = meta_path lib k)) \<or>
        contains_tmp (snd (snd p)))"

section \<open>The recovery scan\<close>

lemma ends_with_append: "ends_with suf n \<longleftrightarrow> (\<exists>s. n = s @ suf)"
proof
  assume "ends_with suf n"
  then have "n = take (length n - length suf) n @ suf" by (metis append_take_drop_id ends_with_def)
  then show "\<exists>s. n = s @ suf" by blast
qed (auto simp: ends_with_def)

lemma strip_append [simp]: "strip_suffix suf (s @ suf) = s"
  by (simp add: strip_suffix_def)

lemma meta_stems_iff:
  "(stem, b) \<in> set (meta_stems files) \<longleftrightarrow>
   (stem @ METADATA_EXT, b) \<in> set files \<and> \<not> contains_tmp (stem @ METADATA_EXT)"
  by (force simp: meta_stems_def ends_with_append)

lemma data_stems_iff:
  "(stem, b) \<in> set (data_stems files) \<longleftrightarrow>
   (stem @ DATA_EXT, b) \<in> set files \<and> \<not> contains_tmp (stem @ DATA_EXT)"
proof -
  have "\<not> ends_with METADATA_EXT (stem @ DATA_EXT)" for stem
    by (simp add: ends_with_append ext_neq)
  note nm = this
  have "(stem, b) \<in> set (data_stems files) \<longleftrightarrow>
    (\<exists>n. (n, b) \<in> set files \<and> \<not> contains_tmp n \<and> \<not> ends_with METADATA_EXT n \<and> ends_with DATA_EXT n \<and>
      stem = strip_suffix DATA_EXT n)"
    by (auto simp: data_stems_def image_iff)
  also have "\<dots> \<longleftrightarrow> (stem @ DATA_EXT, b) \<in> set files \<and> \<not> contains_tmp (stem @ DATA_EXT)"
    unfolding ends_with_append [of DATA_EXT] using nm by auto
  finally show ?thesis .
qed

lemma leaf_files_iff: "(n, b) \<in> set (leaf_files d s l) \<longleftrightarrow> ((s, l, n), b) \<in> set d"
  by (induction d) (auto simp: leaf_files_def)

lemma leaf_dirs_iff: "(s, l) \<in> set (leaf_dirs d) \<longleftrightarrow> is_shard s \<and> is_shard l \<and> (\<exists>n b. ((s, l, n), b) \<in> set d)"
proof -
  have "(s, l) \<in> set (map (\<lambda>((s, l, _), _). (s, l)) d) \<longleftrightarrow> (\<exists>n b. ((s, l, n), b) \<in> set d)"
    by (induction d) auto
  then show ?thesis by (auto simp: leaf_dirs_def)
qed

lemma stems_wf:
  assumes "dict_wf d"
  shows "dict_wf (data_stems (leaf_files d s l))" "dict_wf (meta_stems (leaf_files d s l))"
proof -
  have "distinct (map fst (leaf_files d s l))"
    using assms by (induction d) (force simp: leaf_files_def)+
  then have f: "distinct (map fst (filter P (leaf_files d s l)))" for P
    by (simp add: distinct_map_filter)
  have inj: "inj_on (strip_suffix suf) {n. ends_with suf n}" for suf
    by (auto simp: inj_on_def ends_with_append)
  have *: "distinct (map fst (map (\<lambda>(n, b). (strip_suffix suf n, b)) fs))"
    if "distinct (map fst fs)" "\<forall>x \<in> set fs. ends_with suf (fst x)" for suf and fs :: "(string \<times> byte list) list"
  proof -
    have "map fst (map (\<lambda>(n, b). (strip_suffix suf n, b)) fs) = map (strip_suffix suf) (map fst fs)" by auto
    moreover have "inj_on (strip_suffix suf) (set (map fst fs))"
      by (rule inj_on_subset [OF inj]) (use that(2) in auto)
    ultimately show ?thesis using that(1) by (simp only: distinct_map)
  qed
  show "dict_wf (data_stems (leaf_files d s l))" unfolding data_stems_def by (rule *) (use f in auto)
  show "dict_wf (meta_stems (leaf_files d s l))" unfolding meta_stems_def by (rule *) (use f in auto)
qed
definition dir1 :: "ssd_lib \<Rightarrow> identity \<Rightarrow> string" where
  "dir1 lib k = take 2 (hexdigest lib (key_composite k))"

definition dir2 :: "ssd_lib \<Rightarrow> identity \<Rightarrow> string" where
  "dir2 lib k = take 2 (drop 2 (hexdigest lib (key_composite k)))"

lemma path_eqs:
  "data_path lib k = (dir1 lib k, dir2 lib k, fname k @ DATA_EXT)"
  "meta_path lib k = (dir1 lib k, dir2 lib k, fname k @ METADATA_EXT)"
  by (simp_all add: data_path_def meta_path_def paths_for_composite_def Let_def dir1_def dir2_def)

lemma shards_ok: "lib_ok lib \<Longrightarrow> is_shard (dir1 lib k) \<and> is_shard (dir2 lib k)"
proof -
  assume "lib_ok lib"
  then have h: "4 \<le> length (hexdigest lib (key_composite k))" "is_lower_hex (hexdigest lib (key_composite k))"
    by (auto simp: lib_ok_def)
  then have "list_all (\<lambda>c. c \<in> set ''0123456789abcdef'') (take 2 (hexdigest lib (key_composite k)))"
    "list_all (\<lambda>c. c \<in> set ''0123456789abcdef'') (take 2 (drop 2 (hexdigest lib (key_composite k))))"
    unfolding is_lower_hex_def list_all_iff by (meson in_set_takeD in_set_dropD)+
  moreover have "take 2 (hexdigest lib (key_composite k)) \<noteq> []"
    "take 2 (drop 2 (hexdigest lib (key_composite k))) \<noteq> []" using h(1) by auto
  ultimately show ?thesis using h(1) by (auto simp: is_shard_def is_lower_hex_def dir1_def dir2_def)
qed

lemma scan_found:
  "e \<in> set (fst (scan_leaf_dir lib now files)) \<longleftrightarrow>
   (\<exists>stem b v. (stem, b) \<in> set (meta_stems files) \<and> dict_get (data_stems files) stem = Some v \<and>
      check_pair lib now stem b v = Some e)"
  by (force simp: scan_leaf_dir_def Let_def List.map_filter_def found_entry_def split: option.splits)

lemma recover_in_leaf:
  "e \<in> set (fst (recover_from_sidecars lib now d)) \<longleftrightarrow>
   (\<exists>s l. (s, l) \<in> set (leaf_dirs d) \<and> e \<in> set (fst (scan_leaf_dir lib now (leaf_files d s l))))"
proof -
  have "e \<in> set (concat (map f xs)) \<longleftrightarrow> (\<exists>s l. (s, l) \<in> set xs \<and> e \<in> set (f (s, l)))"
    for f :: "string \<times> string \<Rightarrow> SsdEntry list" and xs
    by (induction xs) auto
  note cm = this
  have "fst (scan_metadata_dir lib now d (s, l)) = fst (scan_leaf_dir lib now (leaf_files d s l))" for s l
    by (simp add: scan_metadata_dir_def case_prod_beta)
  then show ?thesis
    by (simp only: recover_from_sidecars_def Let_def fst_conv map_map cm comp_apply)
qed

text \<open>The stem of a file that is not temporary is the file name of a block of that directory.\<close>

lemma stem_owner:
  assumes "disk_wf lib d" and "((s, l, stem @ METADATA_EXT), b) \<in> set d" and "\<not> contains_tmp (stem @ METADATA_EXT)"
  shows "\<exists>k. names_ok k \<and> stem = fname k \<and> s = dir1 lib k \<and> l = dir2 lib k"
proof -
  have "(s, l, stem @ METADATA_EXT) \<in> fst ` set d" using assms(2) by force
  then have "(\<exists>k. names_ok k \<and> ((s, l, stem @ METADATA_EXT) = data_path lib k \<or> (s, l, stem @ METADATA_EXT) = meta_path lib k)) \<or>
      contains_tmp (snd (snd (s, l, stem @ METADATA_EXT)))"
    using assms(1) unfolding disk_wf_def by blast
  then obtain k where k: "names_ok k" "(s, l, stem @ METADATA_EXT) = data_path lib k \<or> (s, l, stem @ METADATA_EXT) = meta_path lib k"
    using assms(3) by (simp only: snd_conv) blast
  from k(2) have "stem = fname k \<and> s = dir1 lib k \<and> l = dir2 lib k"
    using ext_neq [of "fname k" stem] by (simp add: path_eqs)
  with k(1) show ?thesis by blast
qed

lemma stem_owner_data:
  assumes "disk_wf lib d" and "((s, l, stem @ DATA_EXT), b) \<in> set d" and "\<not> contains_tmp (stem @ DATA_EXT)"
  shows "\<exists>k. names_ok k \<and> stem = fname k \<and> s = dir1 lib k \<and> l = dir2 lib k"
proof -
  have "(s, l, stem @ DATA_EXT) \<in> fst ` set d" using assms(2) by force
  then have "(\<exists>k. names_ok k \<and> ((s, l, stem @ DATA_EXT) = data_path lib k \<or> (s, l, stem @ DATA_EXT) = meta_path lib k)) \<or>
      contains_tmp (snd (snd (s, l, stem @ DATA_EXT)))"
    using assms(1) unfolding disk_wf_def by blast
  then obtain k where k: "names_ok k" "(s, l, stem @ DATA_EXT) = data_path lib k \<or> (s, l, stem @ DATA_EXT) = meta_path lib k"
    using assms(3) by (simp only: snd_conv) blast
  from k(2) have "stem = fname k \<and> s = dir1 lib k \<and> l = dir2 lib k"
    using ext_neq [of stem "fname k"] by (simp add: path_eqs)
  with k(1) show ?thesis by blast
qed

lemma leaf_stems:
  assumes "dict_wf d" and "names_ok k"
  shows "dict_get (data_stems (leaf_files d (dir1 lib k) (dir2 lib k))) (fname k) = dict_get d (data_path lib k)"
    and "dict_get (meta_stems (leaf_files d (dir1 lib k) (dir2 lib k))) (fname k) = dict_get d (meta_path lib k)"
proof -
  have "dict_get (data_stems (leaf_files d (dir1 lib k) (dir2 lib k))) (fname k) = Some v \<longleftrightarrow>
      dict_get d (data_path lib k) = Some v" for v
    using assms stems_wf [OF assms(1)]
    by (simp add: map_of_eq_Some_iff data_stems_iff leaf_files_iff path_eqs names_ok_def)
  then show "dict_get (data_stems (leaf_files d (dir1 lib k) (dir2 lib k))) (fname k) = dict_get d (data_path lib k)"
    by (metis not_Some_eq)
  have "dict_get (meta_stems (leaf_files d (dir1 lib k) (dir2 lib k))) (fname k) = Some v \<longleftrightarrow>
      dict_get d (meta_path lib k) = Some v" for v
    using assms stems_wf [OF assms(1)]
    by (simp add: map_of_eq_Some_iff meta_stems_iff leaf_files_iff path_eqs names_ok_def)
  then show "dict_get (meta_stems (leaf_files d (dir1 lib k) (dir2 lib k))) (fname k) = dict_get d (meta_path lib k)"
    by (metis not_Some_eq)
qed

text \<open>The scan recovers exactly the blocks whose two files are there and agree.\<close>

lemma recover_found:
  assumes "disk_wf lib d" and "lib_ok lib"
  shows "e \<in> set (fst (recover_from_sidecars lib now d)) \<longleftrightarrow>
    (\<exists>k v b. names_ok k \<and> dict_get d (data_path lib k) = Some v \<and> dict_get d (meta_path lib k) = Some b \<and>
       check_pair lib now (fname k) b v = Some e)"
proof
  have wf: "dict_wf d" using assms(1) by (simp add: disk_wf_def)
  assume "e \<in> set (fst (recover_from_sidecars lib now d))"
  then obtain s l stem b v where m: "(stem, b) \<in> set (meta_stems (leaf_files d s l))"
    and v: "dict_get (data_stems (leaf_files d s l)) stem = Some v" and c: "check_pair lib now stem b v = Some e"
    unfolding recover_in_leaf scan_found by blast
  then obtain k where k: "names_ok k" "stem = fname k" "s = dir1 lib k" "l = dir2 lib k"
    using stem_owner [OF assms(1), of s l stem b] m unfolding meta_stems_iff leaf_files_iff by blast
  have "dict_get (meta_stems (leaf_files d s l)) stem = Some b" using m stems_wf(2) [OF wf] by simp
  with k v c leaf_stems [OF wf k(1), of lib]
  show "\<exists>k v b. names_ok k \<and> dict_get d (data_path lib k) = Some v \<and> dict_get d (meta_path lib k) = Some b \<and>
       check_pair lib now (fname k) b v = Some e" by auto
next
  have wf: "dict_wf d" using assms(1) by (simp add: disk_wf_def)
  assume "\<exists>k v b. names_ok k \<and> dict_get d (data_path lib k) = Some v \<and> dict_get d (meta_path lib k) = Some b \<and>
       check_pair lib now (fname k) b v = Some e"
  then obtain k v b where k: "names_ok k" "dict_get d (data_path lib k) = Some v"
    "dict_get d (meta_path lib k) = Some b" "check_pair lib now (fname k) b v = Some e" by blast
  have "((dir1 lib k, dir2 lib k, fname k @ DATA_EXT), v) \<in> set d"
    using map_of_SomeD [OF k(2)] by (simp add: path_eqs)
  then have leaf: "(dir1 lib k, dir2 lib k) \<in> set (leaf_dirs d)"
    using shards_ok [OF assms(2), of k] by (auto simp: leaf_dirs_iff)
  have "(fname k, b) \<in> set (meta_stems (leaf_files d (dir1 lib k) (dir2 lib k)))"
    using map_of_SomeD [of _ "fname k" b] leaf_stems(2) [OF wf k(1), of lib] k(3) by simp
  then have "e \<in> set (fst (scan_leaf_dir lib now (leaf_files d (dir1 lib k) (dir2 lib k))))"
    unfolding scan_found using leaf_stems(1) [OF wf k(1), of lib] k(2,4) by auto
  with leaf show "e \<in> set (fst (recover_from_sidecars lib now d))" unfolding recover_in_leaf by blast
qed

section \<open>The region after a restart\<close>

lemma scan_unlinks:
  assumes "n \<in> set (snd (scan_leaf_dir lib now files))"
  shows "contains_tmp n \<or> (\<exists>stem. n = stem @ DATA_EXT \<and> dict_get (meta_stems files) stem = None) \<or>
    (\<exists>stem b. (stem, b) \<in> set (meta_stems files) \<and> n = stem @ METADATA_EXT) \<or>
    (\<exists>stem b v. (stem, b) \<in> set (meta_stems files) \<and> n = stem @ DATA_EXT \<and>
       dict_get (data_stems files) stem = Some v \<and> check_pair lib now stem b v = None)"
proof -
  have three: "n \<in> set a \<or> n \<in> set b \<or> (\<exists>x \<in> set xs. n \<in> set (f x))"
    if "n \<in> set (a @ b @ concat (map f xs))" for a b :: "string list" and f and xs :: "(string \<times> byte list) list"
    using that by auto
  have "n \<in> set (map fst (filter (\<lambda>(n, b). contains_tmp n) files)) \<or>
    n \<in> set (map (\<lambda>(stem, _). stem @ DATA_EXT) (filter (\<lambda>(stem, _). dict_get (meta_stems files) stem = None) (data_stems files))) \<or>
    (\<exists>x \<in> set (meta_stems files). n \<in> set (dropped_names lib now (data_stems files) x))"
    by (rule three [OF assms [unfolded scan_leaf_dir_def Let_def snd_conv]])
  then show ?thesis
  proof (elim disjE bexE)
    assume "n \<in> set (map fst (filter (\<lambda>(n, b). contains_tmp n) files))"
    then have "contains_tmp n" by auto
    then show ?thesis ..
  next
    assume "n \<in> set (map (\<lambda>(stem, _). stem @ DATA_EXT)
      (filter (\<lambda>(stem, _). dict_get (meta_stems files) stem = None) (data_stems files)))"
    then have "\<exists>stem. n = stem @ DATA_EXT \<and> dict_get (meta_stems files) stem = None" by auto
    then show ?thesis by blast
  next
    fix x
    assume a: "x \<in> set (meta_stems files)" "n \<in> set (dropped_names lib now (data_stems files) x)"
    obtain stem b where x: "x = (stem, b)" by (cases x)
    have "n = stem @ METADATA_EXT \<or>
      (\<exists>v. dict_get (data_stems files) stem = Some v \<and> check_pair lib now stem b v = None \<and> n = stem @ DATA_EXT)"
      using a(2) unfolding x dropped_names_def found_entry_def
      by (cases "dict_get (data_stems files) stem") (auto split: if_splits)
    with a(1) show ?thesis unfolding x by blast
  qed
qed

lemma run_unlinks:
  "\<forall>op \<in> set ops. \<exists>p. op = Unlink p \<Longrightarrow>
   dict_get (run_ops d ops) q = (if Unlink q \<in> set ops then None else dict_get d q)"
proof (induction ops arbitrary: d)
  case (Cons op ops)
  then obtain p where "op = Unlink p" by auto
  with Cons show ?case by (simp add: dict_get_del)
qed simp

lemma recover_ops:
  "op \<in> set (snd (recover_from_sidecars lib now d)) \<Longrightarrow>
   \<exists>s l n. op = Unlink (s, l, n) \<and> n \<in> set (snd (scan_leaf_dir lib now (leaf_files d s l)))"
proof -
  assume "op \<in> set (snd (recover_from_sidecars lib now d))"
  then obtain p where p: "op \<in> set (snd (scan_metadata_dir lib now d p))"
    unfolding recover_from_sidecars_def Let_def snd_conv set_concat set_map by blast
  obtain s l where "p = (s, l)" by (cases p)
  with p show ?thesis by (auto simp: scan_metadata_dir_def case_prod_beta)
qed

lemma recovered_file_kept:
  assumes "disk_wf lib d" and "names_ok k" and "disk_lookup lib d k = Some v"
  shows "Unlink (data_path lib k) \<notin> set (snd (recover_from_sidecars lib now d))"
proof
  have wf: "dict_wf d" using assms(1) by (simp add: disk_wf_def)
  let ?fs = "leaf_files d (dir1 lib k) (dir2 lib k)"
  obtain b where f: "dict_get d (data_path lib k) = Some v" "dict_get d (meta_path lib k) = Some b" "check_ok lib k b v"
    using assms(3) by (auto simp: disk_lookup_def split: option.splits if_splits)
  assume "Unlink (data_path lib k) \<in> set (snd (recover_from_sidecars lib now d))"
  from recover_ops [OF this] have "fname k @ DATA_EXT \<in> set (snd (scan_leaf_dir lib now ?fs))"
    by (auto simp: path_eqs)
  from scan_unlinks [OF this] show False
  proof (elim disjE exE conjE)
    assume "contains_tmp (fname k @ DATA_EXT)"
    then show False using assms(2) by (simp add: names_ok_def)
  next
    fix stem
    assume "fname k @ DATA_EXT = stem @ DATA_EXT" "dict_get (meta_stems ?fs) stem = None"
    then show False using leaf_stems(2) [OF wf assms(2), of lib] f(2) by simp
  next
    fix stem b'
    assume "fname k @ DATA_EXT = stem @ METADATA_EXT"
    then show False using ext_neq(1) by blast
  next
    fix stem b' v'
    assume a: "(stem, b') \<in> set (meta_stems ?fs)" "fname k @ DATA_EXT = stem @ DATA_EXT"
      "dict_get (data_stems ?fs) stem = Some v'" "check_pair lib now stem b' v' = None"
    have "dict_get (meta_stems ?fs) stem = Some b'" using a(1) stems_wf(2) [OF wf] by simp
    with a leaf_stems [OF wf assms(2), of lib] f have "check_pair lib now (fname k) b v = None" by simp
    then show False using f(3) check_pair_clock [of lib now "fname k" b v "(0, 0)"] by (simp add: check_ok_def)
  qed
qed

lemma fold_index_find:
  "dict_get (foldl (\<lambda>d e. dict_put (ent_identity e) e d) [] es) k = find (\<lambda>e. ent_identity e = k) (rev es)"
  by (induction es rule: rev_induct) (simp_all add: dict_get_put)

lemma fold_index:
  "dict_get (foldl (\<lambda>d e. dict_put (ent_identity e) e d) [] es) k = Some e \<Longrightarrow> e \<in> set es \<and> ent_identity e = k"
  "dict_get (foldl (\<lambda>d e. dict_put (ent_identity e) e d) [] es) k = None \<Longrightarrow> k \<notin> ent_identity ` set es"
proof -
  assume "dict_get (foldl (\<lambda>d e. dict_put (ent_identity e) e d) [] es) k = Some e"
  then obtain i where "i < length (rev es)" "ent_identity (rev es ! i) = k" "e = rev es ! i"
    unfolding fold_index_find find_Some_iff by blast
  then show "e \<in> set es \<and> ent_identity e = k" using nth_mem [of i "rev es"] by simp
next
  assume "dict_get (foldl (\<lambda>d e. dict_put (ent_identity e) e d) [] es) k = None"
  then show "k \<notin> ent_identity ` set es" unfolding fold_index_find find_None_iff by auto
qed

text \<open>A restart finds of a block what the disk holds of it.\<close>

lemma long_start_lookup:
  assumes "disk_wf lib (region_disk r)" and "lib_ok lib" and "names_ok k"
  shows "region_lookup lib (long_start lib now r) k = disk_lookup lib (region_disk r) k"
proof -
  let ?d = "region_disk r"
  obtain es ops where rec: "recover_from_sidecars lib now ?d = (es, ops)" by (cases "recover_from_sidecars lib now ?d")
  let ?idx = "foldl (\<lambda>d e. dict_put (ent_identity e) e d) [] es"
  have st: "region_entries (long_start lib now r) = ?idx" "region_disk (long_start lib now r) = run_ops ?d ops"
    by (simp_all add: long_start_def rec)
  have un: "\<forall>op \<in> set ops. \<exists>p. op = Unlink p" using recover_ops [of _ lib now ?d] rec by fastforce
  show ?thesis
  proof (cases "disk_lookup lib ?d k")
    case None
    have "dict_get ?idx k = None"
    proof (rule ccontr)
      assume "dict_get ?idx k \<noteq> None"
      then obtain e where "dict_get ?idx k = Some e" by blast
      from fold_index(1) [OF this] have "e \<in> set es" "ent_identity e = k" by blast+
      then obtain k' v b where k': "names_ok k'" "dict_get ?d (data_path lib k') = Some v"
        "dict_get ?d (meta_path lib k') = Some b" "check_pair lib now (fname k') b v = Some e"
        using recover_found [OF assms(1,2), of e now] rec by auto
      then have "k' = k" using check_pair_identity [OF k'(1,4)] \<open>ent_identity e = k\<close> by simp
      with k' check_pair_clock [of lib now "fname k" b v "(0, 0)"] None show False
        by (simp add: disk_lookup_def check_ok_def)
    qed
    then show ?thesis using None by (simp add: region_lookup_def st)
  next
    case (Some v)
    then obtain b where f: "dict_get ?d (data_path lib k) = Some v" "dict_get ?d (meta_path lib k) = Some b" "check_ok lib k b v"
      by (auto simp: disk_lookup_def split: option.splits if_splits)
    then obtain e where e: "check_pair lib now (fname k) b v = Some e"
      using check_pair_clock [of lib now "fname k" b v "(0, 0)"] by (auto simp: check_ok_def)
    then have "e \<in> set es" using recover_found [OF assms(1,2), of e now] rec f assms(3) by auto
    moreover have "ent_identity e = k" by (rule check_pair_identity [OF assms(3) e])
    ultimately have "dict_get ?idx k \<noteq> None" using fold_index(2) [of es k] by blast
    then obtain e' where e': "dict_get ?idx k = Some e'" by blast
    then have "ent_identity e' = k" using fold_index(1) by blast
    moreover have "dict_get (run_ops ?d ops) (data_path lib k) = Some v"
      using recovered_file_kept [OF assms(1,3) Some, of now] rec f(1) by (simp add: run_unlinks [OF un])
    ultimately show ?thesis using Some e' by (simp add: region_lookup_def st paths_for_identity)
  qed
qed

section \<open>Files of one block\<close>

fun op_targets :: "disk_op \<Rightarrow> ssd_path set" where
  "op_targets (WriteFile p b) = {p}"
| "op_targets (Replace p q) = {p, q}"
| "op_targets (Unlink p) = {p}"

lemma apply_op_frame: "q \<notin> op_targets op \<Longrightarrow> dict_get (apply_op d op) q = dict_get d q"
  by (cases op) (auto simp: dict_get_put dict_get_del split: option.split)

lemma run_ops_frame: "\<forall>op \<in> set ops. q \<notin> op_targets op \<Longrightarrow> dict_get (run_ops d ops) q = dict_get d q"
  by (induction ops arbitrary: d) (simp_all add: apply_op_frame)

lemma lookup_frame:
  "dict_get d' (data_path lib k) = dict_get d (data_path lib k) \<Longrightarrow>
   dict_get d' (meta_path lib k) = dict_get d (meta_path lib k) \<Longrightarrow> disk_lookup lib d' k = disk_lookup lib d k"
  by (simp only: disk_lookup_def)

text \<open>The paths an operation on behalf of a block may touch.\<close>

definition own_path :: "ssd_lib \<Rightarrow> identity \<Rightarrow> ssd_path \<Rightarrow> bool" where
  "own_path lib k p \<longleftrightarrow> p = data_path lib k \<or> p = meta_path lib k \<or> contains_tmp (snd (snd p))"

lemma own_path_other:
  assumes "own_path lib k p" "names_ok k" "names_ok k'" "k' \<noteq> k"
  shows "p \<noteq> data_path lib k'" "p \<noteq> meta_path lib k'"
  using assms data_path_inj [of lib k' k] meta_path_inj [of lib k' k] block_paths_not_tmp [OF assms(3)]
    path_neq unfolding own_path_def by metis+

lemma own_ops_lookup:
  assumes "\<forall>op \<in> set ops. \<forall>p \<in> op_targets op. own_path lib k p" "names_ok k" "names_ok k'" "k' \<noteq> k"
  shows "disk_lookup lib (run_ops d ops) k' = disk_lookup lib d k'"
  by (intro lookup_frame run_ops_frame) (use assms own_path_other in blast)+

lemma disk_wf_apply:
  assumes "disk_wf lib d" and "\<forall>p \<in> op_targets op. own_path lib k p" "names_ok k"
  shows "disk_wf lib (apply_op d op)"
proof -
  have keys: "fst ` set (apply_op d op) \<subseteq> fst ` set d \<union> op_targets op"
    by (cases op) (auto simp: dom_update delete_keys AList.delete_eq split: option.splits
        dest!: subsetD [OF set_dict_put])
  have "dict_wf (apply_op d op)"
    using assms(1) by (cases op) (auto simp: disk_wf_def dict_wf_put dict_wf_del split: option.split)
  moreover have "(\<exists>k. names_ok k \<and> (p = data_path lib k \<or> p = meta_path lib k)) \<or> contains_tmp (snd (snd p))"
    if "p \<in> fst ` set (apply_op d op)" for p
  proof (cases "p \<in> fst ` set d")
    case True
    then show ?thesis using assms(1) unfolding disk_wf_def by blast
  next
    case False
    then have "own_path lib k p" using that keys assms(2) by blast
    then show ?thesis using assms(3) unfolding own_path_def by blast
  qed
  ultimately show ?thesis unfolding disk_wf_def by blast
qed

lemma disk_wf_run:
  "disk_wf lib d \<Longrightarrow> \<forall>op \<in> set ops. \<exists>k. names_ok k \<and> (\<forall>p \<in> op_targets op. own_path lib k p) \<Longrightarrow>
   disk_wf lib (run_ops d ops)"
  by (induction ops arbitrary: d) (auto intro: disk_wf_apply)

text \<open>The operations of a write, in order, and what each prefix of them leaves of the block.\<close>

lemma write_ops_cases:
  assumes "write_block_file lib now rand io e v = (ops, ok)" and "ent_identity e = k"
  shows "\<exists>td tm tail. contains_tmp (snd (snd td)) \<and> contains_tmp (snd (snd tm)) \<and>
    (ops = [WriteFile td v, Unlink td] \<or> ops = [WriteFile td v, Replace td (data_path lib k)] @ tail \<and>
      (tail = [] \<or> (\<exists>b. tail = [WriteFile tm b, Unlink tm] \<or> tail = [WriteFile tm b, Replace tm (meta_path lib k)])))"
proof -
  let ?td = "tmp_path (data_path lib k) rand" and ?tm = "tmp_path (meta_path lib k) rand"
  have "ops = [WriteFile ?td v, Unlink ?td] \<or> (\<exists>tail. ops = [WriteFile ?td v, Replace ?td (data_path lib k)] @ tail \<and>
      (tail = [] \<or> (\<exists>b. tail = [WriteFile ?tm b, Unlink ?tm] \<or> tail = [WriteFile ?tm b, Replace ?tm (meta_path lib k)])))"
    using assms by (auto simp: write_block_file_def paths_for_identity Let_def split: sum.splits if_splits)
  moreover have "contains_tmp (snd (snd ?td))" "contains_tmp (snd (snd ?tm))" by (rule tmp_path_contains)+
  ultimately show ?thesis by blast
qed

lemma write_ops_own:
  assumes "write_block_file lib now rand io e v = (ops, ok)" and "op \<in> set ops" and "p \<in> op_targets op"
  shows "own_path lib (ent_identity e) p"
proof -
  let ?k = "ent_identity e"
  from write_ops_cases [OF assms(1) refl] obtain td tm tail
    where t: "own_path lib ?k td" "own_path lib ?k tm" and ops: "ops = [WriteFile td v, Unlink td] \<or>
      ops = [WriteFile td v, Replace td (data_path lib ?k)] @ tail \<and>
      (tail = [] \<or> (\<exists>b. tail = [WriteFile tm b, Unlink tm] \<or> tail = [WriteFile tm b, Replace tm (meta_path lib ?k)]))"
    unfolding own_path_def by blast
  have "own_path lib ?k (data_path lib ?k)" "own_path lib ?k (meta_path lib ?k)" by (simp_all add: own_path_def)
  with t ops assms(2,3) show ?thesis by (elim disjE conjE exE) auto
qed

text \<open>The data file is the old one as long as the sidecar is, and the new one afterwards.\<close>

lemma write_prefix_data:
  assumes "write_block_file lib now rand io e v = (ops, ok)" and "ent_identity e = k" and "names_ok k"
  shows "dict_get (run_ops d (take j ops)) (data_path lib k) = dict_get d (data_path lib k) \<and>
      dict_get (run_ops d (take j ops)) (meta_path lib k) = dict_get d (meta_path lib k) \<or>
    dict_get (run_ops d (take j ops)) (data_path lib k) = Some v"
proof -
  from write_ops_cases [OF assms(1,2)] obtain td tm tail
    where t: "contains_tmp (snd (snd td))" "contains_tmp (snd (snd tm))" and ops: "ops = [WriteFile td v, Unlink td] \<or>
      ops = [WriteFile td v, Replace td (data_path lib k)] @ tail \<and>
      (tail = [] \<or> (\<exists>b. tail = [WriteFile tm b, Unlink tm] \<or> tail = [WriteFile tm b, Replace tm (meta_path lib k)]))"
    by blast
  have ne: "td \<noteq> data_path lib k" "td \<noteq> meta_path lib k" "tm \<noteq> data_path lib k" "data_path lib k \<noteq> meta_path lib k"
    using t block_paths_not_tmp [OF assms(3)] path_neq by metis+
  have keep: "dict_get (run_ops d' (take i tail)) (data_path lib k) = dict_get d' (data_path lib k)"
    if "tail = [] \<or> (\<exists>b. tail = [WriteFile tm b, Unlink tm] \<or> tail = [WriteFile tm b, Replace tm (meta_path lib k)])" for d' i
    by (rule run_ops_frame) (use that ne in \<open>auto dest!: in_set_takeD\<close>)
  from ops show ?thesis
  proof
    assume o: "ops = [WriteFile td v, Unlink td]"
    have "\<forall>op \<in> set (take j ops). data_path lib k \<notin> op_targets op \<and> meta_path lib k \<notin> op_targets op"
      using ne o by (auto dest!: in_set_takeD)
    then show ?thesis by (simp add: run_ops_frame)
  next
    assume "ops = [WriteFile td v, Replace td (data_path lib k)] @ tail \<and>
      (tail = [] \<or> (\<exists>b. tail = [WriteFile tm b, Unlink tm] \<or> tail = [WriteFile tm b, Replace tm (meta_path lib k)]))"
    then have o: "ops = [WriteFile td v, Replace td (data_path lib k)] @ tail"
      and tl: "tail = [] \<or> (\<exists>b. tail = [WriteFile tm b, Unlink tm] \<or> tail = [WriteFile tm b, Replace tm (meta_path lib k)])"
      by blast+
    consider "j = 0" | "j = 1" | i where "j = i + 2" by (metis One_nat_def add_2_eq_Suc' not0_implies_Suc)
    then show ?thesis
    proof cases
      case 3
      then have "take j ops = [WriteFile td v, Replace td (data_path lib k)] @ take i tail" by (simp add: o)
      then show ?thesis using keep [OF tl, of _ i] ne by (simp add: dict_get_put dict_get_del)
    qed (use o ne in \<open>simp_all add: dict_get_put\<close>)
  qed
qed

lemma write_prefix_lookup:
  assumes "write_block_file lib now rand io e v = (ops, ok)" and "ent_identity e = k" and "names_ok k"
  shows "disk_lookup lib (run_ops d (take j ops)) k \<in> {disk_lookup lib d k, Some v, None}"
  using write_prefix_data [OF assms, of d j]
proof
  assume "dict_get (run_ops d (take j ops)) (data_path lib k) = dict_get d (data_path lib k) \<and>
      dict_get (run_ops d (take j ops)) (meta_path lib k) = dict_get d (meta_path lib k)"
  then show ?thesis using lookup_frame [of "run_ops d (take j ops)" lib k d] by blast
next
  assume "dict_get (run_ops d (take j ops)) (data_path lib k) = Some v"
  then show ?thesis by (auto simp: disk_lookup_def split: option.split)
qed

lemma write_done_lookup:
  assumes "write_block_file lib now rand io e v = (ops, True)" and "ent_identity e = k" and "names_ok k"
    and "ent_size e = length v"
    and "json_loads lib (json_dumps lib (sidecar_of lib now e v)) = Some (sidecar_of lib now e v)"
  shows "disk_lookup lib (run_ops d ops) k = Some v"
proof -
  obtain blob where b: "encode_sidecar lib (sidecar_of lib now e v) = Inr blob"
    and ops: "ops = [WriteFile (tmp_path (data_path lib k) rand) v, Replace (tmp_path (data_path lib k) rand) (data_path lib k),
      WriteFile (tmp_path (meta_path lib k) rand) blob, Replace (tmp_path (meta_path lib k) rand) (meta_path lib k)]"
    using assms(1,2) by (auto simp: write_block_file_def paths_for_identity Let_def split: sum.splits if_splits)
  have "decode_sidecar lib blob = Inr (sidecar_of lib now e v)" by (rule sidecar_round_trip [OF assms(5) b])
  then have "check_ok lib k blob v"
    using assms(2,4) decode_fname [OF assms(3)]
    by (auto simp: check_ok_def check_pair_def sidecar_of_def ent_identity_def)
  then show ?thesis
    using tmp_neq [OF assms(3)] path_neq by (simp add: ops disk_lookup_def dict_get_put dict_get_del)
qed

section \<open>Puts\<close>

text \<open>The entry a put writes.\<close>

definition written_entry :: "SsdRegion \<Rightarrow> clock \<Rightarrow> identity \<Rightarrow> byte list \<Rightarrow> string \<Rightarrow> entry_meta \<Rightarrow> SsdEntry" where
  "written_entry r now k v ret meta =
     (case dict_get (region_entries r) k of
        Some old \<Rightarrow> old\<lparr>ent_size := length v, ent_last_access := fst now, ent_metadata := meta\<rparr>
      | None \<Rightarrow> new_entry now k (length v) ret meta)"

definition evict_ops :: "ssd_lib \<Rightarrow> SsdEntry list \<Rightarrow> disk_op list" where
  "evict_ops lib vs = concat (map (delete_block_files lib) vs)"

lemma finish_put_shape:
  assumes "finish_put lib now rand io k e v r pre = (r1, dops, accepted, reason)"
  shows "\<exists>W. dops = pre @ W \<and> write_block_file lib now rand io e v = (W, accepted) \<and>
    (\<forall>k'. k' \<noteq> k \<longrightarrow> dict_get (region_entries r1) k' = dict_get (region_entries r) k') \<and>
    (dict_get (region_entries r1) k = (if accepted then dict_get (region_entries r) k else None))"
  using assms
  by (auto simp: finish_put_def Let_def forget_entry_def dict_get_del split: prod.splits option.splits if_splits)

lemma put_plan_shape:
  assumes "region_wf r" and "put_plan kind wrong full lib now rand io r k v ret meta = (r1, dops, accepted, reason)"
  shows "\<exists>vs W. dops = evict_ops lib vs @ W \<and>
    (\<forall>e \<in> set vs. dict_get (region_entries r) (ent_identity e) = Some e \<and> ent_identity e \<noteq> k) \<and>
    (\<forall>k'. k' \<noteq> k \<longrightarrow> dict_get (region_entries r1) k' =
      (if k' \<in> ent_identity ` set vs then None else dict_get (region_entries r) k')) \<and>
    (W = [] \<and> \<not> accepted \<and> dict_get (region_entries r1) k = dict_get (region_entries r) k \<or>
     write_block_file lib now rand io (written_entry r now k v ret meta) v = (W, accepted) \<and>
     dict_get (region_entries r1) k = (if accepted then Some (written_entry r now k v ret meta) else None))"
proof (cases "ret \<noteq> kind \<or> length v > region_max_bytes r")
  case True
  then have "r1 = r" "dops = []" "\<not> accepted" using assms(2) by (auto simp: put_plan_def split: if_splits)
  then show ?thesis by (intro exI [of _ "[]"]) (simp add: evict_ops_def)
next
  case fits: False
  show ?thesis
  proof (cases "dict_get (region_entries r) k")
    case (Some old)
    let ?e = "written_entry r now k v ret meta"
    have e: "?e = old\<lparr>ent_size := length v, ent_last_access := fst now, ent_metadata := meta\<rparr>"
      by (simp add: written_entry_def Some)
    have "finish_put lib now rand io k ?e v (r\<lparr>region_entries := dict_put k ?e (region_entries r),
        region_used := region_used r + (int (length v) - int (ent_size old))\<rparr>) [] = (r1, dops, accepted, reason)"
      using assms(2) fits Some unfolding e by (simp add: put_plan_def Let_def)
    from finish_put_shape [OF this] obtain W where W: "dops = W" "write_block_file lib now rand io ?e v = (W, accepted)"
      "\<forall>k'. k' \<noteq> k \<longrightarrow> dict_get (region_entries r1) k' = dict_get (region_entries r) k'"
      "dict_get (region_entries r1) k = (if accepted then Some ?e else None)"
      by (auto simp: dict_get_put)
    show ?thesis by (intro exI [of _ "[]"] exI [of _ W]) (simp add: W evict_ops_def)
  next
    case None
    let ?e = "written_entry r now k v ret meta"
    have e: "?e = new_entry now k (length v) ret meta" by (simp add: written_entry_def None)
    have fit: "length v \<le> region_max_bytes r" "ret = kind" using fits by auto
    obtain vs r2 where m: "make_room (length v) r = (vs, r2, True)"
      and p: "put_plan kind wrong full lib now rand io r k v ret meta =
        finish_put lib now rand io k ?e v (r2\<lparr>region_entries := dict_put k ?e (region_entries r2),
          region_used := region_used r2 + int (length v)\<rparr>) (evict_ops lib vs)"
      using put_plan_new [OF assms(1) None fit, of wrong full lib now rand io meta] unfolding e evict_ops_def by blast
    note f = p [symmetric, unfolded assms(2)]
    from finish_put_shape [OF f] obtain W where W: "dops = evict_ops lib vs @ W"
      "write_block_file lib now rand io ?e v = (W, accepted)"
      "\<forall>k'. k' \<noteq> k \<longrightarrow> dict_get (region_entries r1) k' = dict_get (region_entries r2) k'"
      "dict_get (region_entries r1) k = (if accepted then Some ?e else None)"
      by (auto simp: dict_get_put)
    have vs: "\<forall>e \<in> set vs. dict_get (region_entries r) (ent_identity e) = Some e"
      using make_room_spec [OF assms(1) m] by blast
    then have "\<forall>e \<in> set vs. ent_identity e \<noteq> k" using None by force
    with vs W make_room_get [OF assms(1) m] show ?thesis by (intro exI [of _ vs] exI [of _ W]) simp
  qed
qed

lemma written_entry_identity:
  "region_wf r \<Longrightarrow> ent_identity (written_entry r now k v ret meta) = k"
  using region_wfD(3) [of r k] by (auto simp: written_entry_def ent_identity_def [of "_\<lparr>ent_size := _, ent_last_access := _, ent_metadata := _\<rparr>"]
      split: option.split) (simp add: ent_identity_def)

lemma written_entry_size [simp]: "ent_size (written_entry r now k v ret meta) = length v"
  by (simp add: written_entry_def split: option.split)

lemma evict_ops_unlink: "op \<in> set (evict_ops lib vs) \<longleftrightarrow>
  (\<exists>e \<in> set vs. op = Unlink (data_path lib (ent_identity e)) \<or> op = Unlink (meta_path lib (ent_identity e)))"
  by (auto simp: evict_ops_def delete_block_files_def paths_for_identity)

text \<open>A prefix of the evictions leaves each block as it was or removes it, and touches victims only.\<close>

lemma evict_prefix_lookup:
  assumes "names_ok k" and "\<forall>e \<in> set vs. names_ok (ent_identity e)"
  shows "disk_lookup lib (run_ops d (take j (evict_ops lib vs))) k \<in> {disk_lookup lib d k, None}"
    and "k \<notin> ent_identity ` set vs \<Longrightarrow> disk_lookup lib (run_ops d (take j (evict_ops lib vs))) k = disk_lookup lib d k"
proof -
  let ?ops = "take j (evict_ops lib vs)"
  have un: "\<forall>op \<in> set ?ops. \<exists>p. op = Unlink p" by (auto simp: evict_ops_unlink dest!: in_set_takeD)
  show "disk_lookup lib (run_ops d ?ops) k \<in> {disk_lookup lib d k, None}"
    by (simp add: disk_lookup_def run_unlinks [OF un] split: option.split)
  assume out: "k \<notin> ent_identity ` set vs"
  have ne: "p \<noteq> data_path lib k" "p \<noteq> meta_path lib k"
    if "e \<in> set vs" "p = data_path lib (ent_identity e) \<or> p = meta_path lib (ent_identity e)" for e p
  proof -
    have "own_path lib (ent_identity e) p" using that(2) by (auto simp: own_path_def)
    moreover have "names_ok (ent_identity e)" "k \<noteq> ent_identity e" using assms(2) out that(1) by auto
    ultimately show "p \<noteq> data_path lib k" "p \<noteq> meta_path lib k"
      using own_path_other [OF _ _ assms(1)] by blast+
  qed
  have "Unlink q \<notin> set ?ops" if q: "q = data_path lib k \<or> q = meta_path lib k" for q
  proof
    assume "Unlink q \<in> set ?ops"
    then have "Unlink q \<in> set (evict_ops lib vs)" by (rule in_set_takeD)
    then obtain e where e: "e \<in> set vs" "q = data_path lib (ent_identity e) \<or> q = meta_path lib (ent_identity e)"
      unfolding evict_ops_unlink by auto
    from ne [OF e] q show False by blast
  qed
  then show "disk_lookup lib (run_ops d ?ops) k = disk_lookup lib d k"
    by (intro lookup_frame) (simp_all add: run_unlinks [OF un])
qed

section \<open>The index and the disk agree\<close>

definition ssd_inv :: "ssd_lib \<Rightarrow> SsdRegion \<Rightarrow> bool" where
  "ssd_inv lib r \<longleftrightarrow> region_wf r \<and> disk_wf lib (region_disk r) \<and>
     (\<forall>k e. dict_get (region_entries r) k = Some e \<longrightarrow> names_ok k) \<and>
     (\<forall>k. names_ok k \<longrightarrow> (dict_get (region_entries r) k = None \<longleftrightarrow> disk_lookup lib (region_disk r) k = None))"

lemma ssd_invD:
  assumes "ssd_inv lib r"
  shows "region_wf r" and "disk_wf lib (region_disk r)"
    and "dict_get (region_entries r) k = Some e \<Longrightarrow> names_ok k"
    and "names_ok k \<Longrightarrow> dict_get (region_entries r) k = None \<longleftrightarrow> disk_lookup lib (region_disk r) k = None"
proof -
  note D = assms [unfolded ssd_inv_def]
  show "region_wf r" "disk_wf lib (region_disk r)" using D by blast+
  show "names_ok k" if "dict_get (region_entries r) k = Some e"
    by (rule D [THEN conjunct2, THEN conjunct2, THEN conjunct1, rule_format, OF that])
  show "dict_get (region_entries r) k = None \<longleftrightarrow> disk_lookup lib (region_disk r) k = None" if "names_ok k"
    by (rule D [THEN conjunct2, THEN conjunct2, THEN conjunct2, rule_format, OF that])
qed

lemma ssd_invI:
  assumes "region_wf r" and "disk_wf lib (region_disk r)"
    and "\<And>k e. dict_get (region_entries r) k = Some e \<Longrightarrow> names_ok k"
    and "\<And>k. names_ok k \<Longrightarrow> dict_get (region_entries r) k = None \<longleftrightarrow> disk_lookup lib (region_disk r) k = None"
  shows "ssd_inv lib r"
  unfolding ssd_inv_def by (intro conjI allI impI) (fact assms)+

lemma ssd_inv_lookup:
  assumes "ssd_inv lib r" and "names_ok k"
  shows "region_lookup lib r k = disk_lookup lib (region_disk r) k"
proof (cases "dict_get (region_entries r) k")
  case (Some e)
  then have "disk_lookup lib (region_disk r) k \<noteq> None" using assms unfolding ssd_inv_def by force
  then obtain v where v: "disk_lookup lib (region_disk r) k = Some v" by blast
  then have "dict_get (region_disk r) (data_path lib k) = Some v"
    by (auto simp: disk_lookup_def split: option.splits if_splits)
  moreover have "ent_identity e = k" using assms(1) Some region_wfD(3) unfolding ssd_inv_def by blast
  ultimately show ?thesis using Some v by (simp add: region_lookup_def paths_for_identity)
next
  case None
  then have "disk_lookup lib (region_disk r) k = None" using assms unfolding ssd_inv_def by blast
  with None show ?thesis by (simp add: region_lookup_def)
qed

text \<open>A put whose sidecar the JSON codec reads back, of a block with proper names.\<close>

definition clean_put :: "ssd_lib \<Rightarrow> SsdRegion \<Rightarrow> clock \<Rightarrow> identity \<Rightarrow> byte list \<Rightarrow> string \<Rightarrow> entry_meta \<Rightarrow> bool" where
  "clean_put lib r now k v ret meta \<longleftrightarrow> names_ok k \<and>
     (let p = sidecar_of lib now (written_entry r now k v ret meta) v
      in json_loads lib (json_dumps lib p) = Some p)"

text \<open>What a prefix of a put leaves on disk.\<close>

lemma put_prefix:
  assumes "ssd_inv lib r" and "clean_put lib r now k v ret meta"
    and "put_plan kind wrong full lib now rand io r k v ret meta = (r1, dops, accepted, reason)"
    and "d = run_ops (region_disk r) (take j dops)"
  shows "disk_wf lib d"
    and "names_ok k' \<Longrightarrow> k' \<noteq> k \<Longrightarrow> dict_get (region_entries r1) k' \<noteq> None \<Longrightarrow>
      disk_lookup lib d k' = disk_lookup lib (region_disk r) k'"
    and "names_ok k' \<Longrightarrow> k' \<noteq> k \<Longrightarrow> disk_lookup lib d k' \<in> {disk_lookup lib (region_disk r) k', None}"
    and "disk_lookup lib d k \<in> {disk_lookup lib (region_disk r) k, Some v, None}"
    and "length dops \<le> j \<Longrightarrow> accepted \<Longrightarrow> disk_lookup lib d k = Some v"
    and "length dops \<le> j \<Longrightarrow> names_ok k' \<Longrightarrow> k' \<noteq> k \<Longrightarrow> dict_get (region_entries r1) k' = None \<Longrightarrow>
      disk_lookup lib d k' = None"
proof -
  have inv: "region_wf r" "disk_wf lib (region_disk r)" and kok: "names_ok k"
    using assms(1,2) by (auto simp: ssd_inv_def clean_put_def)
  let ?e = "written_entry r now k v ret meta"
  have ide: "ent_identity ?e = k" by (rule written_entry_identity [OF inv(1)])
  obtain vs W where dops: "dops = evict_ops lib vs @ W"
    and vs: "\<forall>e \<in> set vs. dict_get (region_entries r) (ent_identity e) = Some e \<and> ent_identity e \<noteq> k"
    and r1: "\<forall>k'. k' \<noteq> k \<longrightarrow> dict_get (region_entries r1) k' =
      (if k' \<in> ent_identity ` set vs then None else dict_get (region_entries r) k')"
    and W: "W = [] \<and> \<not> accepted \<or> write_block_file lib now rand io ?e v = (W, accepted)"
    using put_plan_shape [OF inv(1) assms(3)] by blast
  have vok: "\<forall>e \<in> set vs. names_ok (ent_identity e)" using vs assms(1) unfolding ssd_inv_def by blast
  let ?d1 = "run_ops (region_disk r) (take j (evict_ops lib vs))"
  let ?W = "take (j - length (evict_ops lib vs)) W"
  have d: "d = run_ops ?d1 ?W" by (simp add: assms(4) dops)
  have own: "\<forall>op \<in> set ?W. \<forall>p \<in> op_targets op. own_path lib k p"
    using W write_ops_own [of lib now rand io ?e v W accepted] ide by (auto dest!: in_set_takeD)
  have wf1: "disk_wf lib ?d1"
  proof (rule disk_wf_run [OF inv(2)], rule ballI)
    fix op
    assume "op \<in> set (take j (evict_ops lib vs))"
    then have "op \<in> set (evict_ops lib vs)" by (rule in_set_takeD)
    then obtain e where e: "e \<in> set vs" "op = Unlink (data_path lib (ent_identity e)) \<or> op = Unlink (meta_path lib (ent_identity e))"
      unfolding evict_ops_unlink by blast
    then have "\<forall>p \<in> op_targets op. own_path lib (ent_identity e) p" by (auto simp: own_path_def)
    with e(1) vok show "\<exists>k. names_ok k \<and> (\<forall>p \<in> op_targets op. own_path lib k p)" by blast
  qed
  show "disk_wf lib d" unfolding d by (rule disk_wf_run [OF wf1]) (use own kok in blast)
  have knot: "k \<notin> ent_identity ` set vs" using vs by blast
  have k1: "disk_lookup lib ?d1 k = disk_lookup lib (region_disk r) k"
    by (rule evict_prefix_lookup(2) [OF kok vok knot])
  have other: "disk_lookup lib d k' = disk_lookup lib ?d1 k'" if "names_ok k'" "k' \<noteq> k" for k'
    unfolding d by (rule own_ops_lookup [OF own kok that])
  show "disk_lookup lib d k' = disk_lookup lib (region_disk r) k'"
    if "names_ok k'" "k' \<noteq> k" "dict_get (region_entries r1) k' \<noteq> None"
  proof -
    have "k' \<notin> ent_identity ` set vs" using r1 that(2,3) by metis
    with evict_prefix_lookup(2) [OF that(1) vok] other [OF that(1,2)] show ?thesis by simp
  qed
  show "disk_lookup lib d k' \<in> {disk_lookup lib (region_disk r) k', None}" if "names_ok k'" "k' \<noteq> k"
    unfolding other [OF that] by (rule evict_prefix_lookup(1) [OF that(1) vok])
  show "disk_lookup lib d k \<in> {disk_lookup lib (region_disk r) k, Some v, None}"
  proof (cases "W = []")
    case True
    then show ?thesis using k1 by (simp add: d)
  next
    case False
    with W have "write_block_file lib now rand io ?e v = (W, accepted)" by blast
    from write_prefix_lookup [OF this ide kok, of ?d1 "j - length (evict_ops lib vs)"] show ?thesis
      unfolding d k1 .
  qed
  show "disk_lookup lib d k = Some v" if "length dops \<le> j" "accepted"
  proof -
    have w: "write_block_file lib now rand io ?e v = (W, True)" using W that(2) by auto
    have "?W = W" using that(1) by (simp add: dops)
    moreover have "json_loads lib (json_dumps lib (sidecar_of lib now ?e v)) = Some (sidecar_of lib now ?e v)"
      using assms(2) by (simp add: clean_put_def Let_def)
    ultimately show ?thesis unfolding d using write_done_lookup [OF w ide kok written_entry_size] by simp
  qed
  show "disk_lookup lib d k' = None"
    if "length dops \<le> j" "names_ok k'" "k' \<noteq> k" "dict_get (region_entries r1) k' = None"
  proof (cases "k' \<in> ent_identity ` set vs")
    case True
    then obtain e where e: "e \<in> set vs" "k' = ent_identity e" by blast
    have all: "take j (evict_ops lib vs) = evict_ops lib vs" using that(1) by (simp add: dops)
    have un: "\<forall>op \<in> set (evict_ops lib vs). \<exists>p. op = Unlink p" using evict_ops_unlink by blast
    have "Unlink (data_path lib k') \<in> set (evict_ops lib vs)" using e by (auto simp: evict_ops_unlink)
    then show ?thesis
      unfolding other [OF that(2,3)] all by (simp add: disk_lookup_def run_unlinks [OF un])
  next
    case False
    then have "dict_get (region_entries r) k' = None" using r1 that(3,4) by simp
    then have "disk_lookup lib (region_disk r) k' = None" using assms(1) that(2) unfolding ssd_inv_def by blast
    with evict_prefix_lookup(2) [OF that(2) vok False] other [OF that(2,3)] show ?thesis by simp
  qed
qed

section \<open>Histories without failed writes\<close>

inductive clean_reach :: "string \<Rightarrow> ssd_lib \<Rightarrow> SsdRegion \<Rightarrow> bool" for kind lib where
  fresh: "make_region mx [] = Inr r \<Longrightarrow> clean_reach kind lib r"
| put: "clean_reach kind lib r \<Longrightarrow> clean_put lib r now k v ret meta \<Longrightarrow>
    put_plan kind wrong full lib now rand io r k v ret meta = (r1, dops, accepted, reason) \<Longrightarrow>
    reason \<noteq> Some ''disk_write_failed'' \<Longrightarrow>
    clean_reach kind lib (r1\<lparr>region_disk := run_ops (region_disk r1) dops\<rparr>)"
| get: "clean_reach kind lib r \<Longrightarrow> clean_reach kind lib (snd (get_bytes lib now r k))"
| remove: "clean_reach kind lib r \<Longrightarrow> clean_reach kind lib (snd (region_remove lib r k))"
| clear: "clean_reach kind lib r \<Longrightarrow> clean_reach kind lib (snd (region_clear lib r))"

lemma put_disk: "region_wf r \<Longrightarrow> region_disk (fst (put_plan kind wrong full lib now rand io r k v ret meta)) = region_disk r"
  using make_room_wf(2) [of r "length v"]
  by (cases "make_room (length v) r")
    (auto simp: put_plan_def finish_put_def forget_entry_def Let_def split: option.split prod.split)

lemma put_refused:
  assumes "region_wf r" and "put_plan kind wrong full lib now rand io r k v ret meta = (r1, dops, False, reason)"
    and "reason \<noteq> Some ''disk_write_failed''"
  shows "r1 = r \<and> dops = []"
proof (cases "ret \<noteq> kind \<or> length v > region_max_bytes r")
  case True
  then show ?thesis using assms(2) by (auto simp: put_plan_def split: if_splits)
next
  case False
  have no: "finish_put lib now rand io k e v r' pre \<noteq> (r1, dops, False, reason)" for e r' pre
    using assms(3) by (auto simp: finish_put_def Let_def split: prod.splits option.splits if_splits)
  show ?thesis
  proof (cases "dict_get (region_entries r) k")
    case None
    with False obtain vs r2 where "put_plan kind wrong full lib now rand io r k v ret meta =
        finish_put lib now rand io k (new_entry now k (length v) ret meta) v
        (r2\<lparr>region_entries := dict_put k (new_entry now k (length v) ret meta) (region_entries r2),
            region_used := region_used r2 + int (length v)\<rparr>) (concat (map (delete_block_files lib) vs))"
      using put_plan_new [OF assms(1) None, of v ret kind wrong full lib now rand io meta] by auto
    then show ?thesis using no assms(2) by metis
  next
    case (Some old)
    then show ?thesis using False no assms(2) by (simp add: put_plan_def Let_def)
  qed
qed

lemma inv_put:
  assumes "ssd_inv lib r" and "clean_put lib r now k v ret meta"
    and "put_plan kind wrong full lib now rand io r k v ret meta = (r1, dops, accepted, reason)"
    and "reason \<noteq> Some ''disk_write_failed''"
  shows "ssd_inv lib (r1\<lparr>region_disk := run_ops (region_disk r1) dops\<rparr>)"
proof (cases accepted)
  case False
  have w: "region_wf r" using assms(1) unfolding ssd_inv_def by (rule conjunct1)
  have no: "accepted = False" using False by simp
  have "r1 = r \<and> dops = []" by (rule put_refused [OF w assms(3) [unfolded no] assms(4)])
  then show ?thesis using assms(1) by simp
next
  case True
  have wf: "region_wf r" using assms(1) unfolding ssd_inv_def by (rule conjunct1)
  have kok: "names_ok k" using assms(2) unfolding clean_put_def by blast
  have dk: "region_disk r1 = region_disk r" using put_disk [OF wf, of kind wrong full lib now rand io k v ret meta] assms(3) by simp
  have w1: "region_wf r1" using put_plan_wf [OF wf, of kind wrong full lib now rand io k v ret meta] assms(3) by simp
  have "run_ops (region_disk r) dops = run_ops (region_disk r) (take (length dops) dops)" by simp
  note P = put_prefix [OF assms(1,2,3) this]
  obtain vs W where r1: "\<forall>k'. k' \<noteq> k \<longrightarrow> dict_get (region_entries r1) k' =
      (if k' \<in> ent_identity ` set vs then None else dict_get (region_entries r) k')"
    and W: "W = [] \<and> \<not> accepted \<and> dict_get (region_entries r1) k = dict_get (region_entries r) k \<or>
     write_block_file lib now rand io (written_entry r now k v ret meta) v = (W, accepted) \<and>
     dict_get (region_entries r1) k = (if accepted then Some (written_entry r now k v ret meta) else None)"
    using put_plan_shape [OF wf assms(3)] by blast
  have k1: "dict_get (region_entries r1) k \<noteq> None" using W True by simp
  have kept: "dict_get (region_entries r) k' = Some e" if "dict_get (region_entries r1) k' = Some e" "k' \<noteq> k" for k' e
  proof -
    have "dict_get (region_entries r1) k' = (if k' \<in> ent_identity ` set vs then None else dict_get (region_entries r) k')"
      using r1 that(2) by blast
    with that(1) show ?thesis by (simp split: if_splits)
  qed
  let ?d = "run_ops (region_disk r) dops"
  have ok: "names_ok k'" if "dict_get (region_entries r1) k' = Some e" for k' e
  proof (cases "k' = k")
    case False
    then have "dict_get (region_entries r) k' = Some e" using kept that by blast
    then show ?thesis by (rule ssd_invD(3) [OF assms(1)])
  qed (use kok in simp)
  have eq: "dict_get (region_entries r1) k' = None \<longleftrightarrow> disk_lookup lib ?d k' = None"
    if "names_ok k'" for k'
  proof (cases "k' = k")
    case True
    then show ?thesis using P(5) [OF order_refl \<open>accepted\<close>] k1 by simp
  next
    case False
    show ?thesis
    proof (cases "dict_get (region_entries r1) k' = None")
      case True
      then show ?thesis using P(6) [OF order_refl that False] by simp
    next
      case present: False
      then obtain e where "dict_get (region_entries r1) k' = Some e" by blast
      then have "dict_get (region_entries r) k' = Some e" using kept False by blast
      then have "dict_get (region_entries r) k' \<noteq> None" by simp
      then have "disk_lookup lib (region_disk r) k' \<noteq> None" by (simp only: ssd_invD(4) [OF assms(1) that] simp_thms)
      then show ?thesis using P(2) [OF that False present] present by (simp only: simp_thms)
    qed
  qed
  have sel: "region_entries (r1\<lparr>region_disk := ?d\<rparr>) = region_entries r1" "region_disk (r1\<lparr>region_disk := ?d\<rparr>) = ?d" by simp_all
  show ?thesis unfolding dk
  proof (rule ssd_invI, unfold sel region_wf_disk)
    show "region_wf r1" by (rule w1)
    show "disk_wf lib ?d" by (rule P(1))
  qed (fact ok, fact eq)
qed


lemma inv_fresh: "make_region mx [] = Inr r \<Longrightarrow> ssd_inv lib r"
  by (rule ssd_invI) (auto simp: make_region_def disk_wf_def disk_lookup_def intro: make_region_wf split: if_splits)

lemma inv_get:
  assumes "ssd_inv lib r"
  shows "ssd_inv lib (snd (get_bytes lib now r k))"
proof (cases "dict_get (region_entries r) k")
  case None
  then show ?thesis using assms by (simp add: get_bytes_def)
next
  case (Some e)
  have ok: "names_ok k" by (rule ssd_invD(3) [OF assms Some])
  then have "disk_lookup lib (region_disk r) k \<noteq> None" using ssd_invD(4) [OF assms ok] Some by simp
  then obtain b where b: "dict_get (region_disk r) (data_path lib k) = Some b"
    by (auto simp: disk_lookup_def split: option.splits)
  have id: "ent_identity e = k" using region_wfD(3) [OF ssd_invD(1) [OF assms]] Some by simp
  let ?r = "r\<lparr>region_entries := dict_put k (e\<lparr>ent_last_access := fst now\<rparr>) (region_entries r)\<rparr>"
  have g: "snd (get_bytes lib now r k) = ?r"
    by (simp add: get_bytes_def Some Let_def paths_for_identity id b)
  show ?thesis unfolding g
  proof (rule ssd_invI)
    show "region_wf ?r" using touch_entry_wf [OF ssd_invD(1) [OF assms] Some] by simp
    show "disk_wf lib (region_disk ?r)" using ssd_invD(2) [OF assms] by simp
  next
    fix k' e' assume "dict_get (region_entries ?r) k' = Some e'"
    then show "names_ok k'" using ok ssd_invD(3) [OF assms, of k' e'] by (simp add: dict_get_put split: if_splits)
  next
    fix k' assume "names_ok k'"
    from ssd_invD(4) [OF assms this] Some
    show "dict_get (region_entries ?r) k' = None \<longleftrightarrow> disk_lookup lib (region_disk ?r) k' = None"
      by (cases "k' = k") (simp_all add: dict_get_put)
  qed
qed

text \<open>Deleting the files of a set of entries and forgetting these entries.\<close>

lemma evicted_gone:
  assumes "e \<in> set vs"
  shows "disk_lookup lib (run_ops d (evict_ops lib vs)) (ent_identity e) = None"
proof -
  have un: "\<forall>op \<in> set (evict_ops lib vs). \<exists>p. op = Unlink p" by (auto simp: evict_ops_unlink)
  have "Unlink (data_path lib (ent_identity e)) \<in> set (evict_ops lib vs)"
    using assms by (auto simp: evict_ops_unlink)
  then show ?thesis by (simp add: disk_lookup_def run_unlinks [OF un])
qed

lemma inv_drop:
  assumes "ssd_inv lib r" and "region_wf r'" and "region_disk r' = run_ops (region_disk r) (evict_ops lib vs)"
    and "\<And>e. e \<in> set vs \<Longrightarrow> dict_get (region_entries r) (ent_identity e) = Some e"
    and "\<And>k. dict_get (region_entries r') k = (if k \<in> ent_identity ` set vs then None else dict_get (region_entries r) k)"
  shows "ssd_inv lib r'"
proof (rule ssd_invI)
  have ok: "names_ok (ent_identity e)" if "e \<in> set vs" for e
    by (rule ssd_invD(3) [OF assms(1) assms(4) [OF that]])
  show "disk_wf lib (region_disk r')" unfolding assms(3)
  proof (rule disk_wf_run [OF ssd_invD(2) [OF assms(1)]], rule ballI)
    fix op assume "op \<in> set (evict_ops lib vs)"
    then obtain e where e: "e \<in> set vs" "\<forall>p \<in> op_targets op. own_path lib (ent_identity e) p"
      unfolding evict_ops_unlink own_path_def by auto
    with ok show "\<exists>k. names_ok k \<and> (\<forall>p \<in> op_targets op. own_path lib k p)" by blast
  qed
  show "region_wf r'" by (rule assms(2))
next
  fix k e assume "dict_get (region_entries r') k = Some e"
  then have "dict_get (region_entries r) k = Some e" by (simp add: assms(5) split: if_splits)
  then show "names_ok k" by (rule ssd_invD(3) [OF assms(1)])
next
  fix k assume k: "names_ok k"
  show "dict_get (region_entries r') k = None \<longleftrightarrow> disk_lookup lib (region_disk r') k = None"
  proof (cases "k \<in> ent_identity ` set vs")
    case True
    then obtain e where "e \<in> set vs" "k = ent_identity e" by blast
    then show ?thesis using evicted_gone [of e vs lib "region_disk r"] assms(3) assms(5) [of k] True by simp
  next
    case False
    have ok: "\<forall>e \<in> set vs. names_ok (ent_identity e)"
      by (intro ballI ssd_invD(3) [OF assms(1)]) (rule assms(4))
    have "disk_lookup lib (region_disk r') k = disk_lookup lib (region_disk r) k"
      using evict_prefix_lookup(2) [OF k ok False, of lib "region_disk r" "length (evict_ops lib vs)"] assms(3) by simp
    then show ?thesis using False ssd_invD(4) [OF assms(1) k] by (simp only: assms(5) if_False)
  qed
qed

lemma inv_remove:
  assumes "ssd_inv lib r"
  shows "ssd_inv lib (snd (region_remove lib r k))"
proof (cases "dict_get (region_entries r) k")
  case None
  then show ?thesis using assms by (simp add: region_remove_def)
next
  case (Some e)
  note wf = ssd_invD(1) [OF assms]
  have id: "ent_identity e = k" using region_wfD(3) [OF wf] Some by simp
  show ?thesis
    by (rule inv_drop [OF assms, where vs = "[e]"])
      (use Some id forget_entry_wf(1) [OF wf Some] in
        \<open>simp_all add: region_remove_def evict_ops_def forget_entry_def dict_get_del\<close>)
qed

lemma inv_clear:
  assumes "ssd_inv lib r"
  shows "ssd_inv lib (snd (region_clear lib r))"
proof (rule inv_drop [OF assms, where vs = "map snd (region_entries r)"])
  note wf = ssd_invD(1) [OF assms]
  show "region_wf (snd (region_clear lib r))" by (simp add: region_clear_def region_wf_def)
  show "region_disk (snd (region_clear lib r)) = run_ops (region_disk r) (evict_ops lib (map snd (region_entries r)))"
    by (simp add: region_clear_def evict_ops_def)
  have mem: "dict_get (region_entries r) k = Some e \<longleftrightarrow> (k, e) \<in> set (region_entries r)" for k e
    using region_wfD(1) [OF wf] by (simp add: map_of_eq_Some_iff)
  have id: "ent_identity e = k" if "(k, e) \<in> set (region_entries r)" for k e
    using region_wfD(3) [OF wf] that mem by blast
  show "dict_get (region_entries r) (ent_identity e) = Some e" if "e \<in> set (map snd (region_entries r))" for e
    using that id by (auto simp: mem)
  fix k
  have "k \<in> ent_identity ` set (map snd (region_entries r))" if "dict_get (region_entries r) k = Some e" for e
    using that id [of k e] by (force simp: mem)
  then show "dict_get (region_entries (snd (region_clear lib r))) k =
    (if k \<in> ent_identity ` set (map snd (region_entries r)) then None else dict_get (region_entries r) k)"
    by (cases "dict_get (region_entries r) k") (simp_all add: region_clear_def)
qed

lemma clean_reach_inv: "clean_reach kind lib r \<Longrightarrow> ssd_inv lib r"
  by (induction rule: clean_reach.induct) (blast intro: inv_fresh inv_put inv_get inv_remove inv_clear)+


section \<open>Crash and restart\<close>

text \<open>A half-written temporary file changes no lookup.\<close>

lemma torn_tmp:
  assumes "disk_wf lib d" and "names_ok k" and "d' \<in> {d, dict_put (tmp_path p suffix) junk d}"
  shows "disk_wf lib d'" and "names_ok k' \<Longrightarrow> disk_lookup lib d' k' = disk_lookup lib d k'"
proof -
  have "disk_wf lib (apply_op d (WriteFile (tmp_path p suffix) junk))"
    by (rule disk_wf_apply [OF assms(1) _ assms(2)]) (simp add: own_path_def tmp_path_contains)
  then show "disk_wf lib d'" using assms(1,3) by auto
  show "disk_lookup lib d' k' = disk_lookup lib d k'" if "names_ok k'"
    using assms(3) tmp_neq(1,2) [OF that, of p suffix lib] by (auto intro!: lookup_frame simp: dict_get_put)
qed

text \<open>
  C2. Crash safety of the long region. Take a region that started empty and has gone through puts,
  reads, removals and clears in which no disk write failed. Stop a further put, whose own writes may
  fail, at any of its disk operations, with any rubbish in
  a temporary file, and restart the region from the files: every block the put did not evict is
  served with the bytes it had, an evicted block is served with its bytes or is gone, and the block
  being put is served with its old bytes, with its new bytes or is gone, never with others. If the put
  was acknowledged and all its operations ran, its block is served, and a restart with no put under way
  changes nothing. The identities have no \<open>|\<close> in model or compatibility key and no \<open>.tmp.\<close> in
  their file names (\<open>tmp_model_lost_on_restart\<close> shows what happens otherwise), the directory
  digest is in lower-case hex, and the sidecars survive JSON.
\<close>

theorem put_crash_safe:
  assumes "lib_ok lib" and "clean_reach kind lib r" and "clean_put lib r now k v ret meta"
    and "put_plan kind wrong full lib now rand io r k v ret meta = (r1, dops, accepted, reason)"
    and "D = run_ops (region_disk r) (take j dops)" and "d \<in> {D, dict_put (tmp_path p suffix) junk D}"
    and "r' = long_start lib now' (r\<lparr>region_disk := d\<rparr>)" and "names_ok k'"
  shows "(k' \<noteq> k \<and> dict_get (region_entries r1) k' \<noteq> None \<longrightarrow> region_lookup lib r' k' = region_lookup lib r k') \<and>
    (k' \<noteq> k \<longrightarrow> region_lookup lib r' k' \<in> {region_lookup lib r k', None}) \<and>
    region_lookup lib r' k \<in> {region_lookup lib r k, Some v, None} \<and>
    (length dops \<le> j \<and> accepted \<longrightarrow> region_lookup lib r' k = Some v) \<and>
    (j = 0 \<longrightarrow> region_lookup lib r' k' = region_lookup lib r k')"
proof -
  have inv: "ssd_inv lib r" by (rule clean_reach_inv [OF assms(2)])
  have kok: "names_ok k" using assms(3) unfolding clean_put_def by blast
  note P = put_prefix [OF inv assms(3,4,5)]
  note T = torn_tmp [OF P(1) kok assms(6)]
  have start: "region_lookup lib r' i = disk_lookup lib D i" if "names_ok i" for i
    unfolding assms(7) using long_start_lookup [of lib "r\<lparr>region_disk := d\<rparr>" i now'] T(1) T(2) [OF that] assms(1) that
    by simp
  have old: "region_lookup lib r i = disk_lookup lib (region_disk r) i" if "names_ok i" for i
    by (rule ssd_inv_lookup [OF inv that])
  show ?thesis
    unfolding start [OF assms(8)] start [OF kok] old [OF assms(8)] old [OF kok]
    by (intro conjI impI; (elim conjE)?)
      (use P(2) [OF assms(8)] P(3) [OF assms(8)] P(4) P(5) assms(5) in \<open>blast | simp\<close>)+
qed

theorem put_crash_safe_witness:
  "region_lookup demo_lib (long_start demo_lib (0, 50) (demo_region\<lparr>region_disk :=
      run_ops (region_disk demo_region) (take 4 (fst (write_block_file demo_lib (1, 7) ''r'' IoOk
        (new_entry (1, 7) (''m'', ''c'', [0]) 2 ''long'' (UserMeta [])) [8, 9])))\<rparr>)) (''m'', ''c'', [0]) = Some [8, 9]"
proof -
  let ?k = "(''m'', ''c'', [0 :: byte])" and ?e = "new_entry (1, 7) (''m'', ''c'', [0]) 2 ''long'' (UserMeta [])"
  obtain ops where w: "write_block_file demo_lib (1, 7) ''r'' IoOk ?e [8, 9] = (ops, True)" and len: "length ops = 4"
    by (simp add: write_block_file_def encode_sidecar_def demo_lib_def Let_def
        SIDECAR_TOTAL_BYTES_def SIDECAR_HEADER_LEN_BYTES_def case_prod_beta)
  have "make_room 2 demo_region = ([], demo_region, True)" by (simp add: make_room.simps demo_region_def)
  then have plan: "put_plan ''long'' ''w'' ''f'' demo_lib (1, 7) ''r'' IoOk demo_region ?k [8, 9] ''long'' (UserMeta []) =
    (demo_region\<lparr>region_entries := [(?k, ?e)], region_used := 2\<rparr>, ops, True, None)"
    using w by (simp add: put_plan_def finish_put_def demo_region_def numeral_2_eq_2 Let_def)
  have lib: "lib_ok demo_lib" by (simp add: lib_ok_def demo_lib_def is_lower_hex_def)
  have reach: "clean_reach ''long'' demo_lib demo_region"
    by (rule fresh [of 5]) (simp add: make_region_def demo_region_def)
  have names: "names_ok ?k" unfolding names_ok_def by code_simp
  have "written_entry demo_region (1, 7) ?k [8, 9] ''long'' (UserMeta []) = ?e"
    by (simp add: written_entry_def demo_region_def numeral_2_eq_2)
  then have clean: "clean_put demo_lib demo_region (1, 7) ?k [8, 9] ''long'' (UserMeta [])"
    using names by (simp add: clean_put_def demo_lib_def demo_sidecar_def sidecar_of_def new_entry_def to_wall_def SIDECAR_VERSION_def)
  from put_crash_safe [OF lib reach clean plan refl _ refl names, of _ 4] len show ?thesis by (simp add: w)
qed

text \<open>The two restrictions are needed. A crash between the data and the sidecar of an overwrite of
  another size loses the block that was acknowledged before.\<close>

lemma interrupted_overwrite_loses_block:
  assumes "lib_ok lib" and "clean_reach kind lib r" and "clean_put lib r now k v kind meta"
    and "region_lookup lib r k = Some old" and "length v \<noteq> length old" and "length v \<le> region_max_bytes r"
    and "put_plan kind wrong full lib now rand IoOk r k v kind meta = (r1, dops, True, reason)"
  shows "region_lookup lib (long_start lib now' (r\<lparr>region_disk := run_ops (region_disk r) (take 2 dops)\<rparr>)) k = None"
proof -
  have inv: "ssd_inv lib r" by (rule clean_reach_inv [OF assms(2)])
  have kok: "names_ok k" using assms(3) unfolding clean_put_def by blast
  let ?D = "run_ops (region_disk r) (take 2 dops)"
  let ?e = "written_entry r now k v kind meta"
  have look: "disk_lookup lib (region_disk r) k = Some old" using ssd_inv_lookup [OF inv kok] assms(4) by simp
  then obtain b where b: "dict_get (region_disk r) (data_path lib k) = Some old" "dict_get (region_disk r) (meta_path lib k) = Some b"
    "check_ok lib k b old"
    by (auto simp: disk_lookup_def split: option.splits if_splits)
  have bad: "\<not> check_ok lib k b v"
    using b(3) assms(5) by (auto simp: check_ok_def check_pair_def split: sum.splits prod.splits if_splits option.splits)
  obtain e0 where e0: "dict_get (region_entries r) k = Some e0" using assms(4) by (auto simp: region_lookup_def split: option.splits)
  then have e: "?e = e0\<lparr>ent_size := length v, ent_last_access := fst now, ent_metadata := meta\<rparr>"
    by (simp add: written_entry_def)
  have id: "ent_identity ?e = k" by (rule written_entry_identity [OF ssd_invD(1) [OF inv]])
  have w: "write_block_file lib now rand IoOk ?e v = (dops, True)"
    using assms(6,7) e0 unfolding e
    by (auto simp: put_plan_def finish_put_def Let_def split: prod.splits if_splits option.splits)
  then have t: "take 2 dops = [WriteFile (tmp_path (data_path lib k) rand) v, Replace (tmp_path (data_path lib k) rand) (data_path lib k)]"
    using id by (auto simp: write_block_file_def paths_for_identity Let_def split: sum.splits if_splits)
  have "dict_get ?D (data_path lib k) = Some v" "dict_get ?D (meta_path lib k) = Some b"
    using tmp_neq [OF kok] path_neq b(2) by (simp_all add: t dict_get_put dict_get_del)
  then have "disk_lookup lib ?D k = None" using bad by (simp add: disk_lookup_def)
  moreover have "disk_wf lib ?D" by (rule put_prefix(1) [OF inv assms(3,7) refl])
  ultimately show ?thesis
    using long_start_lookup [of lib "r\<lparr>region_disk := ?D\<rparr>" k now'] assms(1) kok by simp
qed


text \<open>A block whose model name contains \<open>.tmp.\<close> is taken for a temporary file: the restart unlinks
  its files although the put was acknowledged.\<close>

lemma tmp_model_lost_on_restart:
  assumes "dict_wf d" and "fst ` set d = {data_path lib k, meta_path lib k}" and "contains_tmp (fname k @ DATA_EXT)"
    and "contains_tmp (fname k @ METADATA_EXT)"
  shows "region_entries (long_start lib now (r\<lparr>region_disk := d\<rparr>)) = []"
proof -
  have tmp: "contains_tmp n" if "((s, l, n), b) \<in> set d" for s l n b
  proof -
    have "(s, l, n) \<in> {data_path lib k, meta_path lib k}" using that assms(2) by force
    then show ?thesis using assms(3,4) by (auto simp: data_path_def meta_path_def paths_for_composite_def Let_def)
  qed
  have "meta_stems (leaf_files d s l) = []" for s l
  proof -
    have "\<not> (\<exists>stem b. (stem, b) \<in> set (meta_stems (leaf_files d s l)))"
      using tmp unfolding meta_stems_iff leaf_files_iff by blast
    then show ?thesis by (cases "meta_stems (leaf_files d s l)") auto
  qed
  then have "fst (scan_metadata_dir lib now d sl) = []" for sl
    by (cases sl) (simp add: scan_metadata_dir_def scan_leaf_dir_def Let_def)
  then have "fst (recover_from_sidecars lib now d) = []"
    by (simp add: recover_from_sidecars_def Let_def)
  then show ?thesis by (simp add: long_start_def case_prod_beta)
qed

lemma tmp_model_example:
  "contains_tmp (fname (''my.tmp.model'', ''c'', [0]) @ DATA_EXT)"
  "contains_tmp (fname (''my.tmp.model'', ''c'', [0]) @ METADATA_EXT)"
  by code_simp+

end
