(* ===== verification/Host_Store.thy ===== *)
theory Host_Store
  imports Arena Ssd_Recovery
begin

text \<open>
  The block store of the KV daemon, \<open>src/infera/kvd/store.py\<close>: the host-RAM index with its
  priority-aware LRU eviction and byte accounting, coordinated with the shared arena and with the
  two SSD regions. An operation reads its clocks once; the disk outcomes and the random suffix of
  its temporary files are part of its environment. The long region is the file-per-block one, so
  the batched read of the distributed backends is not taken. Locks and log lines are left out: the
  operations are atomic steps.
\<close>

declare split_paired_Ex [simp del] split_paired_All [simp del]

section \<open>Entries\<close>

definition RETENTION_NONE :: string where "RETENTION_NONE = ''none''"

definition retention_priority :: "string \<Rightarrow> py_error + nat" where
  "retention_priority r =
     (if r = ''none'' then Inr 0 else if r = ''ephemeral'' then Inr 10
      else if r = ''short'' then Inr 50 else if r = ''long'' then Inr 100 else Inl ValueError)"

text \<open>The priority of a validated retention.\<close>

definition priority :: "string \<Rightarrow> nat" where
  "priority r = (case retention_priority r of Inr p \<Rightarrow> p | Inl _ \<Rightarrow> 0)"

text \<open>The slot is \<open>None\<close> for the \<open>-1\<close> of an entry that holds its bytes inline.\<close>

record Entry =
  he_key :: "byte list"
  he_value :: "byte list"
  he_retention :: string
  he_model :: string
  he_compat :: string
  he_metadata :: entry_meta
  he_last_access :: real
  he_expires_at :: "real option"
  he_slot :: "nat option"
  he_size_cache :: nat

definition size_bytes :: "Entry \<Rightarrow> nat" where
  "size_bytes e = (case he_slot e of Some _ \<Rightarrow> he_size_cache e | None \<Rightarrow> length (he_value e))"

definition is_expired :: "real \<Rightarrow> Entry \<Rightarrow> bool" where
  "is_expired now e = (case he_expires_at e of None \<Rightarrow> False | Some t \<Rightarrow> now \<ge> t)"

record StoreStats =
  gets_total :: nat
  sets_total :: nat
  hits_total :: nat
  misses_total :: nat
  evictions_total :: nat
  set_rejections_total :: nat

record HostStore =
  store_max_bytes :: nat
  store_used_bytes :: int
  store_entries :: "(identity, Entry) dict"
  store_key_index :: "(byte list, identity list) dict"
  store_stats :: StoreStats
  store_spillover :: "SsdRegion option"
  store_long :: "SsdRegion option"
  shared_arena :: "SharedArena option"

definition make_store ::
  "int \<Rightarrow> SsdRegion option \<Rightarrow> SsdRegion option \<Rightarrow> SharedArena option \<Rightarrow> py_error + HostStore" where
  "make_store mx sp lg ar =
     (if mx \<le> 0 then Inl ValueError
      else Inr \<lparr>store_max_bytes = nat mx, store_used_bytes = 0, store_entries = [], store_key_index = [],
                store_stats = \<lparr>gets_total = 0, sets_total = 0, hits_total = 0, misses_total = 0,
                               evictions_total = 0, set_rejections_total = 0\<rparr>,
                store_spillover = sp, store_long = lg, shared_arena = ar\<rparr>)"

text \<open>What an operation reads from its surroundings.\<close>

record op_env =
  env_lib :: ssd_lib
  env_now :: clock
  env_rand :: string
  env_spill_io :: "identity \<Rightarrow> io_outcome"
  env_long_io :: "identity \<Rightarrow> io_outcome"

abbreviation clock_now :: "op_env \<Rightarrow> real" where
  "clock_now env \<equiv> fst (env_now env)"

abbreviation block_key :: "identity \<Rightarrow> byte list" where
  "block_key k \<equiv> snd (snd k)"

definition bump_gets :: "HostStore \<Rightarrow> HostStore" where
  "bump_gets s = s\<lparr>store_stats := (store_stats s)\<lparr>gets_total := gets_total (store_stats s) + 1\<rparr>\<rparr>"

definition bump_sets :: "HostStore \<Rightarrow> HostStore" where
  "bump_sets s = s\<lparr>store_stats := (store_stats s)\<lparr>sets_total := sets_total (store_stats s) + 1\<rparr>\<rparr>"

definition bump_hits :: "HostStore \<Rightarrow> HostStore" where
  "bump_hits s = s\<lparr>store_stats := (store_stats s)\<lparr>hits_total := hits_total (store_stats s) + 1\<rparr>\<rparr>"

definition bump_misses :: "nat \<Rightarrow> HostStore \<Rightarrow> HostStore" where
  "bump_misses n s = s\<lparr>store_stats := (store_stats s)\<lparr>misses_total := misses_total (store_stats s) + n\<rparr>\<rparr>"

definition bump_evictions :: "HostStore \<Rightarrow> HostStore" where
  "bump_evictions s = s\<lparr>store_stats := (store_stats s)\<lparr>evictions_total := evictions_total (store_stats s) + 1\<rparr>\<rparr>"

definition bump_rejections :: "HostStore \<Rightarrow> HostStore" where
  "bump_rejections s =
     s\<lparr>store_stats := (store_stats s)\<lparr>set_rejections_total := set_rejections_total (store_stats s) + 1\<rparr>\<rparr>"

text \<open>\<open>resolve_value\<close>: the bytes of an entry, empty when its slot cannot be read.\<close>

definition resolve_value :: "HostStore \<Rightarrow> Entry \<Rightarrow> byte list \<times> HostStore" where
  "resolve_value s e =
     (case he_slot e of
        None \<Rightarrow> (he_value e, s)
      | Some slot \<Rightarrow>
          (case shared_arena s of
             None \<Rightarrow> ([], s)
           | Some a \<Rightarrow>
               (case get_slice a (int slot) of
                  (None, a') \<Rightarrow> ([], s\<lparr>shared_arena := Some a'\<rparr>)
                | (Some v, a') \<Rightarrow> (v, s\<lparr>shared_arena := Some a'\<rparr>))))"

section \<open>The reverse index\<close>

definition key_index_add :: "identity \<Rightarrow> (byte list, identity list) dict \<Rightarrow> (byte list, identity list) dict" where
  "key_index_add k idx =
     (case dict_get idx (block_key k) of
        None \<Rightarrow> dict_put (block_key k) [k] idx
      | Some bucket \<Rightarrow> dict_put (block_key k) (List.insert k bucket) idx)"

definition key_index_remove :: "identity \<Rightarrow> (byte list, identity list) dict \<Rightarrow> (byte list, identity list) dict" where
  "key_index_remove k idx =
     (case dict_get idx (block_key k) of
        None \<Rightarrow> idx
      | Some bucket \<Rightarrow>
          (let b = removeAll k bucket
           in if b = [] then dict_del (block_key k) idx else dict_put (block_key k) b idx))"

text \<open>Drop a row from both indexes; only inline bytes are billed.\<close>

definition pop_row :: "HostStore \<Rightarrow> identity \<Rightarrow> Entry \<Rightarrow> HostStore" where
  "pop_row s k e =
     s\<lparr>store_entries := dict_del k (store_entries s), store_key_index := key_index_remove k (store_key_index s),
       store_used_bytes := (if he_slot e = None then store_used_bytes s - int (size_bytes e) else store_used_bytes s)\<rparr>"

text \<open>Release the arena slot of an arena-backed entry.\<close>

definition release_slot :: "HostStore \<Rightarrow> Entry \<Rightarrow> HostStore" where
  "release_slot s e =
     (if he_slot e = None then s
      else s\<lparr>shared_arena := map_option (\<lambda>a. snd (arena_evict_key a (he_key e) False)) (shared_arena s)\<rparr>)"

definition remove_entry_locked :: "HostStore \<Rightarrow> identity \<Rightarrow> Entry \<Rightarrow> HostStore" where
  "remove_entry_locked s k e = release_slot (pop_row s k e) e"

definition evict_locked :: "HostStore \<Rightarrow> identity \<Rightarrow> Entry \<Rightarrow> HostStore" where
  "evict_locked s k e = bump_evictions (release_slot (pop_row s k e) e)"

section \<open>Victims\<close>

fun victim_scan :: "nat \<Rightarrow> (identity \<times> nat \<times> real) option \<Rightarrow> (identity, Entry) dict \<Rightarrow> identity option" where
  "victim_scan inc best [] = map_option fst best"
| "victim_scan inc best ((k, e) # es) =
     (let p = priority (he_retention e); t = he_last_access e in
      if p > inc then victim_scan inc best es
      else case best of
             None \<Rightarrow> victim_scan inc (Some (k, p, t)) es
           | Some (_, bp, bt) \<Rightarrow>
               if p < bp \<or> p = bp \<and> t < bt then victim_scan inc (Some (k, p, t)) es
               else victim_scan inc best es)"

definition pick_victim :: "HostStore \<Rightarrow> string \<Rightarrow> identity option" where
  "pick_victim s ret = victim_scan (priority ret) None (store_entries s)"

type_synonym spill = "identity \<times> byte list \<times> entry_meta"

definition collect_for_spillover :: "HostStore \<Rightarrow> identity \<Rightarrow> spill option \<times> HostStore" where
  "collect_for_spillover s k =
     (case store_spillover s of
        None \<Rightarrow> (None, s)
      | Some _ \<Rightarrow>
          (case dict_get (store_entries s) k of
             None \<Rightarrow> (None, s)
           | Some e \<Rightarrow>
               if he_retention e \<noteq> RETENTION_SHORT then (None, s)
               else (case resolve_value s e of
                       (v, s') \<Rightarrow> (Some ((he_model e, he_compat e, he_key e), v, he_metadata e), s'))))"

lemma victim_scan_in:
  "victim_scan inc best es = Some k \<Longrightarrow> k \<in> fst ` set es \<or> (\<exists>x. best = Some (k, x))"
proof (induction es arbitrary: best)
  case (Cons x es)
  obtain k' e where x: "x = (k', e)" by (cases x)
  from Cons.prems show ?case
    unfolding x victim_scan.simps Let_def
    by (auto dest!: Cons.IH split: if_splits option.splits)
qed auto

lemma pick_victim_in: "pick_victim s ret = Some k \<Longrightarrow> k \<in> fst ` set (store_entries s)"
  unfolding pick_victim_def by (drule victim_scan_in) auto

lemma collect_entries [simp]: "store_entries (snd (collect_for_spillover s k)) = store_entries s"
  by (simp add: collect_for_spillover_def resolve_value_def split: option.split prod.split)


text \<open>Evict until \<open>demand\<close> inline bytes fit. The flag is \<open>False\<close> when every entry left is protected.\<close>

function evict_for :: "nat \<Rightarrow> string \<Rightarrow> HostStore \<Rightarrow> spill list \<times> HostStore \<times> bool" where
  "evict_for demand ret s =
     (if store_used_bytes s + int demand \<le> int (store_max_bytes s) then ([], s, True)
      else case pick_victim s ret of
             None \<Rightarrow> ([], s, False)
           | Some k \<Rightarrow>
               (case dict_get (store_entries s) k of
                  None \<Rightarrow> ([], s, False)
                | Some e \<Rightarrow>
                    let (sp, s1) = collect_for_spillover s k;
                        (sps, s2, ok) = evict_for demand ret (evict_locked s1 k e)
                    in (case sp of None \<Rightarrow> sps | Some x \<Rightarrow> x # sps, s2, ok)))"
  by pat_completeness auto
termination
proof (relation "measure (\<lambda>(demand, ret, s). length (store_entries s))")
  fix demand ret k e x sp s1 and s :: HostStore
  assume "pick_victim s ret = Some k" and c: "x = collect_for_spillover s k" "(sp, s1) = x"
  then have "k \<in> fst ` set (store_entries s)" by (simp add: pick_victim_in)
  moreover have "store_entries s1 = store_entries s" using collect_entries [of s k] c by (metis snd_conv)
  ultimately show "((demand, ret, evict_locked s1 k e), demand, ret, s) \<in> measure (\<lambda>(demand, ret, s). length (store_entries s))"
    using dict_del_shorter [of k "store_entries s"]
    by (simp add: evict_locked_def bump_evictions_def release_slot_def pop_row_def)
qed simp

declare evict_for.simps [simp del]

section \<open>Set\<close>

text \<open>Push the bytes into the arena: the slot, or \<open>None\<close> for inline storage.\<close>

definition store_bytes :: "HostStore \<Rightarrow> byte list \<Rightarrow> byte list \<Rightarrow> (py_error + nat option) \<times> HostStore" where
  "store_bytes s key value =
     (case shared_arena s of
        None \<Rightarrow> (Inr None, s)
      | Some a \<Rightarrow> (case arena_put a key value of (res, a') \<Rightarrow> (res, s\<lparr>shared_arena := Some a'\<rparr>)))"

definition inline_size :: "Entry \<Rightarrow> int" where
  "inline_size e = (case he_slot e of Some _ \<Rightarrow> 0 | None \<Rightarrow> int (length (he_value e)))"

text \<open>Give an entry new bytes; without an arena only the value changes.\<close>

definition place :: "HostStore \<Rightarrow> nat option \<Rightarrow> byte list \<Rightarrow> Entry \<Rightarrow> Entry" where
  "place s slot value e =
     (if shared_arena s = None then e\<lparr>he_value := value\<rparr>
      else case slot of
             None \<Rightarrow> e\<lparr>he_value := value, he_slot := None, he_size_cache := 0\<rparr>
           | Some x \<Rightarrow> e\<lparr>he_value := [], he_slot := Some x, he_size_cache := length value\<rparr>)"

definition make_entry :: "op_env \<Rightarrow> identity \<Rightarrow> byte list \<Rightarrow> string \<Rightarrow> entry_meta \<Rightarrow> real option \<Rightarrow> Entry" where
  "make_entry env k value ret meta expires =
     (case k of (model, ck, key) \<Rightarrow>
        \<lparr>he_key = key, he_value = value, he_retention = ret, he_model = model, he_compat = ck,
         he_metadata = meta, he_last_access = clock_now env, he_expires_at = expires, he_slot = None, he_size_cache = 0\<rparr>)"

text \<open>Drop the rows of the keys whose slots the arena has recycled.\<close>

definition drop_row :: "bool \<Rightarrow> HostStore \<Rightarrow> identity \<Rightarrow> HostStore" where
  "drop_row evicted s k =
     (case dict_get (store_entries s) k of
        None \<Rightarrow> s
      | Some e \<Rightarrow> (if evicted then bump_evictions (pop_row s k e) else pop_row s k e))"

definition drop_bucket :: "bool \<Rightarrow> HostStore \<Rightarrow> byte list \<Rightarrow> HostStore" where
  "drop_bucket evicted s key =
     (case dict_get (store_key_index s) key of
        None \<Rightarrow> s
      | Some ids \<Rightarrow> foldl (drop_row evicted) s ids)"

definition drain_arena :: "HostStore \<Rightarrow> HostStore" where
  "drain_arena s =
     (case shared_arena s of
        None \<Rightarrow> s
      | Some a \<Rightarrow>
          (case drain_recent_evictions a of
             (keys, a') \<Rightarrow> foldl (drop_bucket True) (s\<lparr>shared_arena := Some a'\<rparr>) keys))"

text \<open>File a row; only inline bytes are billed.\<close>

definition replace_row :: "HostStore \<Rightarrow> identity \<Rightarrow> Entry \<Rightarrow> Entry \<Rightarrow> HostStore" where
  "replace_row s k old e =
     s\<lparr>store_entries := dict_put k e (store_entries s),
       store_used_bytes := store_used_bytes s + (inline_size e - inline_size old)\<rparr>"

definition add_row :: "HostStore \<Rightarrow> identity \<Rightarrow> Entry \<Rightarrow> HostStore" where
  "add_row s k e =
     s\<lparr>store_entries := dict_put k e (store_entries s), store_key_index := key_index_add k (store_key_index s),
       store_used_bytes := (if he_slot e = None then store_used_bytes s + int (size_bytes e) else store_used_bytes s)\<rparr>"

definition set_existing ::
  "op_env \<Rightarrow> HostStore \<Rightarrow> identity \<Rightarrow> Entry \<Rightarrow> byte list \<Rightarrow> string \<Rightarrow> entry_meta \<Rightarrow> real option \<Rightarrow>
   (py_error + put_result \<times> spill list) \<times> HostStore" where
  "set_existing env s k old value ret meta expires =
     (if priority ret < priority (he_retention old)
      then (Inr ((False, Some ''retention_downgrade_not_allowed''), []), bump_rejections s)
      else case store_bytes s (block_key k) value of
             (Inl e, s') \<Rightarrow> (Inl e, s')
           | (Inr slot, s') \<Rightarrow>
               let e = (place s' slot value old)\<lparr>he_retention := ret, he_last_access := clock_now env,
                         he_metadata := meta, he_expires_at := expires\<rparr>
               in (Inr ((True, None), []), drain_arena (replace_row s' k old e)))"

definition would_use_arena :: "HostStore \<Rightarrow> nat \<Rightarrow> bool" where
  "would_use_arena s sz = (case shared_arena s of None \<Rightarrow> False | Some a \<Rightarrow> would_accept_size a sz)"

definition set_new ::
  "op_env \<Rightarrow> HostStore \<Rightarrow> identity \<Rightarrow> byte list \<Rightarrow> string \<Rightarrow> entry_meta \<Rightarrow> real option \<Rightarrow>
   (py_error + put_result \<times> spill list) \<times> HostStore" where
  "set_new env s k value ret meta expires =
     (let demand = (if would_use_arena s (length value) then 0 else length value) in
      if demand > store_max_bytes s then (Inr ((False, Some ''value_larger_than_store''), []), bump_rejections s)
      else case evict_for demand ret s of
             (_, s1, False) \<Rightarrow>
               (Inr ((False, Some ''would_displace_higher_priority''), []), bump_rejections s1)
           | (spills, s1, True) \<Rightarrow>
               (case store_bytes s1 (block_key k) value of
                  (Inl e, s2) \<Rightarrow> (Inl e, s2)
                | (Inr slot, s2) \<Rightarrow>
                    let e = place s2 slot value (make_entry env k value ret meta expires)
                    in (Inr ((True, None), spills), drain_arena (add_row s2 k e))))"

text \<open>The disk writes after the RAM lock is released: the spilled victims, then the write-through
  of a long-retention block with the bytes RAM holds at that moment.\<close>

definition spill_one :: "op_env \<Rightarrow> HostStore \<Rightarrow> spill \<Rightarrow> HostStore" where
  "spill_one env s x =
     (case x of (k, v, meta) \<Rightarrow>
        s\<lparr>store_spillover := map_option (\<lambda>r. snd (spillover_put (env_lib env) (env_now env) (env_rand env)
             (env_spill_io env k) r k v RETENTION_SHORT meta)) (store_spillover s)\<rparr>)"

definition write_through :: "op_env \<Rightarrow> HostStore \<Rightarrow> identity \<Rightarrow> HostStore" where
  "write_through env s k =
     (case store_long s of
        None \<Rightarrow> s
      | Some _ \<Rightarrow>
          (case dict_get (store_entries s) k of
             None \<Rightarrow> s
           | Some cur \<Rightarrow>
               (case resolve_value s cur of
                  (v, s') \<Rightarrow>
                    s'\<lparr>store_long := map_option (\<lambda>r. snd (long_put (env_lib env) (env_now env) (env_rand env)
                        (env_long_io env k) r k v RETENTION_LONG (he_metadata cur))) (store_long s')\<rparr>)))"

definition host_set ::
  "op_env \<Rightarrow> HostStore \<Rightarrow> identity \<Rightarrow> byte list \<Rightarrow> string \<Rightarrow> entry_meta \<Rightarrow> real option \<Rightarrow>
   (py_error + put_result) \<times> HostStore" where
  "host_set env s k value ret meta ttl =
     (case validate_retention ret of
        Inl e \<Rightarrow> (Inl e, s)
      | Inr _ \<Rightarrow>
          if (case ttl of None \<Rightarrow> False | Some t \<Rightarrow> t \<le> 0) then (Inr (True, None), bump_sets s)
          else
            let expires = map_option (\<lambda>t. clock_now env + t) ttl;
                s = bump_sets s;
                (res, s) = (case dict_get (store_entries s) k of
                              Some old \<Rightarrow> set_existing env s k old value ret meta expires
                            | None \<Rightarrow> set_new env s k value ret meta expires)
            in case res of
                 Inl e \<Rightarrow> (Inl e, s)
               | Inr ((accepted, reason), spills) \<Rightarrow>
                   if \<not> accepted then (Inr (False, reason), s)
                   else let s = foldl (spill_one env) s spills
                        in (Inr (True, None), if ret = RETENTION_LONG then write_through env s k else s))"

section \<open>Get\<close>

definition promote_from_ssd ::
  "op_env \<Rightarrow> HostStore \<Rightarrow> identity \<Rightarrow> byte list \<Rightarrow> string \<Rightarrow> entry_meta \<Rightarrow> (py_error + Entry option) \<times> HostStore" where
  "promote_from_ssd env s k value ret meta =
     (case host_set env s k value ret meta None of
        (Inl e, s) \<Rightarrow> (Inl e, s)
      | (Inr (True, _), s) \<Rightarrow> (Inr (dict_get (store_entries s) k), s)
      | (Inr (False, _), s) \<Rightarrow> (Inr (Some (make_entry env k value ret meta None)), s))"

text \<open>One SSD tier: \<open>get_entry\<close>, \<open>get_bytes\<close>, promotion.\<close>

definition read_region :: "op_env \<Rightarrow> SsdRegion \<Rightarrow> identity \<Rightarrow> (SsdEntry \<times> byte list) option \<times> SsdRegion" where
  "read_region env r k =
     (case get_entry r k of
        None \<Rightarrow> (None, r)
      | Some e \<Rightarrow>
          (case get_bytes (env_lib env) (env_now env) r k of
             (None, r) \<Rightarrow> (None, r)
           | (Some v, r) \<Rightarrow> (Some (e, v), r)))"

definition promote_hit ::
  "op_env \<Rightarrow> HostStore \<Rightarrow> identity \<Rightarrow> (SsdEntry \<times> byte list) option \<Rightarrow> (py_error + Entry option) \<times> HostStore" where
  "promote_hit env s k hit =
     (case hit of
        None \<Rightarrow> (Inr None, s)
      | Some (e, v) \<Rightarrow>
          (case promote_from_ssd env s k v (ent_retention e) (ent_metadata e) of
             (Inr (Some p), s) \<Rightarrow> (Inr (Some p), bump_hits s)
           | (res, s) \<Rightarrow> (res, s)))"

definition try_long :: "op_env \<Rightarrow> HostStore \<Rightarrow> identity \<Rightarrow> (py_error + Entry option) \<times> HostStore" where
  "try_long env s k =
     (case store_long s of
        None \<Rightarrow> (Inr None, s)
      | Some r \<Rightarrow> (case read_region env r k of (hit, r) \<Rightarrow> promote_hit env (s\<lparr>store_long := Some r\<rparr>) k hit))"

definition try_spillover :: "op_env \<Rightarrow> HostStore \<Rightarrow> identity \<Rightarrow> (py_error + Entry option) \<times> HostStore" where
  "try_spillover env s k =
     (case store_spillover s of
        None \<Rightarrow> (Inr None, s)
      | Some r \<Rightarrow> (case read_region env r k of (hit, r) \<Rightarrow> promote_hit env (s\<lparr>store_spillover := Some r\<rparr>) k hit))"

definition host_get :: "op_env \<Rightarrow> HostStore \<Rightarrow> identity \<Rightarrow> (py_error + Entry option) \<times> HostStore" where
  "host_get env s k =
     (let s = bump_gets s in
      case dict_get (store_entries s) k of
        Some e \<Rightarrow>
          if is_expired (clock_now env) e then (Inr None, bump_misses 1 (remove_entry_locked s k e))
          else let e = e\<lparr>he_last_access := clock_now env\<rparr>
               in (Inr (Some e), bump_hits (s\<lparr>store_entries := dict_put k e (store_entries s)\<rparr>))
      | None \<Rightarrow>
          (case try_long env s k of
             (Inr None, s) \<Rightarrow>
               (case try_spillover env s k of
                  (Inr None, s) \<Rightarrow> (Inr None, bump_misses 1 s)
                | (res, s) \<Rightarrow> (res, s))
           | (res, s) \<Rightarrow> (res, s)))"


section \<open>The other operations\<close>

definition peek_in_ram :: "HostStore \<Rightarrow> identity \<Rightarrow> bool" where
  "peek_in_ram s k \<longleftrightarrow> dict_get (store_entries s) k \<noteq> None"

text \<open>The RAM part of \<open>exists\<close>: expired rows are removed on the way.\<close>

fun exists_ram :: "op_env \<Rightarrow> HostStore \<Rightarrow> identity list \<Rightarrow> bool list \<times> HostStore" where
  "exists_ram env s [] = ([], s)"
| "exists_ram env s (k # ks) =
     (let (b, s) = (case dict_get (store_entries s) k of
                      None \<Rightarrow> (False, s)
                    | Some e \<Rightarrow> if is_expired (clock_now env) e then (False, remove_entry_locked s k e) else (True, s));
          (bs, s) = exists_ram env s ks
      in (b # bs, s))"

definition region_present :: "SsdRegion option \<Rightarrow> identity \<Rightarrow> bool" where
  "region_present r k = (case r of None \<Rightarrow> False | Some r \<Rightarrow> dict_get (region_entries r) k \<noteq> None)"

definition host_exists :: "op_env \<Rightarrow> HostStore \<Rightarrow> identity list \<Rightarrow> bool list \<times> HostStore" where
  "host_exists env s ks =
     (case exists_ram env s ks of
        (ram, s) \<Rightarrow>
          if list_all id ram then (ram, s)
          else let lg = map2 (\<lambda>b k. b \<or> region_present (store_long s) k) ram ks
               in (if list_all id lg then lg else map2 (\<lambda>b k. b \<or> region_present (store_spillover s) k) lg ks, s))"

text \<open>\<open>get_many\<close>: one pass over RAM, then each tier in turn for the keys still missing.\<close>

fun many_ram :: "op_env \<Rightarrow> HostStore \<Rightarrow> identity list \<Rightarrow> Entry option list \<times> HostStore" where
  "many_ram env s [] = ([], s)"
| "many_ram env s (k # ks) =
     (let s = bump_gets s;
          (r, s) = (case dict_get (store_entries s) k of
                      None \<Rightarrow> (None, s)
                    | Some e \<Rightarrow>
                        if is_expired (clock_now env) e then (None, remove_entry_locked s k e)
                        else let e = e\<lparr>he_last_access := clock_now env\<rparr>
                             in (Some e, bump_hits (s\<lparr>store_entries := dict_put k e (store_entries s)\<rparr>)));
          (rs, s) = many_ram env s ks
      in (r # rs, s))"

fun many_tier ::
  "(HostStore \<Rightarrow> identity \<Rightarrow> (py_error + Entry option) \<times> HostStore) \<Rightarrow> HostStore \<Rightarrow> identity list \<Rightarrow>
   Entry option list \<Rightarrow> (py_error + Entry option list) \<times> HostStore" where
  "many_tier tier s (k # ks) (r # rs) =
     (case (case r of Some e \<Rightarrow> (Inr (Some e), s) | None \<Rightarrow> tier s k) of
        (Inl e, s) \<Rightarrow> (Inl e, s)
      | (Inr r, s) \<Rightarrow>
          (case many_tier tier s ks rs of
             (Inl e, s) \<Rightarrow> (Inl e, s)
           | (Inr rs, s) \<Rightarrow> (Inr (r # rs), s)))"
| "many_tier tier s _ _ = (Inr [], s)"

definition host_get_many :: "op_env \<Rightarrow> HostStore \<Rightarrow> identity list \<Rightarrow> (py_error + Entry option list) \<times> HostStore" where
  "host_get_many env s ks =
     (case many_ram env s ks of
        (rs, s) \<Rightarrow>
          (case many_tier (try_long env) s ks rs of
             (Inl e, s) \<Rightarrow> (Inl e, s)
           | (Inr rs, s) \<Rightarrow>
               (case many_tier (try_spillover env) s ks rs of
                  (Inl e, s) \<Rightarrow> (Inl e, s)
                | (Inr rs, s) \<Rightarrow> (Inr rs, bump_misses (length (filter (\<lambda>r. r = None) rs)) s))))"

text \<open>The value and the retention \<open>warm_from_ssd\<close> finds; the retention follows the last tier with
  an entry, as in the code.\<close>

definition warm_read :: "op_env \<Rightarrow> HostStore \<Rightarrow> identity \<Rightarrow> (byte list \<times> string) option \<times> HostStore" where
  "warm_read env s k =
     (let long_hit = (case store_long s of
            None \<Rightarrow> (None, s)
          | Some r \<Rightarrow> (case read_region env r k of (hit, r) \<Rightarrow> (hit, s\<lparr>store_long := Some r\<rparr>)))
      in case long_hit of
           (Some (e, v), s) \<Rightarrow> (Some (v, ent_retention e), s)
         | (None, s) \<Rightarrow>
             (case store_spillover s of
                None \<Rightarrow> (None, s)
              | Some r \<Rightarrow>
                  (case read_region env r k of
                     (None, r) \<Rightarrow> (None, s\<lparr>store_spillover := Some r\<rparr>)
                   | (Some (e, v), r) \<Rightarrow> (Some (v, ent_retention e), s\<lparr>store_spillover := Some r\<rparr>))))"

definition warm_from_ssd :: "op_env \<Rightarrow> HostStore \<Rightarrow> identity \<Rightarrow> real \<Rightarrow> (py_error + bool) \<times> HostStore" where
  "warm_from_ssd env s k ttl =
     (if peek_in_ram s k then (Inr False, s)
      else case warm_read env s k of
             (None, s) \<Rightarrow> (Inr False, s)
           | (Some (v, ret), s) \<Rightarrow>
               (case host_set env s k v (if ret \<noteq> RETENTION_NONE then ret else RETENTION_SHORT) (UserMeta [])
                       (Some (max ttl (1 / 1000))) of
                  (Inl e, s) \<Rightarrow> (Inl e, s)
                | (Inr (accepted, _), s) \<Rightarrow> (Inr accepted, s)))"

text \<open>The index side of the zero-copy save. The slot is \<open>None\<close> for \<open>-1\<close>.\<close>

definition commit_arena_lease ::
  "op_env \<Rightarrow> HostStore \<Rightarrow> identity \<Rightarrow> nat option \<Rightarrow> nat \<Rightarrow> string \<Rightarrow> real option \<Rightarrow> byte list option \<Rightarrow>
   py_error option \<times> HostStore" where
  "commit_arena_lease env s k slot len ret ttl overwritten =
     (case validate_retention ret of
        Inl e \<Rightarrow> (Some e, s)
      | Inr _ \<Rightarrow>
          let expires = (case ttl of None \<Rightarrow> None | Some t \<Rightarrow> if t > 0 then Some (clock_now env + t) else None);
              s = bump_sets s;
              s = (case overwritten of None \<Rightarrow> s | Some key \<Rightarrow> drop_bucket False s key);
              s = (case dict_get (store_entries s) k of
                     Some old \<Rightarrow>
                       s\<lparr>store_entries := dict_put k (old\<lparr>he_value := [], he_slot := slot, he_size_cache := len,
                            he_retention := ret, he_last_access := clock_now env, he_expires_at := expires\<rparr>) (store_entries s),
                         store_used_bytes := (if he_slot old = None then store_used_bytes s - int (size_bytes old)
                                              else store_used_bytes s)\<rparr>
                   | None \<Rightarrow>
                       s\<lparr>store_entries := dict_put k ((make_entry env k [] ret (UserMeta []) expires)
                            \<lparr>he_slot := slot, he_size_cache := len\<rparr>) (store_entries s),
                         store_key_index := key_index_add k (store_key_index s)\<rparr>)
          in (None, drain_arena s))"

definition in_namespace :: "string \<Rightarrow> string \<Rightarrow> identity \<Rightarrow> bool" where
  "in_namespace model ck k \<longleftrightarrow> fst k = model \<and> fst (snd k) = ck"

definition clear_ssd_namespace :: "op_env \<Rightarrow> SsdRegion \<Rightarrow> string \<Rightarrow> string \<Rightarrow> SsdRegion" where
  "clear_ssd_namespace env r model ck =
     foldl (\<lambda>r k. snd (region_remove (env_lib env) r k)) r
       (filter (in_namespace model ck) (map fst (region_entries r)))"

definition host_clear :: "op_env \<Rightarrow> HostStore \<Rightarrow> string \<Rightarrow> string \<Rightarrow> nat \<times> HostStore" where
  "host_clear env s model ck =
     (if model = [] \<and> ck = [] then
        let s1 = foldl release_slot s (map snd (store_entries s))
        in (length (store_entries s),
            s1\<lparr>store_entries := [], store_key_index := [], store_used_bytes := 0,
               store_spillover := map_option (\<lambda>r. snd (region_clear (env_lib env) r)) (store_spillover s1),
               store_long := map_option (\<lambda>r. snd (region_clear (env_lib env) r)) (store_long s1)\<rparr>)
      else
        let doomed = filter (in_namespace model ck \<circ> fst) (store_entries s);
            s1 = foldl (\<lambda>s (k, e). remove_entry_locked s k e) s doomed
        in (length doomed,
            s1\<lparr>store_spillover := map_option (\<lambda>r. clear_ssd_namespace env r model ck) (store_spillover s1),
               store_long := map_option (\<lambda>r. clear_ssd_namespace env r model ck) (store_long s1)\<rparr>))"

text \<open>The bytes the statistics report: inline and arena-backed.\<close>

definition host_bytes :: "HostStore \<Rightarrow> int" where
  "host_bytes s =
     store_used_bytes s +
     (if shared_arena s = None then 0
      else dict_total (\<lambda>e. if he_slot e = None then 0 else int (he_size_cache e)) (store_entries s))"


section \<open>Row accounting\<close>

definition row_identity :: "Entry \<Rightarrow> identity" where
  "row_identity e = (he_model e, he_compat e, he_key e)"

text \<open>The byte counter is the sum of the inline sizes, every row is filed under its own identity, and
  the reverse index lists exactly the rows.\<close>

definition rows_wf :: "HostStore \<Rightarrow> bool" where
  "rows_wf s \<longleftrightarrow> dict_wf (store_entries s) \<and>
     store_used_bytes s = dict_total inline_size (store_entries s) \<and>
     (\<forall>k e. dict_get (store_entries s) k = Some e \<longrightarrow> row_identity e = k) \<and>
     (\<forall>k. dict_get (store_entries s) k \<noteq> None \<longleftrightarrow>
        (\<exists>b. dict_get (store_key_index s) (block_key k) = Some b \<and> k \<in> set b)) \<and>
     (\<forall>key b k. dict_get (store_key_index s) key = Some b \<longrightarrow> k \<in> set b \<longrightarrow> block_key k = key)"

lemma rows_wfD:
  assumes "rows_wf s"
  shows "dict_wf (store_entries s)" "store_used_bytes s = dict_total inline_size (store_entries s)"
    and "dict_get (store_entries s) k = Some e \<Longrightarrow> row_identity e = k"
    and "dict_get (store_entries s) k \<noteq> None \<longleftrightarrow> (\<exists>b. dict_get (store_key_index s) (block_key k) = Some b \<and> k \<in> set b)"
    and "dict_get (store_key_index s) key = Some b \<Longrightarrow> k \<in> set b \<Longrightarrow> block_key k = key"
proof -
  note D = assms [unfolded rows_wf_def]
  show "dict_wf (store_entries s)" "store_used_bytes s = dict_total inline_size (store_entries s)" using D by blast+
  show "row_identity e = k" if "dict_get (store_entries s) k = Some e"
    by (rule D [THEN conjunct2, THEN conjunct2, THEN conjunct1, rule_format, OF that])
  show "dict_get (store_entries s) k \<noteq> None \<longleftrightarrow> (\<exists>b. dict_get (store_key_index s) (block_key k) = Some b \<and> k \<in> set b)"
    by (rule D [THEN conjunct2, THEN conjunct2, THEN conjunct2, THEN conjunct1, rule_format])
  show "block_key k = key" if "dict_get (store_key_index s) key = Some b" "k \<in> set b"
    by (rule D [THEN conjunct2, THEN conjunct2, THEN conjunct2, THEN conjunct2, rule_format, OF that])
qed

lemma rows_wf_cong:
  assumes "store_entries s' = store_entries s" "store_key_index s' = store_key_index s" "store_used_bytes s' = store_used_bytes s"
  shows "rows_wf s' = rows_wf s"
  unfolding rows_wf_def assms ..

lemma rows_wf_same [simp]:
  "rows_wf (s\<lparr>store_stats := x\<rparr>) = rows_wf s" "rows_wf (s\<lparr>shared_arena := a\<rparr>) = rows_wf s"
  "rows_wf (s\<lparr>store_long := r\<rparr>) = rows_wf s" "rows_wf (s\<lparr>store_spillover := r\<rparr>) = rows_wf s"
  "rows_wf (release_slot s e) = rows_wf s" "rows_wf (bump_evictions s) = rows_wf s"
  "rows_wf (bump_gets s) = rows_wf s" "rows_wf (bump_sets s) = rows_wf s" "rows_wf (bump_hits s) = rows_wf s"
  "rows_wf (bump_misses n s) = rows_wf s" "rows_wf (bump_rejections s) = rows_wf s"
  by (rule rows_wf_cong; simp add: release_slot_def bump_evictions_def bump_gets_def bump_sets_def bump_hits_def
        bump_misses_def bump_rejections_def)+

lemma resolve_fields [simp]:
  "store_entries (snd (resolve_value s e)) = store_entries s" "store_key_index (snd (resolve_value s e)) = store_key_index s"
  "store_used_bytes (snd (resolve_value s e)) = store_used_bytes s" "store_max_bytes (snd (resolve_value s e)) = store_max_bytes s"
  "store_long (snd (resolve_value s e)) = store_long s" "store_spillover (snd (resolve_value s e)) = store_spillover s"
  by (simp_all add: resolve_value_def split: option.split prod.split)

lemma rows_wf_resolve [simp]: "rows_wf (snd (resolve_value s e)) = rows_wf s"
  by (rule rows_wf_cong) simp_all

lemma index_remove:
  assumes "\<And>key b i. dict_get idx key = Some b \<Longrightarrow> i \<in> set b \<Longrightarrow> block_key i = key"
  shows "(\<exists>b. dict_get (key_index_remove k idx) key = Some b \<and> i \<in> set b) \<longleftrightarrow>
    i \<noteq> k \<and> (\<exists>b. dict_get idx key = Some b \<and> i \<in> set b)"
proof (cases "dict_get idx (block_key k)")
  case None
  then have "\<not> (\<exists>b. dict_get idx key = Some b \<and> k \<in> set b)" using assms by (metis option.distinct(1))
  with None show ?thesis by (auto simp: key_index_remove_def)
next
  case (Some bucket)
  have "key = block_key k" if "dict_get idx key = Some b" "k \<in> set b" for b using assms [OF that] by simp
  then show ?thesis
    using Some by (auto simp: key_index_remove_def Let_def dict_get_put dict_get_del removeAll_filter_not_eq filter_empty_conv)
qed

lemma index_add:
  assumes "\<And>key b i. dict_get idx key = Some b \<Longrightarrow> i \<in> set b \<Longrightarrow> block_key i = key"
  shows "(\<exists>b. dict_get (key_index_add k idx) key = Some b \<and> i \<in> set b) \<longleftrightarrow>
    i = k \<and> key = block_key k \<or> (\<exists>b. dict_get idx key = Some b \<and> i \<in> set b)"
  by (cases "dict_get idx (block_key k)") (auto simp: key_index_add_def dict_get_put)

lemma inline_size_alt: "inline_size e = (if he_slot e = None then int (size_bytes e) else 0)"
  by (simp add: inline_size_def size_bytes_def split: option.split)

lemma rows_wf_pop:
  assumes "rows_wf s" and "dict_get (store_entries s) k = Some e"
  shows "rows_wf (pop_row s k e)"
proof -
  note D = rows_wfD [OF assms(1)]
  have R: "(\<exists>b. dict_get (key_index_remove k (store_key_index s)) key = Some b \<and> i \<in> set b) \<longleftrightarrow>
    i \<noteq> k \<and> (\<exists>b. dict_get (store_key_index s) key = Some b \<and> i \<in> set b)" for key i
    by (rule index_remove) (rule D(5))
  have "dict_get (dict_del k (store_entries s)) i \<noteq> None \<longleftrightarrow>
      (\<exists>b. dict_get (key_index_remove k (store_key_index s)) (block_key i) = Some b \<and> i \<in> set b)" for i
    unfolding R using D(4) [of i] by (simp only: dict_get_del) simp
  moreover have "block_key i = key" if "dict_get (key_index_remove k (store_key_index s)) key = Some b" "i \<in> set b" for key b i
    using R [of key i] D(5) [of key _ i] that by blast
  moreover have "\<forall>i x. dict_get (dict_del k (store_entries s)) i = Some x \<longrightarrow> row_identity x = i"
    using D(3) by (simp add: dict_get_del)
  moreover have "store_used_bytes (pop_row s k e) = dict_total inline_size (dict_del k (store_entries s))"
    unfolding dict_total_del [OF D(1) assms(2)] by (simp add: pop_row_def D(2) inline_size_alt)
  ultimately show ?thesis
    unfolding rows_wf_def using dict_wf_del [OF D(1), of k] by (simp add: pop_row_def)
qed

text \<open>Replacing the contents of a row.\<close>

lemma rows_wf_update:
  assumes "rows_wf s" and "dict_get (store_entries s) k = Some old" and "row_identity e = k"
    and "store_entries s' = dict_put k e (store_entries s)" and "store_key_index s' = store_key_index s"
    and "store_used_bytes s' = store_used_bytes s - inline_size old + inline_size e"
  shows "rows_wf s'"
proof -
  note D = rows_wfD [OF assms(1)]
  have "\<forall>i x. dict_get (store_entries s') i = Some x \<longrightarrow> row_identity x = i"
    using D(3) assms(3) by (simp add: assms(4) dict_get_put)
  moreover have "dict_get (store_entries s') i \<noteq> None \<longleftrightarrow> dict_get (store_entries s) i \<noteq> None" for i
    using assms(2) by (simp add: assms(4) dict_get_put)
  moreover have "store_used_bytes s' = dict_total inline_size (store_entries s')"
    unfolding assms(4,6) dict_total_put [OF D(1) assms(2)] by (simp add: D(2))
  moreover have "dict_wf (store_entries s')" by (simp only: assms(4) dict_wf_put [OF D(1)])
  ultimately show ?thesis
    unfolding rows_wf_def assms(5) using D(4,5) by (simp only: simp_thms) blast
qed

lemma rows_wf_insert:
  assumes "rows_wf s" and "dict_get (store_entries s) k = None" and "row_identity e = k"
    and "store_entries s' = dict_put k e (store_entries s)" and "store_key_index s' = key_index_add k (store_key_index s)"
    and "store_used_bytes s' = store_used_bytes s + inline_size e"
  shows "rows_wf s'"
proof -
  note D = rows_wfD [OF assms(1)]
  have R: "(\<exists>b. dict_get (store_key_index s') key = Some b \<and> i \<in> set b) \<longleftrightarrow>
    i = k \<and> key = block_key k \<or> (\<exists>b. dict_get (store_key_index s) key = Some b \<and> i \<in> set b)" for key i
    unfolding assms(5) by (rule index_add) (rule D(5))
  have "\<forall>i x. dict_get (store_entries s') i = Some x \<longrightarrow> row_identity x = i"
    using D(3) assms(3) by (simp add: assms(4) dict_get_put)
  moreover have "dict_get (store_entries s') i \<noteq> None \<longleftrightarrow>
      (\<exists>b. dict_get (store_key_index s') (block_key i) = Some b \<and> i \<in> set b)" for i
    unfolding R using D(4) [of i] by (cases "i = k") (simp_all only: assms(4) dict_get_put, simp_all)
  moreover have "block_key i = key" if "dict_get (store_key_index s') key = Some b" "i \<in> set b" for key b i
    using R [of key i] D(5) [of key _ i] that by blast
  moreover have "store_used_bytes s' = dict_total inline_size (store_entries s')"
    unfolding assms(4,6) dict_total_put_new [OF assms(2)] by (simp add: D(2))
  moreover have "dict_wf (store_entries s')" by (simp only: assms(4) dict_wf_put [OF D(1)])
  ultimately show ?thesis unfolding rows_wf_def by blast
qed


section \<open>Victims and loops\<close>

text \<open>The victim: unprotected, of the lowest priority present, least recently used among these.\<close>

definition rank_le :: "nat \<times> real \<Rightarrow> nat \<times> real \<Rightarrow> bool" where
  "rank_le x y \<longleftrightarrow> fst x < fst y \<or> fst x = fst y \<and> snd x \<le> snd y"

definition rank_of :: "Entry \<Rightarrow> nat \<times> real" where
  "rank_of e = (priority (he_retention e), he_last_access e)"

lemma rank_le_trans: "rank_le x y \<Longrightarrow> rank_le y z \<Longrightarrow> rank_le x z"
  by (auto simp: rank_le_def)

lemma rank_le_refl: "rank_le x x"
  by (simp add: rank_le_def)

lemma rank_le_total: "\<not> (fst x < fst y \<or> fst x = fst y \<and> snd x < snd y) \<Longrightarrow> rank_le y x"
  by (auto simp: rank_le_def)

lemma rank_le_strict: "fst x < fst y \<or> fst x = fst y \<and> snd x < snd y \<Longrightarrow> rank_le x y"
  by (auto simp: rank_le_def)

lemma victim_scan_spec:
  assumes "victim_scan inc best es = Some k"
  shows "\<exists>x. (best = Some (k, x) \<or> (\<exists>e. (k, e) \<in> set es \<and> x = rank_of e \<and> fst x \<le> inc)) \<and>
    (\<forall>i e. (i, e) \<in> set es \<longrightarrow> fst (rank_of e) \<le> inc \<longrightarrow> rank_le x (rank_of e)) \<and>
    (\<forall>b. best = Some b \<longrightarrow> rank_le x (snd b))"
  using assms
proof (induction es arbitrary: best)
  case Nil
  then show ?case by (cases best) (auto simp: rank_le_refl)
next
  case (Cons y es)
  obtain i e where y: "y = (i, e)" by (cases y)
  let ?keep = "fst (rank_of e) > inc \<or> (\<exists>b. best = Some b \<and> \<not> (fst (rank_of e) < fst (snd b) \<or>
      fst (rank_of e) = fst (snd b) \<and> snd (rank_of e) < snd (snd b)))"
  show ?case
  proof (cases ?keep)
    case True
    then have "victim_scan inc best es = Some k"
      using Cons.prems by (cases best) (auto simp: y rank_of_def Let_def split: if_splits)
    from Cons.IH [OF this] obtain x where
      x: "best = Some (k, x) \<or> (\<exists>e. (k, e) \<in> set es \<and> x = rank_of e \<and> fst x \<le> inc)"
      "\<forall>i e. (i, e) \<in> set es \<longrightarrow> fst (rank_of e) \<le> inc \<longrightarrow> rank_le x (rank_of e)" "\<forall>b. best = Some b \<longrightarrow> rank_le x (snd b)"
      by blast
    have "rank_le x (rank_of e)" if "fst (rank_of e) \<le> inc"
    proof -
      have "\<not> fst (rank_of e) > inc" using that by simp
      with True obtain b where b: "best = Some b" "\<not> (fst (rank_of e) < fst (snd b) \<or>
        fst (rank_of e) = fst (snd b) \<and> snd (rank_of e) < snd (snd b))" by blast
      from rank_le_total [OF b(2)] b(1)
      show ?thesis using x(3) rank_le_trans by blast
    qed
    with x show ?thesis unfolding y list.set by blast
  next
    case False
    then have "victim_scan inc (Some (i, rank_of e)) es = Some k"
      using Cons.prems by (cases best) (auto simp: y rank_of_def Let_def split: if_splits)
    from Cons.IH [OF this] obtain x where
      x: "(i, rank_of e) = (k, x) \<or> (\<exists>e. (k, e) \<in> set es \<and> x = rank_of e \<and> fst x \<le> inc)"
      "\<forall>i e. (i, e) \<in> set es \<longrightarrow> fst (rank_of e) \<le> inc \<longrightarrow> rank_le x (rank_of e)" "rank_le x (rank_of e)"
      by auto
    have "rank_le x (snd b)" if "best = Some b" for b
      using False that x(3) rank_le_strict [of "rank_of e" "snd b"] rank_le_trans by blast
    moreover have "fst (rank_of e) \<le> inc" using False by simp
    ultimately show ?thesis using x unfolding y list.set by (intro exI [of _ x]) auto
  qed
qed

lemma pick_victim_spec:
  assumes "dict_wf (store_entries s)" and "pick_victim s ret = Some k" and "dict_get (store_entries s) k = Some e"
  shows "priority (he_retention e) \<le> priority ret"
    and "dict_get (store_entries s) i = Some e' \<Longrightarrow> priority (he_retention e) \<le> priority (he_retention e') \<and>
      (priority (he_retention e') = priority (he_retention e) \<longrightarrow> he_last_access e \<le> he_last_access e')"
proof -
  obtain x e0 where e0: "(k, e0) \<in> set (store_entries s)" "x = rank_of e0" "fst x \<le> priority ret"
    and le: "\<forall>i e. (i, e) \<in> set (store_entries s) \<longrightarrow> fst (rank_of e) \<le> priority ret \<longrightarrow> rank_le x (rank_of e)"
    using victim_scan_spec [OF assms(2) [unfolded pick_victim_def]] by blast
  have x: "x = rank_of e" using e0 assms(1,3) by simp
  show p: "priority (he_retention e) \<le> priority ret" using x e0(3) by (simp add: rank_of_def)
  show "priority (he_retention e) \<le> priority (he_retention e') \<and>
      (priority (he_retention e') = priority (he_retention e) \<longrightarrow> he_last_access e \<le> he_last_access e')"
    if "dict_get (store_entries s) i = Some e'"
  proof (cases "priority (he_retention e') \<le> priority ret")
    case True
    then have "rank_le x (rank_of e')" using le map_of_SomeD [OF that] by (simp add: rank_of_def)
    then show ?thesis by (auto simp: x rank_le_def rank_of_def)
  qed (use p in auto)
qed

lemma victim_scan_None: "victim_scan inc best es = None \<Longrightarrow> best = None \<and> (\<forall>(k, e) \<in> set es. priority (he_retention e) > inc)"
proof (induction es arbitrary: best)
  case (Cons x es)
  obtain i e where x: "x = (i, e)" by (cases x)
  from Cons.prems show ?case
    unfolding x victim_scan.simps Let_def
    by (auto dest!: Cons.IH split: if_splits option.splits)
qed auto

lemma pick_victim_None:
  "pick_victim s ret = None \<Longrightarrow> dict_get (store_entries s) k = Some e \<Longrightarrow> priority (he_retention e) > priority ret"
  unfolding pick_victim_def by (drule victim_scan_None) (auto dest: map_of_SomeD)


text \<open>What the eviction loop keeps, given what it does to one victim.\<close>

lemma evict_for_keeps:
  assumes "evict_for demand ret s = (sps, s', ok)" and "P s"
    and "\<And>s k e. P s \<Longrightarrow> pick_victim s ret = Some k \<Longrightarrow> dict_get (store_entries s) k = Some e \<Longrightarrow>
      P (evict_locked (snd (collect_for_spillover s k)) k e)"
  shows "P s'"
  using assms
proof (induction demand ret s arbitrary: sps s' ok rule: evict_for.induct)
  case (1 demand ret s)
  show ?case
  proof (cases "store_used_bytes s + int demand \<le> int (store_max_bytes s) \<or> pick_victim s ret = None")
    case True
    then show ?thesis using 1(2,3) by (auto simp: evict_for.simps [of demand ret s] split: option.splits if_splits)
  next
    case False
    then obtain k where k: "pick_victim s ret = Some k" by blast
    obtain e where e: "dict_get (store_entries s) k = Some e"
      using pick_victim_in [OF k] by (cases "dict_get (store_entries s) k") (auto simp: dict_get_None_iff)
    obtain sp s1 where c: "collect_for_spillover s k = (sp, s1)" by (cases "collect_for_spillover s k")
    obtain sps' s2 ok' where r: "evict_for demand ret (evict_locked s1 k e) = (sps', s2, ok')"
      by (cases "evict_for demand ret (evict_locked s1 k e)")
    have "s' = s2" using 1(2) False k e c r by (simp add: evict_for.simps [of demand ret s])
    moreover have "P (evict_locked s1 k e)" using 1(4) [OF 1(3) k e] c by simp
    moreover have "\<not> store_used_bytes s + int demand \<le> int (store_max_bytes s)" using False by blast
    ultimately show ?thesis using 1(1) [OF _ k e c [symmetric] refl r _ 1(4)] by blast
  qed
qed

lemma collect_fields [simp]:
  "store_key_index (snd (collect_for_spillover s k)) = store_key_index s"
  "store_used_bytes (snd (collect_for_spillover s k)) = store_used_bytes s"
  "store_max_bytes (snd (collect_for_spillover s k)) = store_max_bytes s"
  "store_long (snd (collect_for_spillover s k)) = store_long s"
  "store_spillover (snd (collect_for_spillover s k)) = store_spillover s"
  by (simp_all add: collect_for_spillover_def resolve_value_def split: option.split prod.split)

lemma rows_wf_collect [simp]: "rows_wf (snd (collect_for_spillover s k)) = rows_wf s"
  by (rule rows_wf_cong) simp_all

lemma rows_wf_evict: "rows_wf s \<Longrightarrow> dict_get (store_entries s) k = Some e \<Longrightarrow> rows_wf (evict_locked s k e)"
  by (simp add: evict_locked_def rows_wf_pop)

lemma rows_wf_remove: "rows_wf s \<Longrightarrow> dict_get (store_entries s) k = Some e \<Longrightarrow> rows_wf (remove_entry_locked s k e)"
  by (simp add: remove_entry_locked_def rows_wf_pop)

lemma rows_wf_evict_for: "rows_wf s \<Longrightarrow> evict_for demand ret s = (sps, s', ok) \<Longrightarrow> rows_wf s'"
  by (erule evict_for_keeps) (auto intro: rows_wf_evict)

text \<open>What dropping rows keeps.\<close>

lemma drop_bucket_keeps:
  assumes "P s" and "\<And>s k e. P s \<Longrightarrow> dict_get (store_entries s) k = Some e \<Longrightarrow> P (pop_row s k e)"
    and "\<And>s. P s \<Longrightarrow> P (bump_evictions s)"
  shows "P (drop_bucket ev s key)"
proof -
  have "P (foldl (drop_row ev) s ids)" if "P s" for ids s
    using that by (induction ids arbitrary: s) (auto simp: drop_row_def assms(2,3) split: option.split)
  with assms(1) show ?thesis by (simp add: drop_bucket_def split: option.split)
qed

lemma drop_buckets_keeps:
  assumes "P s" and "\<And>s k e. P s \<Longrightarrow> dict_get (store_entries s) k = Some e \<Longrightarrow> P (pop_row s k e)"
    and "\<And>s. P s \<Longrightarrow> P (bump_evictions s)"
  shows "P (foldl (drop_bucket ev) s keys)"
  using assms(1) by (induction keys arbitrary: s) (auto intro: drop_bucket_keeps [where P = P] assms(2,3))

lemma rows_wf_drop_bucket: "rows_wf s \<Longrightarrow> rows_wf (drop_bucket ev s key)"
  by (rule drop_bucket_keeps) (auto intro: rows_wf_pop)

lemma rows_wf_drain: "rows_wf s \<Longrightarrow> rows_wf (drain_arena s)"
  unfolding drain_arena_def
  by (auto simp: drain_recent_evictions_def intro!: drop_buckets_keeps [where P = rows_wf] rows_wf_pop split: option.split)

lemma store_bytes_fields:
  assumes "store_bytes s key v = (res, s')"
  shows "store_entries s' = store_entries s" "store_key_index s' = store_key_index s" "store_used_bytes s' = store_used_bytes s"
    "store_max_bytes s' = store_max_bytes s" "store_long s' = store_long s" "store_spillover s' = store_spillover s"
    "(shared_arena s' = None) = (shared_arena s = None)"
  using assms by (auto simp: store_bytes_def split: option.splits prod.splits)

lemma make_entry_fields [simp]:
  "row_identity (make_entry env k v ret meta ex) = k" "he_slot (make_entry env k v ret meta ex) = None"
  "he_value (make_entry env k v ret meta ex) = v" "he_retention (make_entry env k v ret meta ex) = ret"
  "he_expires_at (make_entry env k v ret meta ex) = ex"
  by (simp_all add: make_entry_def row_identity_def split: prod.split)

lemma row_identity_update [simp]:
  "row_identity (e\<lparr>he_value := v\<rparr>) = row_identity e" "row_identity (e\<lparr>he_slot := sl\<rparr>) = row_identity e"
  "row_identity (e\<lparr>he_size_cache := n\<rparr>) = row_identity e" "row_identity (e\<lparr>he_retention := r\<rparr>) = row_identity e"
  "row_identity (e\<lparr>he_last_access := t\<rparr>) = row_identity e" "row_identity (e\<lparr>he_metadata := m\<rparr>) = row_identity e"
  "row_identity (e\<lparr>he_expires_at := x\<rparr>) = row_identity e" "row_identity (place s slot v e) = row_identity e"
  by (simp_all add: row_identity_def place_def split: option.split)

lemma inline_size_update:
  "inline_size (e\<lparr>he_retention := r\<rparr>) = inline_size e" "inline_size (e\<lparr>he_last_access := t\<rparr>) = inline_size e"
  "inline_size (e\<lparr>he_metadata := m\<rparr>) = inline_size e" "inline_size (e\<lparr>he_expires_at := x\<rparr>) = inline_size e"
  by (simp_all add: inline_size_def split: option.split)

lemma rows_wf_set_existing:
  assumes "rows_wf s" and "dict_get (store_entries s) k = Some old"
  shows "rows_wf (snd (set_existing env s k old v ret meta ex))"
proof (cases "store_bytes s (block_key k) v")
  case (Pair res s')
  note F = store_bytes_fields [OF Pair]
  have wf: "rows_wf s'" using assms(1) rows_wf_cong [OF F(1-3)] by simp
  have id: "row_identity old = k" by (rule rows_wfD(3) [OF assms])
  have "rows_wf (replace_row s' k old e)" if "row_identity e = k" for e
    by (rule rows_wf_update [OF wf _ that]) (use assms(2) F(1) in \<open>simp_all add: replace_row_def\<close>)
  then show ?thesis
    using assms(1) wf id by (auto simp: set_existing_def Pair Let_def intro!: rows_wf_drain split: sum.split)
qed

lemma rows_wf_set_new:
  assumes "rows_wf s" and "dict_get (store_entries s) k = None"
  shows "rows_wf (snd (set_new env s k v ret meta ex))"
proof (cases "evict_for (if would_use_arena s (length v) then 0 else length v) ret s")
  case (fields sps s1 ok)
  have wf1: "rows_wf s1" by (rule rows_wf_evict_for [OF assms(1) fields])
  have none: "dict_get (store_entries s1) k = None"
    by (rule evict_for_keeps [OF fields, where P = "\<lambda>s. dict_get (store_entries s) k = None"])
      (simp_all add: assms(2), simp add: evict_locked_def bump_evictions_def release_slot_def pop_row_def dict_get_del)
  obtain res s2 where b: "store_bytes s1 (block_key k) v = (res, s2)" by (cases "store_bytes s1 (block_key k) v")
  note F = store_bytes_fields [OF b]
  have wf2: "rows_wf s2" using wf1 rows_wf_cong [OF F(1-3)] by simp
  have "rows_wf (add_row s2 k e)" if "row_identity e = k" for e
    by (rule rows_wf_insert [OF wf2 _ that]) (use none F(1) in \<open>simp_all add: add_row_def inline_size_alt\<close>)
  then show ?thesis
    using assms(1) wf1 wf2
    by (cases ok) (auto simp: set_new_def fields b Let_def intro!: rows_wf_drain split: sum.split)
qed

lemma after_ram_fields [simp]:
  "store_entries (spill_one env s x) = store_entries s" "store_key_index (spill_one env s x) = store_key_index s"
  "store_used_bytes (spill_one env s x) = store_used_bytes s" "shared_arena (spill_one env s x) = shared_arena s"
  "store_entries (write_through env s k) = store_entries s" "store_key_index (write_through env s k) = store_key_index s"
  "store_used_bytes (write_through env s k) = store_used_bytes s"
  by (simp_all add: spill_one_def write_through_def split: prod.split option.split)
    (metis resolve_fields snd_conv)+

lemma spills_fields [simp]:
  "store_entries (foldl (spill_one env) s xs) = store_entries s" "store_key_index (foldl (spill_one env) s xs) = store_key_index s"
  "store_used_bytes (foldl (spill_one env) s xs) = store_used_bytes s" "shared_arena (foldl (spill_one env) s xs) = shared_arena s"
  by (induction xs arbitrary: s) simp_all

lemma rows_wf_set:
  assumes "rows_wf s"
  shows "rows_wf (snd (host_set env s k v ret meta ttl))"
proof -
  let ?s = "bump_sets s"
  have wf: "rows_wf ?s" using assms by simp
  let ?ram = "case dict_get (store_entries ?s) k of Some old \<Rightarrow> set_existing env ?s k old v ret meta (map_option (\<lambda>t. clock_now env + t) ttl)
    | None \<Rightarrow> set_new env ?s k v ret meta (map_option (\<lambda>t. clock_now env + t) ttl)"
  obtain res s1 where r: "?ram = (res, s1)" by (cases ?ram)
  have "rows_wf (snd ?ram)" using rows_wf_set_existing [OF wf] rows_wf_set_new [OF wf] by (simp split: option.split)
  then have wf1: "rows_wf s1" by (simp add: r)
  have sp: "rows_wf (foldl (spill_one env) s1 xs)" for xs using wf1 by (subst rows_wf_cong [of _ s1]) simp_all
  have wt: "rows_wf (write_through env (foldl (spill_one env) s1 xs) k)" for xs using wf1 by (subst rows_wf_cong [of _ s1]) simp_all
  show ?thesis
    using assms wf1 sp wt unfolding host_set_def Let_def r by (auto split: sum.split prod.split)
qed


section \<open>Invariants of the store\<close>

text \<open>What the reads and the prefetch keep, once for every invariant: \<open>live\<close> holds between
  operations that return, \<open>inv\<close> also after one that raised; \<open>ok\<close> says which bytes may be
  filed under an identity.\<close>

locale store_invariant =
  fixes live inv :: "HostStore \<Rightarrow> bool" and ok :: "identity \<Rightarrow> byte list \<Rightarrow> bool" and lib :: ssd_lib
  assumes live_inv: "live s \<Longrightarrow> inv s"
    and live_stats: "live s \<Longrightarrow> live (s\<lparr>store_stats := x\<rparr>)"
    and live_touch: "live s \<Longrightarrow> dict_get (store_entries s) k = Some e \<Longrightarrow>
      live (s\<lparr>store_entries := dict_put k (e\<lparr>he_last_access := t\<rparr>) (store_entries s)\<rparr>)"
    and live_remove: "live s \<Longrightarrow> dict_get (store_entries s) k = Some e \<Longrightarrow> live (remove_entry_locked s k e)"
    and live_long: "live s \<Longrightarrow> store_long s = Some r \<Longrightarrow> env_lib env = lib \<Longrightarrow> read_region env r k = (hit, r') \<Longrightarrow>
      live (s\<lparr>store_long := Some r'\<rparr>) \<and> (\<forall>e v. hit = Some (e, v) \<longrightarrow> ok k v)"
    and live_spillover: "live s \<Longrightarrow> store_spillover s = Some r \<Longrightarrow> env_lib env = lib \<Longrightarrow> read_region env r k = (hit, r') \<Longrightarrow>
      live (s\<lparr>store_spillover := Some r'\<rparr>) \<and> (\<forall>e v. hit = Some (e, v) \<longrightarrow> ok k v)"
    and live_set: "live s \<Longrightarrow> ok k v \<Longrightarrow> env_lib env = lib \<Longrightarrow> host_set env s k v ret meta ttl = (res, s') \<Longrightarrow>
      inv s' \<and> (\<forall>x. res = Inr x \<longrightarrow> live s')"
begin

definition settled :: "(py_error + 'a) \<times> HostStore \<Rightarrow> bool" where
  "settled p \<longleftrightarrow> inv (snd p) \<and> (\<forall>x. fst p = Inr x \<longrightarrow> live (snd p))"

lemma settledI: "live s \<Longrightarrow> settled (res, s)"
  by (simp add: settled_def live_inv)

lemma settled_live: "settled (Inr x, s) \<Longrightarrow> live s"
  by (simp add: settled_def)

lemma live_bumps:
  "live s \<Longrightarrow> live (bump_gets s)" "live s \<Longrightarrow> live (bump_hits s)" "live s \<Longrightarrow> live (bump_misses n s)"
  "live s \<Longrightarrow> live (bump_sets s)"
  by (simp_all add: bump_gets_def bump_hits_def bump_misses_def bump_sets_def live_stats)

lemma set_settled: "live s \<Longrightarrow> ok k v \<Longrightarrow> env_lib env = lib \<Longrightarrow> settled (host_set env s k v ret meta ttl)"
  using live_set [of s k v env] by (cases "host_set env s k v ret meta ttl") (simp add: settled_def)

lemma promote_settled:
  assumes "live s" and "\<forall>e v. hit = Some (e, v) \<longrightarrow> ok k v" and "env_lib env = lib"
  shows "settled (promote_hit env s k hit)"
proof (cases hit)
  case (Some x)
  obtain e v where x: "x = (e, v)" by (cases x)
  obtain res s' where h: "host_set env s k v (ent_retention e) (ent_metadata e) None = (res, s')"
    by (cases "host_set env s k v (ent_retention e) (ent_metadata e) None")
  have "settled (res, s')" using set_settled [OF assms(1) _ assms(3), of k v] assms(2) Some x h by metis
  then show ?thesis
    by (auto simp: promote_hit_def promote_from_ssd_def Some x h settled_def live_bumps live_inv
        split: sum.split option.split bool.split)
qed (simp add: promote_hit_def settledI assms(1))

lemma try_long_settled: "live s \<Longrightarrow> env_lib env = lib \<Longrightarrow> settled (try_long env s k)"
  using live_long [of s _ env k]
  by (auto simp: try_long_def settledI intro!: promote_settled split: option.split prod.split)

lemma try_spillover_settled: "live s \<Longrightarrow> env_lib env = lib \<Longrightarrow> settled (try_spillover env s k)"
  using live_spillover [of s _ env k]
  by (auto simp: try_spillover_def settledI intro!: promote_settled split: option.split prod.split)

lemma get_settled:
  assumes "live s" and "env_lib env = lib"
  shows "settled (host_get env s k)"
proof (cases "dict_get (store_entries s) k")
  case (Some e)
  then have "live (bump_hits ((bump_gets s)\<lparr>store_entries := dict_put k (e\<lparr>he_last_access := clock_now env\<rparr>) (store_entries s)\<rparr>))"
    "live (bump_misses 1 (remove_entry_locked (bump_gets s) k e))"
    using live_touch [of "bump_gets s" k e] live_remove [of "bump_gets s" k e] live_bumps assms(1)
    by (auto simp: bump_gets_def)
  moreover have "store_entries (bump_gets s) = store_entries s" by (simp add: bump_gets_def)
  ultimately show ?thesis using Some by (simp add: host_get_def Let_def settledI)
next
  case None
  have g: "live (bump_gets s)" using assms(1) live_bumps by blast
  obtain r1 s1 where l: "try_long env (bump_gets s) k = (r1, s1)" by (cases "try_long env (bump_gets s) k")
  obtain r2 s2 where sp: "try_spillover env s1 k = (r2, s2)" by (cases "try_spillover env s1 k")
  have s1: "settled (r1, s1)" using try_long_settled [OF g assms(2), of k] l by simp
  have "settled (r2, s2)" if "r1 = Inr None"
    using try_spillover_settled [OF settled_live assms(2), of None s1 k] s1 sp that by simp
  moreover have "store_entries (bump_gets s) = store_entries s" by (simp add: bump_gets_def)
  ultimately show ?thesis using None s1
    by (auto simp: host_get_def Let_def l sp settled_def live_inv live_bumps split: sum.split option.split)
qed

lemma exists_live: "live s \<Longrightarrow> live (snd (exists_ram env s ks))"
proof (induction ks arbitrary: s)
  case (Cons k ks)
  then show ?case using live_remove [OF Cons.prems, of k] by (simp add: Let_def case_prod_beta split: option.split)
qed simp

lemma host_exists_live: "live s \<Longrightarrow> live (snd (host_exists env s ks))"
  using exists_live [of s env ks] by (auto simp: host_exists_def Let_def split: prod.split)

lemma many_ram_live: "live s \<Longrightarrow> live (snd (many_ram env s ks))"
proof (induction ks arbitrary: s)
  case (Cons k ks)
  have "live (bump_hits ((bump_gets s)\<lparr>store_entries := dict_put k (e\<lparr>he_last_access := clock_now env\<rparr>) (store_entries (bump_gets s))\<rparr>))"
    "live (remove_entry_locked (bump_gets s) k e)" if "dict_get (store_entries (bump_gets s)) k = Some e" for e
    using live_touch [OF live_bumps(1) that] live_remove [OF live_bumps(1) that] live_bumps(2) Cons.prems by blast+
  moreover have "live (bump_gets s)" using live_bumps Cons.prems by blast
  ultimately show ?case using Cons.IH
    by (auto simp: Let_def split: option.split prod.split) (metis snd_conv)+
qed simp

lemma many_tier_settled:
  assumes "\<And>s k. live s \<Longrightarrow> settled (tier s k)" and "live s"
  shows "settled (many_tier tier s ks rs)"
  using assms(2)
proof (induction ks arbitrary: s rs)
  case (Cons k ks)
  show ?case
  proof (cases rs)
    case rs: (Cons r rs')
    obtain r1 s1 where t: "(case r of Some e \<Rightarrow> (Inr (Some e), s) | None \<Rightarrow> tier s k) = (r1, s1)"
      by (cases "case r of Some e \<Rightarrow> (Inr (Some e), s) | None \<Rightarrow> tier s k")
    have s1: "settled (r1, s1)" using t assms(1) [OF Cons.prems, of k] settledI [OF Cons.prems] by (cases r) auto
    obtain r2 s2 where m: "many_tier tier s1 ks rs' = (r2, s2)" by (cases "many_tier tier s1 ks rs'")
    have "settled (r2, s2)" if "r1 = Inr y" for y using Cons.IH [of s1 rs'] settled_live s1 that m by metis
    then show ?thesis using s1 by (auto simp: rs t m settled_def split: sum.split)
  qed (simp add: settledI Cons.prems)
qed (simp add: settledI)

lemma get_many_settled:
  assumes "live s" and "env_lib env = lib"
  shows "settled (host_get_many env s ks)"
proof -
  obtain rs s1 where a: "many_ram env s ks = (rs, s1)" by (cases "many_ram env s ks")
  obtain r2 s2 where b: "many_tier (try_long env) s1 ks rs = (r2, s2)" by (cases "many_tier (try_long env) s1 ks rs")
  have l1: "live s1" using many_ram_live [OF assms(1), of env ks] a by simp
  have s2: "settled (r2, s2)" using many_tier_settled [of "try_long env", OF try_long_settled l1] assms(2) b by metis
  have "settled (many_tier (try_spillover env) s2 ks rs')" if "r2 = Inr rs'" for rs'
    using many_tier_settled [of "try_spillover env", OF try_spillover_settled] settled_live s2 that assms(2) by metis
  then show ?thesis using s2
    by (auto simp: host_get_many_def a b settled_def live_bumps live_inv split: sum.split prod.split)
qed

lemma warm_settled:
  assumes "live s" and "env_lib env = lib"
  shows "settled (warm_from_ssd env s k ttl)"
proof -
  obtain hit s1 where w: "warm_read env s k = (hit, s1)" by (cases "warm_read env s k")
  have "live s1 \<and> (\<forall>v ret. hit = Some (v, ret) \<longrightarrow> ok k v)"
    using w live_long [OF assms(1) _ assms(2), of _ k] live_spillover [OF _ _ assms(2), of _ _ k] assms(1)
    by (auto simp: warm_read_def Let_def split: option.splits prod.splits)
  then show ?thesis
    using set_settled [OF _ _ assms(2), of s1 k] assms(1)
    by (auto simp: warm_from_ssd_def w settledI settled_def live_inv split: option.split sum.split prod.split) (metis fst_conv snd_conv)+
qed

end

interpretation rows: store_invariant rows_wf rows_wf "\<lambda>_ _. True" lib for lib
proof
  show "rows_wf (s\<lparr>store_entries := dict_put k (e\<lparr>he_last_access := t\<rparr>) (store_entries s)\<rparr>)"
    if "rows_wf s" "dict_get (store_entries s) k = Some e" for s k e t
    by (rule rows_wf_update [OF that, of "e\<lparr>he_last_access := t\<rparr>"])
      (use rows_wfD(3) [OF that] in \<open>simp_all add: inline_size_update\<close>)
  show "rows_wf s' \<and> (\<forall>x. res = Inr x \<longrightarrow> rows_wf s')"
    if "rows_wf s" "host_set env s k v ret meta ttl = (res, s')" for s k v env ret meta ttl s' and res :: "py_error + put_result"
    using rows_wf_set [OF that(1), of env k v ret meta ttl] that(2) by simp
qed (simp_all add: rows_wf_remove)


section \<open>Histories\<close>

datatype store_op =
    HSet identity "byte list" string entry_meta "real option"
  | HGet identity
  | HGetMany "identity list"
  | HExists "identity list"
  | HWarm identity real
  | HCommit identity "nat option" nat string "real option" "byte list option"
  | HClear string string

fun store_step :: "HostStore \<Rightarrow> op_env \<times> store_op \<Rightarrow> HostStore" where
  "store_step s (env, HSet k v ret meta ttl) = snd (host_set env s k v ret meta ttl)"
| "store_step s (env, HGet k) = snd (host_get env s k)"
| "store_step s (env, HGetMany ks) = snd (host_get_many env s ks)"
| "store_step s (env, HExists ks) = snd (host_exists env s ks)"
| "store_step s (env, HWarm k ttl) = snd (warm_from_ssd env s k ttl)"
| "store_step s (env, HCommit k slot len ret ttl ow) = snd (commit_arena_lease env s k slot len ret ttl ow)"
| "store_step s (env, HClear model ck) = snd (host_clear env s model ck)"

lemma rows_wf_commit:
  assumes "rows_wf s"
  shows "rows_wf (snd (commit_arena_lease env s k slot len ret ttl ow))"
proof -
  let ?s = "case ow of None \<Rightarrow> bump_sets s | Some key \<Rightarrow> drop_bucket False (bump_sets s) key"
  have wf: "rows_wf ?s" using assms by (simp add: rows_wf_drop_bucket split: option.split)
  let ?ex = "case ttl of None \<Rightarrow> None | Some t \<Rightarrow> if t > 0 then Some (clock_now env + t) else None"
  let ?e = "(make_entry env k [] ret (UserMeta []) ?ex)\<lparr>he_slot := slot, he_size_cache := len\<rparr>"
  let ?new = "?s\<lparr>store_entries := dict_put k ?e (store_entries ?s), store_key_index := key_index_add k (store_key_index ?s)\<rparr>"
  have new: "rows_wf ?new" if "dict_get (store_entries ?s) k = None"
    by (rule rows_wf_insert [OF wf that, of ?e]) (simp_all add: inline_size_def split: option.split)
  let ?upd = "\<lambda>old. old\<lparr>he_value := [], he_slot := slot, he_size_cache := len, he_retention := ret,
    he_last_access := clock_now env, he_expires_at := ?ex\<rparr>"
  have upd: "rows_wf (?s\<lparr>store_entries := dict_put k (?upd old) (store_entries ?s),
      store_used_bytes := (if he_slot old = None then store_used_bytes ?s - int (size_bytes old) else store_used_bytes ?s)\<rparr>)"
    if "dict_get (store_entries ?s) k = Some old" for old
    by (rule rows_wf_update [OF wf that, of "?upd old"])
      (use rows_wfD(3) [OF wf that] in \<open>simp_all add: inline_size_alt, simp_all add: inline_size_def size_bytes_def split: option.split\<close>)
  show ?thesis
    unfolding commit_arena_lease_def Let_def
    by (cases "validate_retention ret"; cases "dict_get (store_entries ?s) k")
      (use assms new upd in \<open>simp_all add: rows_wf_drain\<close>)
qed

lemma remove_entry_get:
  "dict_get (store_entries (remove_entry_locked s k e)) i = (if i = k then None else dict_get (store_entries s) i)"
  by (simp add: remove_entry_locked_def release_slot_def pop_row_def dict_get_del)

lemma remove_all_keeps:
  assumes "P s" and "distinct (map fst xs)" and "\<And>k e. (k, e) \<in> set xs \<Longrightarrow> dict_get (store_entries s) k = Some e"
    and "\<And>s k e. P s \<Longrightarrow> dict_get (store_entries s) k = Some e \<Longrightarrow> P (remove_entry_locked s k e)"
  shows "P (foldl (\<lambda>s (k, e). remove_entry_locked s k e) s xs)"
  using assms(1-3)
proof (induction xs arbitrary: s)
  case (Cons x xs)
  obtain k e where x: "x = (k, e)" by (cases x)
  have "P (remove_entry_locked s k e)" using Cons.prems by (intro assms(4)) (simp_all add: x)
  moreover have "dict_get (store_entries (remove_entry_locked s k e)) i = Some e'" if "(i, e') \<in> set xs" for i e'
  proof -
    have "i \<noteq> k" using Cons.prems(2) that by (force simp: x)
    then show ?thesis using Cons.prems(3) that by (simp add: remove_entry_get)
  qed
  ultimately show ?case using Cons.IH [of "remove_entry_locked s k e"] Cons.prems(2) by (simp add: x)
qed simp

lemma rows_wf_clear:
  assumes "rows_wf s"
  shows "rows_wf (snd (host_clear env s model ck))"
proof (cases "model = [] \<and> ck = []")
  case True
  then show ?thesis by (simp add: host_clear_def Let_def rows_wf_def)
next
  case False
  let ?xs = "filter (in_namespace model ck \<circ> fst) (store_entries s)"
  have "rows_wf (foldl (\<lambda>s (k, e). remove_entry_locked s k e) s ?xs)"
    by (rule remove_all_keeps [where P = rows_wf, OF assms])
      (use rows_wfD(1) [OF assms] in \<open>auto simp: distinct_map_filter map_of_eq_Some_iff rows_wf_remove\<close>)
  with False show ?thesis by (auto simp: host_clear_def Let_def)
qed

lemma rows_wf_step: "rows_wf s \<Longrightarrow> rows_wf (store_step s x)"
proof (cases x)
  case (Pair env op)
  assume wf: "rows_wf s"
  have "rows.settled (host_get env s k)" "rows.settled (host_get_many env s ks)" "rows.settled (warm_from_ssd env s k ttl)"
    "rows_wf (snd (host_exists env s ks))" for k ks ttl
    using rows.get_settled rows.get_many_settled rows.warm_settled rows.host_exists_live wf by blast+
  then show ?thesis
    by (cases op) (simp_all add: Pair rows.settled_def rows_wf_set rows_wf_commit rows_wf_clear wf)
qed

lemma rows_wf_run: "rows_wf s \<Longrightarrow> rows_wf (foldl store_step s ops)"
  by (induction ops arbitrary: s) (auto intro: rows_wf_step)

lemma rows_wf_make: "make_store mx sp lg ar = Inr s \<Longrightarrow> rows_wf s"
  by (auto simp: make_store_def rows_wf_def split: if_splits)

text \<open>
  C11. Bookkeeping of the block store after any history of sets, gets, batched gets, existence
  tests, prefetches, committed leases and clears, disk failures and raised exceptions included: the
  counter that eviction works with is the sum of the inline blocks, the reported size is the sum of
  all blocks, every row is filed under its own identity, and the reverse index by key bytes lists
  exactly the rows.
\<close>

theorem store_accounting:
  assumes "make_store mx sp lg ar = Inr s0" and "s = foldl store_step s0 ops"
  shows "store_used_bytes s = dict_total inline_size (store_entries s) \<and>
    (shared_arena s \<noteq> None \<longrightarrow> host_bytes s = dict_total (\<lambda>e. int (size_bytes e)) (store_entries s)) \<and>
    (\<forall>k. (case dict_get (store_entries s) k of
            None \<Rightarrow> \<not> (\<exists>b. dict_get (store_key_index s) (block_key k) = Some b \<and> k \<in> set b)
          | Some e \<Rightarrow> row_identity e = k \<and> (\<exists>b. dict_get (store_key_index s) (block_key k) = Some b \<and> k \<in> set b)))"
proof -
  have wf: "rows_wf s" unfolding assms(2) by (rule rows_wf_run [OF rows_wf_make [OF assms(1)]])
  note D = rows_wfD [OF wf]
  have total: "dict_total f d + dict_total g d = dict_total (\<lambda>e. f e + g e) d" for f g and d :: "(identity, Entry) dict"
    by (induction d) (auto simp: dict_total_def)
  have "inline_size e + (if he_slot e = None then 0 else int (he_size_cache e)) = int (size_bytes e)" for e
    by (simp add: inline_size_def size_bytes_def split: option.split)
  then have bytes: "host_bytes s = dict_total (\<lambda>e. int (size_bytes e)) (store_entries s)" if "shared_arena s \<noteq> None"
    unfolding host_bytes_def if_not_P [OF that] D(2) total by simp
  have row: "case dict_get (store_entries s) k of
            None \<Rightarrow> \<not> (\<exists>b. dict_get (store_key_index s) (block_key k) = Some b \<and> k \<in> set b)
          | Some e \<Rightarrow> row_identity e = k \<and> (\<exists>b. dict_get (store_key_index s) (block_key k) = Some b \<and> k \<in> set b)" for k
  proof (cases "dict_get (store_entries s) k")
    case None
    then show ?thesis using D(4) [of k] by simp
  next
    case (Some e)
    then show ?thesis using D(3) [OF Some] D(4) [of k] by simp
  qed
  show ?thesis by (intro conjI impI allI) (fact D(2), erule bytes, rule row)
qed


definition demo_env :: op_env where
  "demo_env = \<lparr>env_lib = demo_lib, env_now = (1, 7), env_rand = ''r'', env_spill_io = (\<lambda>_. IoOk), env_long_io = (\<lambda>_. IoOk)\<rparr>"

definition demo_store :: HostStore where
  "demo_store = \<lparr>store_max_bytes = 3, store_used_bytes = 0, store_entries = [], store_key_index = [],
     store_stats = \<lparr>gets_total = 0, sets_total = 0, hits_total = 0, misses_total = 0, evictions_total = 0, set_rejections_total = 0\<rparr>,
     store_spillover = None, store_long = None, shared_arena = None\<rparr>"

definition demo_sets :: "(op_env \<times> store_op) list" where
  "demo_sets = [(demo_env, HSet (''m'', ''c'', [0]) [1, 2] ''long'' (UserMeta []) None),
     (demo_env, HSet (''m'', ''c'', [1]) [3] ''short'' (UserMeta []) None)]"

lemma make_demo_store: "make_store 3 None None None = Inr demo_store"
  by (simp add: make_store_def demo_store_def)

theorem store_accounting_witness:
  "store_used_bytes (foldl store_step demo_store demo_sets) =
   dict_total inline_size (store_entries (foldl store_step demo_store demo_sets))"
  using store_accounting [OF make_demo_store refl, of demo_sets] by (rule conjunct1)

section \<open>Priorities\<close>

text \<open>The outcome of the eviction loop.\<close>

lemma evict_for_result:
  assumes "evict_for demand ret s = (sps, s', ok)"
  shows "(if ok then store_used_bytes s' + int demand \<le> int (store_max_bytes s') else pick_victim s' ret = None)"
  using assms
proof (induction demand ret s arbitrary: sps s' ok rule: evict_for.induct)
  case (1 demand ret s)
  show ?case
  proof (cases "store_used_bytes s + int demand \<le> int (store_max_bytes s) \<or> pick_victim s ret = None")
    case True
    then show ?thesis using 1(2) by (auto simp: evict_for.simps [of demand ret s] split: option.splits if_splits)
  next
    case False
    then obtain k where k: "pick_victim s ret = Some k" by blast
    obtain e where e: "dict_get (store_entries s) k = Some e"
      using pick_victim_in [OF k] by (cases "dict_get (store_entries s) k") (auto simp: dict_get_None_iff)
    obtain sp s1 where c: "collect_for_spillover s k = (sp, s1)" by (cases "collect_for_spillover s k")
    obtain sps' s2 ok' where r: "evict_for demand ret (evict_locked s1 k e) = (sps', s2, ok')"
      by (cases "evict_for demand ret (evict_locked s1 k e)")
    have "s' = s2" "ok = ok'" using 1(2) False k e c r by (simp_all add: evict_for.simps [of demand ret s])
    moreover have "\<not> store_used_bytes s + int demand \<le> int (store_max_bytes s)" using False by blast
    ultimately show ?thesis using 1(1) [OF _ k e c [symmetric] refl r] by blast
  qed
qed

lemma evict_entries: "store_entries (evict_locked (snd (collect_for_spillover s k)) k e) = dict_del k (store_entries s)"
  by (simp add: evict_locked_def bump_evictions_def release_slot_def pop_row_def)

lemma evict_used:
  "store_used_bytes (evict_locked (snd (collect_for_spillover s k)) k e) = store_used_bytes s - inline_size e"
  "store_max_bytes (evict_locked (snd (collect_for_spillover s k)) k e) = store_max_bytes s"
  by (simp_all add: evict_locked_def bump_evictions_def release_slot_def pop_row_def inline_size_alt)

text \<open>The loop evicts only when the bytes do not fit, and stops as soon as they do: with the last victim
  back in place they would not.\<close>

lemma evict_for_needed:
  assumes "evict_for demand ret s = (sps, s', ok)"
  shows "store_entries s' = store_entries s \<and> store_used_bytes s' = store_used_bytes s \<or>
    int (store_max_bytes s) < store_used_bytes s + int demand \<and>
    (\<exists>k e. dict_get (store_entries s) k = Some e \<and> dict_get (store_entries s') k = None \<and>
       int (store_max_bytes s) < store_used_bytes s' + inline_size e + int demand)"
  using assms
proof (induction demand ret s arbitrary: sps s' ok rule: evict_for.induct)
  case (1 demand ret s)
  show ?case
  proof (cases "store_used_bytes s + int demand \<le> int (store_max_bytes s) \<or> pick_victim s ret = None")
    case True
    then show ?thesis using 1(2) by (auto simp: evict_for.simps [of demand ret s] split: option.splits if_splits)
  next
    case False
    then obtain k where k: "pick_victim s ret = Some k" by blast
    obtain e where e: "dict_get (store_entries s) k = Some e"
      using pick_victim_in [OF k] by (cases "dict_get (store_entries s) k") (auto simp: dict_get_None_iff)
    obtain sp s1 where c: "collect_for_spillover s k = (sp, s1)" by (cases "collect_for_spillover s k")
    let ?t = "evict_locked s1 k e"
    obtain sps' s2 ok' where r: "evict_for demand ret ?t = (sps', s2, ok')" by (cases "evict_for demand ret ?t")
    have s': "s' = s2" using 1(2) False k e c r by (simp add: evict_for.simps [of demand ret s])
    have big: "\<not> store_used_bytes s + int demand \<le> int (store_max_bytes s)" using False by blast
    have t: "store_entries ?t = dict_del k (store_entries s)" "store_used_bytes ?t = store_used_bytes s - inline_size e"
      "store_max_bytes ?t = store_max_bytes s" using evict_entries [of s k e] evict_used [of s k e] c by simp_all
    have full: "int (store_max_bytes s) < store_used_bytes s + int demand" using big by simp
    from 1(1) [OF big k e c [symmetric] refl r] show ?thesis
    proof (elim disjE conjE exE)
      assume "store_entries s2 = store_entries ?t" "store_used_bytes s2 = store_used_bytes ?t"
      then have "dict_get (store_entries s') k = None" "int (store_max_bytes s) < store_used_bytes s' + inline_size e + int demand"
        using t full by (simp_all add: s' dict_simps)
      then show ?thesis using e full by blast
    next
      fix j y assume j: "dict_get (store_entries ?t) j = Some y" "dict_get (store_entries s2) j = None"
        and n: "int (store_max_bytes ?t) < store_used_bytes s2 + inline_size y + int demand"
      have "dict_get (store_entries s) j = Some y" using j(1) by (simp add: t dict_simps split: if_splits)
      then show ?thesis using j(2) n full by (auto simp: s' t)
    qed
  qed
qed

text \<open>What is left after the loop: rows are only dropped, dropped rows were unprotected and ranked
  below every row that is left.\<close>

definition thinned :: "string \<Rightarrow> (identity, Entry) dict \<Rightarrow> (identity, Entry) dict \<Rightarrow> bool" where
  "thinned ret d d' \<longleftrightarrow>
     (\<forall>k e. dict_get d' k = Some e \<longrightarrow> dict_get d k = Some e) \<and>
     (\<forall>k e. dict_get d k = Some e \<longrightarrow> dict_get d' k = None \<longrightarrow> priority (he_retention e) \<le> priority ret \<and>
        (\<forall>i x. dict_get d' i = Some x \<longrightarrow> rank_le (rank_of e) (rank_of x)))"

lemma thinned_del:
  assumes "thinned ret d d'" and "dict_get d' k = Some e" and "priority (he_retention e) \<le> priority ret"
    and "\<And>i x. dict_get d' i = Some x \<Longrightarrow> rank_le (rank_of e) (rank_of x)"
  shows "thinned ret d (dict_del k d')"
proof -
  have "dict_get d k = Some e" using assms(1,2) unfolding thinned_def by blast
  then show ?thesis using assms unfolding thinned_def dict_get_del by (metis option.distinct(1) option.inject)
qed

lemma evict_for_thins:
  assumes "rows_wf s" and "evict_for demand ret s = (sps, s', ok)"
  shows "thinned ret (store_entries s) (store_entries s')"
proof -
  have "rows_wf s' \<and> thinned ret (store_entries s) (store_entries s')"
  proof (rule evict_for_keeps [OF assms(2), where P = "\<lambda>t. rows_wf t \<and> thinned ret (store_entries s) (store_entries t)"])
    show "rows_wf s \<and> thinned ret (store_entries s) (store_entries s)" using assms(1) by (simp add: thinned_def)
    fix t k e
    assume t: "rows_wf t \<and> thinned ret (store_entries s) (store_entries t)" and k: "pick_victim t ret = Some k"
      and e: "dict_get (store_entries t) k = Some e"
    note V = pick_victim_spec [OF rows_wfD(1) [OF t [THEN conjunct1]] k e]
    have "rank_le (rank_of e) (rank_of x)" if "dict_get (store_entries t) i = Some x" for i x
      using V(2) [OF that] by (auto simp: rank_le_def rank_of_def)
    then have "thinned ret (store_entries s) (dict_del k (store_entries t))"
      by (rule thinned_del [OF t [THEN conjunct2] e V(1)])
    moreover have "rows_wf (evict_locked (snd (collect_for_spillover t k)) k e)"
      using t e by (intro rows_wf_evict) simp_all
    ultimately show "rows_wf (evict_locked (snd (collect_for_spillover t k)) k e) \<and>
      thinned ret (store_entries s) (store_entries (evict_locked (snd (collect_for_spillover t k)) k e))"
      by (simp add: evict_entries)
  qed
  then show ?thesis ..
qed


text \<open>A store without an arena never gets one.\<close>

lemma plain_simps [simp]:
  "shared_arena (pop_row s k e) = shared_arena s" "shared_arena (bump_evictions s) = shared_arena s"
  "shared_arena (bump_sets s) = shared_arena s" "shared_arena (bump_rejections s) = shared_arena s"
  "shared_arena (replace_row s k old e) = shared_arena s" "shared_arena (add_row s k e) = shared_arena s"
  "shared_arena s = None \<Longrightarrow> shared_arena (release_slot s e) = None"
  "shared_arena s = None \<Longrightarrow> snd (resolve_value s e) = s"
  "shared_arena s = None \<Longrightarrow> snd (collect_for_spillover s k) = s"
  "shared_arena s = None \<Longrightarrow> store_bytes s key v = (Inr None, s)"
  "shared_arena s = None \<Longrightarrow> drain_arena s = s"
  "shared_arena s = None \<Longrightarrow> shared_arena (write_through env s k) = None"
  by (auto simp: pop_row_def bump_evictions_def bump_sets_def bump_rejections_def replace_row_def add_row_def release_slot_def
      resolve_value_def collect_for_spillover_def store_bytes_def drain_arena_def write_through_def
      split: option.split prod.split)

lemma plain_remove: "shared_arena s = None \<Longrightarrow> shared_arena (remove_entry_locked s k e) = None"
  by (simp add: remove_entry_locked_def)

lemma plain_evict_for: "evict_for demand ret s = (sps, s', ok) \<Longrightarrow> shared_arena s = None \<Longrightarrow> shared_arena s' = None"
  by (erule evict_for_keeps) (simp_all add: evict_locked_def)

lemma max_evict_for: "evict_for demand ret s = (sps, s', ok) \<Longrightarrow> store_max_bytes s' = store_max_bytes s"
  by (erule evict_for_keeps) (simp_all add: evict_locked_def bump_evictions_def release_slot_def pop_row_def)

lemma plain_drop_bucket: "shared_arena s = None \<Longrightarrow> shared_arena (drop_bucket ev s key) = None"
  by (rule drop_bucket_keeps) simp_all

text \<open>A set without an arena, branch by branch.\<close>

lemma plain_set_new:
  assumes "shared_arena s = None" and "evict_for (length v) ret s = (sps, s1, ok)"
  shows "set_new env s k v ret meta ex =
    (if length v > store_max_bytes s then (Inr ((False, Some ''value_larger_than_store''), []), bump_rejections s)
     else if ok then (Inr ((True, None), sps), add_row s1 k (make_entry env k v ret meta ex))
     else (Inr ((False, Some ''would_displace_higher_priority''), []), bump_rejections s1))"
proof -
  have "\<not> would_use_arena s (length v)" using assms(1) by (simp add: would_use_arena_def)
  moreover have "shared_arena s1 = None" by (rule plain_evict_for [OF assms(2,1)])
  moreover have "place s1 None v (make_entry env k v ret meta ex) = make_entry env k v ret meta ex"
    if "shared_arena s1 = None" by (cases k) (simp add: place_def that make_entry_def)
  ultimately show ?thesis by (cases ok) (simp_all add: set_new_def assms(2))
qed

lemma plain_set:
  assumes "shared_arena s = None"
  shows "shared_arena (snd (host_set env s k v ret meta ttl)) = None"
proof -
  obtain sps s1 ok where ev: "evict_for (length v) ret (bump_sets s) = (sps, s1, ok)"
    by (cases "evict_for (length v) ret (bump_sets s)")
  have "shared_arena s1 = None" by (rule plain_evict_for [OF ev]) (simp add: assms)
  then show ?thesis
    using assms
    by (simp add: host_set_def Let_def set_existing_def plain_set_new [OF _ ev] split: sum.split option.split prod.split)
qed

interpretation plain: store_invariant "\<lambda>s. shared_arena s = None" "\<lambda>s. shared_arena s = None" "\<lambda>_ _. True" lib for lib
proof
  show "shared_arena s' = None \<and> (\<forall>x. res = Inr x \<longrightarrow> shared_arena s' = None)"
    if "shared_arena s = None" "host_set env s k v ret meta ttl = (res, s')" for s k v env ret meta ttl s' and res :: "py_error + put_result"
    using plain_set [OF that(1), of env k v ret meta ttl] that(2) by simp
qed (simp_all add: plain_remove)


lemma plain_step: "shared_arena s = None \<Longrightarrow> shared_arena (store_step s x) = None"
proof (cases x)
  case (Pair env op)
  assume none: "shared_arena s = None"
  have all: "plain.settled (host_get env s k)" "plain.settled (host_get_many env s ks)" "plain.settled (warm_from_ssd env s k ttl)"
    "shared_arena (snd (host_exists env s ks)) = None" for k ks ttl
    using plain.get_settled plain.get_many_settled plain.warm_settled plain.host_exists_live none by blast+
  have rel: "shared_arena (foldl release_slot s es) = None" for es
    using none by (induction es arbitrary: s) simp_all
  have rem: "shared_arena (foldl (\<lambda>s (k, e). remove_entry_locked s k e) s xs) = None" for xs
    using none by (induction xs arbitrary: s) (simp_all add: plain_remove case_prod_beta)
  show ?thesis
    using all none rel rem
    by (cases op) (simp_all add: Pair plain.settled_def plain_set host_clear_def Let_def commit_arena_lease_def plain_drop_bucket
        split: sum.split option.split)
qed

lemma plain_run: "shared_arena s = None \<Longrightarrow> shared_arena (foldl store_step s ops) = None"
  by (induction ops arbitrary: s) (simp_all add: plain_step)

lemma max_after_ram [simp]:
  "store_max_bytes (foldl (spill_one env) s xs) = store_max_bytes s" "store_max_bytes (write_through env s k) = store_max_bytes s"
proof -
  have "store_max_bytes (spill_one env s x) = store_max_bytes s" for s x by (simp add: spill_one_def split: prod.split)
  then show "store_max_bytes (foldl (spill_one env) s xs) = store_max_bytes s" by (induction xs arbitrary: s) simp_all
  show "store_max_bytes (write_through env s k) = store_max_bytes s"
    by (simp add: write_through_def split: prod.split option.split) (metis resolve_fields(4) snd_conv)
qed

text \<open>The rows after a set without an arena.\<close>

lemma plain_set_rows:
  assumes "shared_arena s = None" and "host_set env s k v ret meta ttl = (Inr (accepted, reason), s')"
    and "evict_for (length v) ret (bump_sets s) = (sps, s1, ok)"
  shows "(\<exists>t. ttl = Some t \<and> t \<le> 0) \<and> accepted \<and> reason = None \<and> store_entries s' = store_entries s \<or>
    \<not> accepted \<and> store_entries s' = store_entries s \<and> reason \<noteq> Some ''would_displace_higher_priority'' \<or>
    \<not> accepted \<and> \<not> ok \<and> dict_get (store_entries s) k = None \<and> store_entries s' = store_entries s1 \<and>
      store_used_bytes s' = store_used_bytes s1 \<or>
    accepted \<and> reason = None \<and> (\<exists>e. he_value e = v \<and> he_retention e = ret \<and>
      (dict_get (store_entries s) k \<noteq> None \<and> store_entries s' = dict_put k e (store_entries s) \<or>
       dict_get (store_entries s) k = None \<and> ok \<and> he_slot e = None \<and> store_entries s' = dict_put k e (store_entries s1) \<and>
       store_max_bytes s' = store_max_bytes s1 \<and> store_used_bytes s' = store_used_bytes s1 + int (length v)))"
proof -
  have b: "store_entries (bump_sets s) = store_entries s" "store_entries (bump_rejections s) = store_entries s"
    "store_max_bytes (bump_sets s) = store_max_bytes s" "store_used_bytes (bump_rejections s) = store_used_bytes s" for s
    by (simp_all add: bump_sets_def bump_rejections_def)
  have n: "shared_arena (bump_sets s) = None" using assms(1) by simp
  show ?thesis
  proof (cases "dict_get (store_entries s) k")
    case None
    then show ?thesis
      using assms(2) n b
      by (auto simp: host_set_def Let_def plain_set_new [OF n assms(3)] add_row_def size_bytes_def split: sum.splits if_splits option.splits)
        (rule exI [of _ "make_entry env k v ret meta (map_option (\<lambda>t. clock_now env + t) ttl)"], simp)+
  next
    case (Some old)
    then show ?thesis
      using assms(2) n b
      by (auto simp: host_set_def Let_def set_existing_def replace_row_def place_def split: sum.splits if_splits option.splits)
        (rule exI [of _ "old\<lparr>he_value := v, he_retention := ret, he_last_access := clock_now env,
           he_metadata := meta, he_expires_at := map_option (\<lambda>t. clock_now env + t) ttl\<rparr>"], simp)+
  qed
qed


text \<open>
  C12. Priorities of the block store without an arena, after any history. A set leaves every other
  block as it is or evicts it; an evicted block has at most the retention of the incoming one and
  comes before every block that stays in the order of priority and last access. A set evicts only when
  the incoming bytes do not fit, and no more than it has to: they would not fit with one of the
  evicted blocks back in place. A set refused for
  displacement leaves only blocks of strictly higher priority, and an accepted one is in RAM with
  its bytes, within the budget when the block is new.
\<close>

theorem set_respects_priorities:
  assumes "make_store mx sp lg None = Inr s0" and "s = foldl store_step s0 ops"
    and "host_set env s k v ret meta ttl = (Inr (accepted, reason), s')"
  shows "(\<forall>i e. i \<noteq> k \<longrightarrow> dict_get (store_entries s) i = Some e \<longrightarrow>
      (case dict_get (store_entries s') i of
         Some e' \<Rightarrow> e' = e
       | None \<Rightarrow> priority (he_retention e) \<le> priority ret \<and>
           (\<forall>j x. j \<noteq> k \<longrightarrow> dict_get (store_entries s') j = Some x \<longrightarrow> priority (he_retention e) < priority (he_retention x) \<or>
              priority (he_retention e) = priority (he_retention x) \<and> he_last_access e \<le> he_last_access x))) \<and>
    ((\<exists>i. i \<noteq> k \<and> dict_get (store_entries s) i \<noteq> None \<and> dict_get (store_entries s') i = None) \<longrightarrow>
      int (store_max_bytes s) < store_used_bytes s + int (length v) \<and>
      (\<exists>j y. j \<noteq> k \<and> dict_get (store_entries s) j = Some y \<and> dict_get (store_entries s') j = None \<and>
         int (store_max_bytes s) < store_used_bytes s' + (if accepted then 0 else int (length v)) + inline_size y)) \<and>
    (reason = Some ''would_displace_higher_priority'' \<longrightarrow>
      (\<forall>i x. dict_get (store_entries s') i = Some x \<longrightarrow> priority ret < priority (he_retention x))) \<and>
    (accepted \<and> (\<forall>t. ttl = Some t \<longrightarrow> 0 < t) \<longrightarrow>
      (\<exists>e. dict_get (store_entries s') k = Some e \<and> he_value e = v \<and> he_retention e = ret) \<and>
      (dict_get (store_entries s) k = None \<longrightarrow> store_used_bytes s' \<le> int (store_max_bytes s')))"
proof -
  have "shared_arena s0 = None" using assms(1) by (auto simp: make_store_def split: if_splits)
  then have plain: "shared_arena s = None" unfolding assms(2) by (rule plain_run)
  have wf: "rows_wf s" unfolding assms(2) by (rule rows_wf_run [OF rows_wf_make [OF assms(1)]])
  obtain sps s1 ok where ev: "evict_for (length v) ret (bump_sets s) = (sps, s1, ok)"
    by (cases "evict_for (length v) ret (bump_sets s)")
  have b: "store_entries (bump_sets s) = store_entries s" by (simp add: bump_sets_def)
  have thin: "thinned ret (store_entries s) (store_entries s1)" using evict_for_thins [OF _ ev] wf b by simp
  have thin_case: "case dict_get (store_entries s1) i of Some e' \<Rightarrow> e' = e
       | None \<Rightarrow> priority (he_retention e) \<le> priority ret \<and>
           (\<forall>j x. dict_get (store_entries s1) j = Some x \<longrightarrow> priority (he_retention e) < priority (he_retention x) \<or>
              priority (he_retention e) = priority (he_retention x) \<and> he_last_access e \<le> he_last_access x)"
    if "dict_get (store_entries s) i = Some e" for i e
    using thin that unfolding thinned_def by (force simp: rank_le_def rank_of_def split: option.split)
  have need: "store_entries s1 = store_entries s \<or> int (store_max_bytes s) < store_used_bytes s + int (length v) \<and>
      (\<exists>j y. dict_get (store_entries s) j = Some y \<and> dict_get (store_entries s1) j = None \<and>
         int (store_max_bytes s) < store_used_bytes s1 + inline_size y + int (length v))"
    using evict_for_needed [OF ev] by (auto simp: bump_sets_def)
  let ?gone = "\<exists>i. i \<noteq> k \<and> dict_get (store_entries s) i \<noteq> None \<and> dict_get (store_entries s') i = None"
  let ?needed = "int (store_max_bytes s) < store_used_bytes s + int (length v) \<and>
      (\<exists>j y. j \<noteq> k \<and> dict_get (store_entries s) j = Some y \<and> dict_get (store_entries s') j = None \<and>
         int (store_max_bytes s) < store_used_bytes s' + (if accepted then 0 else int (length v)) + inline_size y)"
  have needed: ?needed if gone: ?gone and new: "dict_get (store_entries s) k = None"
      and rows': "\<forall>j. j \<noteq> k \<longrightarrow> dict_get (store_entries s') j = dict_get (store_entries s1) j"
      and used: "store_used_bytes s' + (if accepted then 0 else int (length v)) = store_used_bytes s1 + int (length v)"
  proof -
    have "store_entries s1 \<noteq> store_entries s" using gone rows' by auto
    with need obtain j y where j: "int (store_max_bytes s) < store_used_bytes s + int (length v)"
      "dict_get (store_entries s) j = Some y" "dict_get (store_entries s1) j = None"
      "int (store_max_bytes s) < store_used_bytes s1 + inline_size y + int (length v)" by blast
    have "j \<noteq> k" using j(2) new by auto
    moreover have "int (store_max_bytes s) < store_used_bytes s' + (if accepted then 0 else int (length v)) + inline_size y"
      using j(4) used by linarith
    ultimately show ?thesis using j(1,2,3) rows' by auto
  qed
  note rows = plain_set_rows [OF plain assms(3) ev]
  consider (same) "store_entries s' = store_entries s" "reason \<noteq> Some ''would_displace_higher_priority''"
      "accepted \<longrightarrow> (\<exists>t. ttl = Some t \<and> t \<le> 0)"
    | (refused) "\<not> accepted" "\<not> ok" "store_entries s' = store_entries s1" "dict_get (store_entries s) k = None"
      "store_used_bytes s' = store_used_bytes s1"
    | (update) e where "accepted" "reason = None" "he_value e = v" "he_retention e = ret"
      "dict_get (store_entries s) k \<noteq> None" "store_entries s' = dict_put k e (store_entries s)"
    | (insert) e where "accepted" "reason = None" "he_value e = v" "he_retention e = ret" "ok"
      "store_entries s' = dict_put k e (store_entries s1)"
      "store_max_bytes s' = store_max_bytes s1" "store_used_bytes s' = store_used_bytes s1 + int (length v)"
      "dict_get (store_entries s) k = None"
    using rows by (elim disjE exE conjE; (blast | force))
  then show ?thesis
  proof cases
    case same
    then show ?thesis by auto
  next
    case refused
    have "pick_victim s1 ret = None" using evict_for_result [OF ev] refused(2) by simp
    then have higher: "priority ret < priority (he_retention x)" if "dict_get (store_entries s') i = Some x" for i x
      using pick_victim_None that unfolding refused(3) by blast
    have kept: "case dict_get (store_entries s') i of Some e' \<Rightarrow> e' = x
       | None \<Rightarrow> priority (he_retention x) \<le> priority ret \<and>
           (\<forall>j y. j \<noteq> k \<longrightarrow> dict_get (store_entries s') j = Some y \<longrightarrow> priority (he_retention x) < priority (he_retention y) \<or>
              priority (he_retention x) = priority (he_retention y) \<and> he_last_access x \<le> he_last_access y)"
      if "i \<noteq> k" "dict_get (store_entries s) i = Some x" for i x
      using thin_case [OF that(2)] by (simp add: refused(3) split: option.splits)
    have needed: ?needed if ?gone using needed [OF that refused(4)] refused(1,3,5) by simp
    show ?thesis by (intro conjI allI impI) (use kept higher needed refused(1) in blast)+
  next
    case update
    then show ?thesis by (auto simp: dict_get_put)
  next
    case insert
    have "store_used_bytes s' \<le> int (store_max_bytes s')" using evict_for_result [OF ev] insert(5,7,8) by simp
    moreover have kept: "case dict_get (store_entries s') i of Some e' \<Rightarrow> e' = x
       | None \<Rightarrow> priority (he_retention x) \<le> priority ret \<and>
           (\<forall>j y. j \<noteq> k \<longrightarrow> dict_get (store_entries s') j = Some y \<longrightarrow> priority (he_retention x) < priority (he_retention y) \<or>
              priority (he_retention x) = priority (he_retention y) \<and> he_last_access x \<le> he_last_access y)"
      if "i \<noteq> k" "dict_get (store_entries s) i = Some x" for i x
      using thin_case [OF that(2)] that(1) by (auto simp: insert(6) dict_get_put split: option.splits)
    moreover have "\<exists>e. dict_get (store_entries s') k = Some e \<and> he_value e = v \<and> he_retention e = ret"
      using insert(3,4) by (simp add: insert(6) dict_get_put)
    moreover have "reason \<noteq> Some ''would_displace_higher_priority''" using insert(2) by simp
    moreover have needed: ?needed if ?gone using needed [OF that insert(9)] insert(1,6,8) by (simp add: dict_get_put)
    ultimately show ?thesis by (intro conjI allI impI) (use kept needed in blast)+
  qed
qed


lemmas store_eval = host_set_def set_existing_def set_new_def evict_for.simps pick_victim_def priority_def retention_priority_def
  would_use_arena_def store_bytes_def place_def make_entry_def add_row_def replace_row_def key_index_add_def key_index_remove_def
  drain_arena_def write_through_def bump_sets_def bump_rejections_def bump_evictions_def evict_locked_def release_slot_def pop_row_def
  size_bytes_def inline_size_def collect_for_spillover_def resolve_value_def validate_retention_def RETENTION_LONG_def RETENTION_SHORT_def
  Let_def demo_store_def demo_env_def

theorem set_respects_priorities_witness:
  "dict_get (store_entries (snd (host_set demo_env (foldl store_step demo_store demo_sets) (''m'', ''c'', [2]) [4] ''short'' (UserMeta []) None)))
     (''m'', ''c'', [0]) \<noteq> None"
proof -
  let ?s = "foldl store_step demo_store demo_sets" and ?k = "(''m'', ''c'', [2 :: byte])"
  obtain s' where set: "host_set demo_env ?s ?k [4] ''short'' (UserMeta []) None = (Inr (True, None), s')"
    by (simp add: demo_sets_def store_eval)
  obtain e where e: "dict_get (store_entries ?s) (''m'', ''c'', [0]) = Some e" "he_retention e = ''long''"
    by (simp add: demo_sets_def store_eval)
  have ne: "(''m'', ''c'', [0]) \<noteq> ?k" by simp
  note C = set_respects_priorities [OF make_demo_store refl set, THEN conjunct1, rule_format, OF ne e(1)]
  have np: "\<not> priority (he_retention e) \<le> priority ''short''" by (simp add: e(2) priority_def retention_priority_def)
  have "dict_get (store_entries s') (''m'', ''c'', [0]) \<noteq> None"
  proof
    assume "dict_get (store_entries s') (''m'', ''c'', [0]) = None"
    from C [unfolded this option.case] np show False by blast
  qed
  then show ?thesis unfolding set snd_conv .
qed

section \<open>Edge cases\<close>

text \<open>A set that is refused after it has evicted drops its victims: they are neither in RAM nor in
  the spillover region that is there for them.\<close>

lemma refused_set_loses_victims:
  "let s = foldl store_step (demo_store\<lparr>store_spillover := Some demo_region\<rparr>) demo_sets;
       (res, s') = host_set demo_env s (''m'', ''c'', [2]) [4, 5] ''short'' (UserMeta []) None
   in res = Inr (False, Some ''would_displace_higher_priority'') \<and>
      dict_get (store_entries s) (''m'', ''c'', [1]) \<noteq> None \<and> dict_get (store_entries s') (''m'', ''c'', [1]) = None \<and>
      store_spillover s' = Some demo_region"
  by (simp add: demo_sets_def store_eval)

text \<open>Overwriting a block does not make room.\<close>

lemma overwrite_exceeds_store_budget:
  "let s = foldl store_step demo_store demo_sets;
       (res, s') = host_set demo_env s (''m'', ''c'', [1]) [1, 2, 3, 4, 5] ''short'' (UserMeta []) None
   in res = Inr (True, None) \<and> store_used_bytes s' > int (store_max_bytes s')"
  by (simp add: demo_sets_def store_eval)

text \<open>A block with retention \<open>none\<close> is stored like any other.\<close>

lemma retention_none_is_stored:
  "dict_get (store_entries (snd (host_set demo_env demo_store (''m'', ''c'', [1]) [7] ''none'' (UserMeta []) None))) (''m'', ''c'', [1]) \<noteq> None"
  by (simp add: store_eval)

text \<open>The deadline of a long-retention block holds for one read only: the read that finds it expired
  reports a miss, the next one promotes the copy of the long region without a deadline.\<close>

lemma expired_long_block_served_again:
  assumes "shared_arena s = None" and "dict_get (store_entries s) k = Some e" and "is_expired (clock_now env) e"
    and "store_long s = Some r" and "get_entry r k = Some x"
    and "get_bytes (env_lib env) (env_now env) r k = (Some v, r')" and "validate_retention (ent_retention x) = Inr y"
  shows "fst (host_get env s k) = Inr None \<and>
    (\<exists>p. fst (host_get env (snd (host_get env s k)) k) = Inr (Some p) \<and> he_value p = v \<and> he_expires_at p = None)"
proof -
  define s1 where "s1 = bump_misses 1 (remove_entry_locked (bump_gets s) k e)"
  define s2 where "s2 = (bump_gets s1)\<lparr>store_long := Some r'\<rparr>"
  have g1: "host_get env s k = (Inr None, s1)" using assms(2,3) by (simp add: host_get_def bump_gets_def s1_def)
  have f: "dict_get (store_entries s1) k = None" "store_long s1 = Some r" "shared_arena s1 = None"
    using assms(1,4) by (simp_all add: s1_def bump_misses_def remove_entry_locked_def release_slot_def pop_row_def bump_gets_def dict_get_del)
  obtain res s3 where h: "host_set env s2 k v (ent_retention x) (ent_metadata x) None = (res, s3)"
    by (cases "host_set env s2 k v (ent_retention x) (ent_metadata x) None")
  obtain sps t ok where ev: "evict_for (length v) (ent_retention x) (bump_sets s2) = (sps, t, ok)"
    by (cases "evict_for (length v) (ent_retention x) (bump_sets s2)")
  have n: "shared_arena (bump_sets s2) = None" "dict_get (store_entries (bump_sets s2)) k = None"
    using f by (simp_all add: bump_sets_def s2_def bump_gets_def)
  let ?e = "make_entry env k v (ent_retention x) (ent_metadata x) None"
  have new: "set_new env (bump_sets s2) k v (ent_retention x) (ent_metadata x) None =
      (if length v > store_max_bytes (bump_sets s2) then (Inr ((False, Some ''value_larger_than_store''), []), bump_rejections (bump_sets s2))
       else if ok then (Inr ((True, None), sps), add_row t k ?e)
       else (Inr ((False, Some ''would_displace_higher_priority''), []), bump_rejections t))"
    by (rule plain_set_new [OF n(1) ev])
  have "(\<exists>b. res = Inr (False, b)) \<or> (\<exists>b. res = Inr (True, b)) \<and> dict_get (store_entries s3) k = Some ?e"
  proof (cases "length v > store_max_bytes (bump_sets s2) \<or> \<not> ok")
    case True
    then show ?thesis using h assms(7) n(2) new by (auto simp: host_set_def Let_def split: if_splits)
  next
    case False
    then have "dict_get (store_entries (foldl (spill_one env) (add_row t k ?e) sps)) k = Some ?e"
      by (simp add: add_row_def dict_get_put)
    then show ?thesis using False h assms(7) n(2) new by (simp add: host_set_def) (auto simp: Let_def)
  qed
  then obtain p s4 where p: "promote_hit env s2 k (Some (x, v)) = (Inr (Some p), s4)" "he_value p = v" "he_expires_at p = None"
  proof
    assume "\<exists>b. res = Inr (False, b)"
    then show ?thesis using that [of ?e] by (auto simp: promote_hit_def promote_from_ssd_def h)
  next
    assume "(\<exists>b. res = Inr (True, b)) \<and> dict_get (store_entries s3) k = Some ?e"
    then show ?thesis using that [of ?e] by (auto simp: promote_hit_def promote_from_ssd_def h)
  qed
  have "try_long env (bump_gets s1) k = promote_hit env s2 k (Some (x, v))"
    using f(2) assms(5,6) by (simp add: try_long_def read_region_def bump_gets_def s2_def)
  then have "host_get env s1 k = (Inr (Some p), s4)"
    using p(1) f(1) by (simp add: host_get_def Let_def bump_gets_def)
  then show ?thesis using p(2,3) by (simp add: g1)
qed

end
