(* ===== verification/Kvd_Server.thy ===== *)
theory Kvd_Server
  imports Host_Store
begin

text \<open>
  The request dispatch of the KV daemon, \<open>src/infera/kvd/server.py\<close>, over the block store, the
  shared arena and the SSD regions. The daemon runs one event loop and a handler only suspends to
  write its response, so a request is one atomic step; the writes of a lease holder through its own
  mapping, the disconnects and the prefetch worker are steps of their own. Sockets, frames, logging
  and the start-up of the process are not modelled.
\<close>

declare split_paired_Ex [simp del] split_paired_All [simp del]

section \<open>Messages\<close>

datatype kvd_msg =
    MGet identity
  | MBatchGet string string "byte list list"
  | MSet identity "byte list" string entry_meta "real option"
  | MBatchSet string string "byte list list" "byte list list" "string list" "entry_meta list" "real option list option"
  | MSetReserve int
  | MSetCommit nat identity int string int
  | MSetCancel nat
  | MPrefetchHint string string "byte list list" int
  | MExists string string "byte list list"
  | MClear string string
  | MStats
  | MHello
  | MOther

text \<open>Where a shared-arena client finds a block: payload offset, length, version, retention.\<close>

type_synonym shared_ref = "nat \<times> nat \<times> nat \<times> string"

datatype kvd_response =
    GetResponse "byte list option" "string option"
  | GetSharedResponse shared_ref nat
  | BatchGetResponse "byte list option list" "string option list"
  | BatchGetSharedResponse "shared_ref option list" nat
  | SetAck bool "string option"
  | BatchSetAck "bool list" "string option list"
  | SetReserveResponse "(nat \<times> nat \<times> nat \<times> nat) option" string
  | SetCommitResponse bool string
  | SetCancelResponse
  | ExistsResponse "bool list"
  | ClearAck nat
  | StatsResponse nat int int int StoreStats
  | HelloAck
  | ErrorMessage string
  | NoResponse

record KvdServer =
  srv_store :: HostStore
  prefetch_inflight :: nat
  prefetch_queue :: "(byte list \<times> string \<times> string \<times> int) list"
  prefetch_hints_total :: nat
  prefetch_fetches_total :: nat
  prefetch_dropped_total :: nat
  prefetch_warmed_keys :: "byte list set"
  prefetch_warmed_order :: "byte list list"
  prefetch_hits_useful_total :: nat

definition PREFETCH_WARMED_CAP :: nat where "PREFETCH_WARMED_CAP = 4096"

definition make_server :: "HostStore \<Rightarrow> nat \<Rightarrow> KvdServer" where
  "make_server s n =
     \<lparr>srv_store = s, prefetch_inflight = n, prefetch_queue = [], prefetch_hints_total = 0,
      prefetch_fetches_total = 0, prefetch_dropped_total = 0, prefetch_warmed_keys = {},
      prefetch_warmed_order = [], prefetch_hits_useful_total = 0\<rparr>"

section \<open>Prefetch\<close>

definition register_warmed_key :: "KvdServer \<Rightarrow> byte list \<Rightarrow> KvdServer" where
  "register_warmed_key v key =
     (if key \<in> prefetch_warmed_keys v
      then v\<lparr>prefetch_warmed_order := remove1 key (prefetch_warmed_order v) @ [key]\<rparr>
      else
        let v = (if length (prefetch_warmed_order v) \<ge> PREFETCH_WARMED_CAP
                 then v\<lparr>prefetch_warmed_order := tl (prefetch_warmed_order v),
                        prefetch_warmed_keys := prefetch_warmed_keys v - {hd (prefetch_warmed_order v)}\<rparr>
                 else v)
        in v\<lparr>prefetch_warmed_keys := insert key (prefetch_warmed_keys v),
             prefetch_warmed_order := prefetch_warmed_order v @ [key]\<rparr>)"

definition claim_warmed_key :: "KvdServer \<Rightarrow> byte list \<Rightarrow> KvdServer" where
  "claim_warmed_key v key =
     (if key \<in> prefetch_warmed_keys v
      then v\<lparr>prefetch_warmed_keys := prefetch_warmed_keys v - {key},
             prefetch_warmed_order := remove1 key (prefetch_warmed_order v),
             prefetch_hits_useful_total := prefetch_hits_useful_total v + 1\<rparr>
      else v)"

definition do_prefetch_one :: "op_env \<Rightarrow> KvdServer \<Rightarrow> identity \<Rightarrow> int \<Rightarrow> KvdServer" where
  "do_prefetch_one env v k deadline_ms =
     (case warm_from_ssd env (srv_store v) k (max (real_of_int deadline_ms / 1000) (1 / 1000)) of
        (Inr True, s) \<Rightarrow>
          register_warmed_key (v\<lparr>srv_store := s, prefetch_fetches_total := prefetch_fetches_total v + 1\<rparr>) (block_key k)
      | (_, s) \<Rightarrow> v\<lparr>srv_store := s\<rparr>)"

text \<open>One turn of the worker; an exception is logged and the hint skipped.\<close>

definition prefetch_turn :: "op_env \<Rightarrow> KvdServer \<Rightarrow> KvdServer" where
  "prefetch_turn env v =
     (case prefetch_queue v of
        [] \<Rightarrow> v
      | (key, model, ck, deadline) # q \<Rightarrow> do_prefetch_one env (v\<lparr>prefetch_queue := q\<rparr>) (model, ck, key) deadline)"

text \<open>\<open>put_nowait\<close> on a queue of that size; size 0 is a queue without a bound.\<close>

definition enqueue_hint :: "KvdServer \<Rightarrow> byte list \<times> string \<times> string \<times> int \<Rightarrow> KvdServer" where
  "enqueue_hint v hint =
     (if prefetch_inflight v = 0 \<or> length (prefetch_queue v) < prefetch_inflight v then v\<lparr>prefetch_queue := prefetch_queue v @ [hint]\<rparr>
      else v\<lparr>prefetch_dropped_total := prefetch_dropped_total v + 1\<rparr>)"

section \<open>Handlers\<close>

text \<open>The response to a hit; \<open>shared\<close> says that the client maps the arena.\<close>

definition answer_entry :: "bool \<Rightarrow> HostStore \<Rightarrow> Entry \<Rightarrow> kvd_response \<times> HostStore" where
  "answer_entry shared s e =
     (case (he_slot e, shared_arena s) of
        (Some slot, Some a) \<Rightarrow>
          if shared then
            (case get_slot_metadata a (int slot) of
               None \<Rightarrow> (case resolve_value s e of
                          (v, s) \<Rightarrow> (GetResponse (if v = [] then None else Some v) (Some (he_retention e)), s))
             | Some (off, len, ver) \<Rightarrow> (GetSharedResponse (off, len, ver, he_retention e) (slot_size a), s))
          else (case resolve_value s e of (v, s) \<Rightarrow> (GetResponse (Some v) (Some (he_retention e)), s))
      | _ \<Rightarrow> (case resolve_value s e of (v, s) \<Rightarrow> (GetResponse (Some v) (Some (he_retention e)), s)))"

definition handle_get :: "op_env \<Rightarrow> bool \<Rightarrow> KvdServer \<Rightarrow> identity \<Rightarrow> kvd_response \<times> KvdServer" where
  "handle_get env shared v k =
     (case host_get env (srv_store v) k of
        (Inl _, s) \<Rightarrow> (ErrorMessage ''internal_error'', v\<lparr>srv_store := s\<rparr>)
      | (Inr None, s) \<Rightarrow> (GetResponse None None, v\<lparr>srv_store := s\<rparr>)
      | (Inr (Some e), s) \<Rightarrow>
          (case answer_entry shared s e of
             (resp, s) \<Rightarrow> (resp, claim_warmed_key (v\<lparr>srv_store := s\<rparr>) (block_key k))))"

fun resolve_all :: "HostStore \<Rightarrow> Entry option list \<Rightarrow> byte list option list \<times> HostStore" where
  "resolve_all s [] = ([], s)"
| "resolve_all s (None # es) = (case resolve_all s es of (vs, s) \<Rightarrow> (None # vs, s))"
| "resolve_all s (Some e # es) =
     (case resolve_value s e of
        (v, s) \<Rightarrow> (case resolve_all s es of (vs, s) \<Rightarrow> (Some v # vs, s)))"

definition shared_ref_of :: "SharedArena \<Rightarrow> Entry option \<Rightarrow> shared_ref option" where
  "shared_ref_of a r =
     (case r of
        None \<Rightarrow> None
      | Some e \<Rightarrow>
          (case he_slot e of
             None \<Rightarrow> None
           | Some slot \<Rightarrow> map_option (\<lambda>(off, len, ver). (off, len, ver, he_retention e)) (get_slot_metadata a (int slot))))"

definition claimed :: "bool \<Rightarrow> Entry option \<Rightarrow> byte list option" where
  "claimed shared r =
     (case r of None \<Rightarrow> None | Some e \<Rightarrow> if shared \<and> he_slot e = None then None else Some (he_key e))"

definition claim_all :: "bool \<Rightarrow> KvdServer \<Rightarrow> Entry option list \<Rightarrow> KvdServer" where
  "claim_all shared v es = foldl claim_warmed_key v (List.map_filter (claimed shared) es)"

definition handle_batch_get ::
  "op_env \<Rightarrow> bool \<Rightarrow> KvdServer \<Rightarrow> identity list \<Rightarrow> kvd_response \<times> KvdServer" where
  "handle_batch_get env shared v ks =
     (case host_get_many env (srv_store v) ks of
        (Inl _, s) \<Rightarrow> (ErrorMessage ''internal_error'', v\<lparr>srv_store := s\<rparr>)
      | (Inr es, s) \<Rightarrow>
          (case shared_arena s of
             Some a \<Rightarrow>
               if shared then
                 (BatchGetSharedResponse (map (shared_ref_of a) es) (slot_size a), claim_all True (v\<lparr>srv_store := s\<rparr>) es)
               else (case resolve_all s es of
                       (vs, s) \<Rightarrow> (BatchGetResponse vs (map (map_option he_retention) es), claim_all False (v\<lparr>srv_store := s\<rparr>) es))
           | None \<Rightarrow>
               (case resolve_all s es of
                  (vs, s) \<Rightarrow> (BatchGetResponse vs (map (map_option he_retention) es), claim_all False (v\<lparr>srv_store := s\<rparr>) es))))"

definition handle_set ::
  "op_env \<Rightarrow> KvdServer \<Rightarrow> identity \<Rightarrow> byte list \<Rightarrow> string \<Rightarrow> entry_meta \<Rightarrow> real option \<Rightarrow> kvd_response \<times> KvdServer" where
  "handle_set env v k value ret meta ttl =
     (case host_set env (srv_store v) k value ret meta ttl of
        (Inl _, s) \<Rightarrow> (ErrorMessage ''internal_error'', v\<lparr>srv_store := s\<rparr>)
      | (Inr (accepted, reason), s) \<Rightarrow> (SetAck accepted reason, v\<lparr>srv_store := s\<rparr>))"

fun batch_set_loop ::
  "op_env \<Rightarrow> HostStore \<Rightarrow> (identity \<times> byte list \<times> string \<times> entry_meta \<times> real option) list \<Rightarrow>
   (py_error + put_result list) \<times> HostStore" where
  "batch_set_loop env s [] = (Inr [], s)"
| "batch_set_loop env s ((k, value, ret, meta, ttl) # xs) =
     (case host_set env s k value ret meta ttl of
        (Inl e, s) \<Rightarrow> (Inl e, s)
      | (Inr r, s) \<Rightarrow>
          (case batch_set_loop env s xs of
             (Inl e, s) \<Rightarrow> (Inl e, s)
           | (Inr rs, s) \<Rightarrow> (Inr (r # rs), s)))"

definition handle_batch_set ::
  "op_env \<Rightarrow> KvdServer \<Rightarrow> string \<Rightarrow> string \<Rightarrow> byte list list \<Rightarrow> byte list list \<Rightarrow> string list \<Rightarrow>
   entry_meta list \<Rightarrow> real option list option \<Rightarrow> kvd_response \<times> KvdServer" where
  "handle_batch_set env v model ck keys values rets metas ttls =
     (let n = length keys in
      if \<not> (length values = n \<and> length rets = n \<and> length metas = n \<and>
            (case ttls of None \<Rightarrow> True | Some ts \<Rightarrow> length ts = n))
      then (ErrorMessage ''batch_set_arity_mismatch'', v)
      else
        let ts = (case ttls of None \<Rightarrow> replicate n None | Some ts \<Rightarrow> ts);
            items = zip (map (\<lambda>k. (model, ck, k)) keys) (zip values (zip rets (zip metas ts)))
        in case batch_set_loop env (srv_store v) items of
             (Inl _, s) \<Rightarrow> (ErrorMessage ''internal_error'', v\<lparr>srv_store := s\<rparr>)
           | (Inr rs, s) \<Rightarrow> (BatchSetAck (map fst rs) (map snd rs), v\<lparr>srv_store := s\<rparr>))"

text \<open>The two phases of a zero-copy save and its cancellation.\<close>

definition handle_reserve :: "nat \<Rightarrow> KvdServer \<Rightarrow> int \<Rightarrow> kvd_response \<times> KvdServer" where
  "handle_reserve conn v sz =
     (case shared_arena (srv_store v) of
        None \<Rightarrow> (SetReserveResponse None ''no_arena'', v)
      | Some a \<Rightarrow>
          (case reserve a sz conn of
             (res, a) \<Rightarrow>
               (case res of
                  Inl _ \<Rightarrow> ErrorMessage ''internal_error''
                | Inr None \<Rightarrow>
                    SetReserveResponse None
                      (if slot_size a > 0 \<and> sz + int HEADER_BYTES > int (slot_size a) then ''oversize''
                       else if sz > int (arena_capacity a) then ''oversize'' else ''arena_full_no_evictable'')
                | Inr (Some (token, slot, off)) \<Rightarrow> SetReserveResponse (Some (token, slot, off, slot_size a - HEADER_BYTES)) '''',
                v\<lparr>srv_store := (srv_store v)\<lparr>shared_arena := Some a\<rparr>\<rparr>)))"

definition commit_reason :: "commit_result \<Rightarrow> string" where
  "commit_reason r = (case r of Committed _ \<Rightarrow> '''' | UnknownLease \<Rightarrow> ''unknown_lease''
     | WrongOwner \<Rightarrow> ''wrong_owner'' | OversizeCommit \<Rightarrow> ''oversize_commit'')"

text \<open>\<open>arena.get_slot_for_key(key) or -1\<close>: slot 0 is falsy.\<close>

definition slot_or_minus_one :: "nat option \<Rightarrow> nat option" where
  "slot_or_minus_one x = (case x of None \<Rightarrow> None | Some n \<Rightarrow> if n = 0 then None else Some n)"

definition handle_commit ::
  "op_env \<Rightarrow> nat \<Rightarrow> KvdServer \<Rightarrow> nat \<Rightarrow> identity \<Rightarrow> int \<Rightarrow> string \<Rightarrow> int \<Rightarrow> kvd_response \<times> KvdServer" where
  "handle_commit env conn v token k len ret ttl =
     (case shared_arena (srv_store v) of
        None \<Rightarrow> (SetCommitResponse False ''no_arena'', v)
      | Some a \<Rightarrow>
          let ret = (if ret = ''default'' \<or> ret = [] then ''short'' else ret) in
          if ret \<notin> {''none'', ''ephemeral'', ''short'', ''long''} then (SetCommitResponse False ''bad_retention'', v)
          else
            (case commit_reservation a token (block_key k) len conn of
               (Inl _, a) \<Rightarrow> (ErrorMessage ''internal_error'', v\<lparr>srv_store := (srv_store v)\<lparr>shared_arena := Some a\<rparr>\<rparr>)
             | (Inr (Committed overwritten), a) \<Rightarrow>
                 (case get_slot_for_key a (block_key k) of
                    (slot, a) \<Rightarrow>
                      (case commit_arena_lease env ((srv_store v)\<lparr>shared_arena := Some a\<rparr>) k (slot_or_minus_one slot) (nat len) ret
                              (if ttl > 0 then Some (real_of_int ttl) else None) overwritten of
                         (None, s) \<Rightarrow> (SetCommitResponse True '''', v\<lparr>srv_store := s\<rparr>)
                       | (Some _, s) \<Rightarrow> (SetCommitResponse False ''commit_failed'', v\<lparr>srv_store := s\<rparr>)))
             | (Inr r, a) \<Rightarrow> (SetCommitResponse False (commit_reason r), v\<lparr>srv_store := (srv_store v)\<lparr>shared_arena := Some a\<rparr>\<rparr>)))"

definition handle_cancel :: "nat \<Rightarrow> KvdServer \<Rightarrow> nat \<Rightarrow> kvd_response \<times> KvdServer" where
  "handle_cancel conn v token =
     (SetCancelResponse,
      v\<lparr>srv_store := (srv_store v)\<lparr>shared_arena :=
          map_option (\<lambda>a. snd (cancel_reservation a token conn)) (shared_arena (srv_store v))\<rparr>\<rparr>)"

definition region_bytes :: "SsdRegion option \<Rightarrow> int" where
  "region_bytes r = (case r of None \<Rightarrow> 0 | Some r \<Rightarrow> region_used r)"

fun dispatch :: "op_env \<Rightarrow> bool \<Rightarrow> nat \<Rightarrow> KvdServer \<Rightarrow> kvd_msg \<Rightarrow> kvd_response \<times> KvdServer" where
  "dispatch env shared conn v (MGet k) = handle_get env shared v k"
| "dispatch env shared conn v (MBatchGet model ck keys) = handle_batch_get env shared v (map (\<lambda>k. (model, ck, k)) keys)"
| "dispatch env shared conn v (MSet k value ret meta ttl) = handle_set env v k value ret meta ttl"
| "dispatch env shared conn v (MBatchSet model ck keys values rets metas ttls) =
     handle_batch_set env v model ck keys values rets metas ttls"
| "dispatch env shared conn v (MSetReserve sz) = handle_reserve conn v sz"
| "dispatch env shared conn v (MSetCommit token k len ret ttl) = handle_commit env conn v token k len ret ttl"
| "dispatch env shared conn v (MSetCancel token) = handle_cancel conn v token"
| "dispatch env shared conn v (MPrefetchHint model ck keys deadline) =
     (NoResponse, foldl enqueue_hint (v\<lparr>prefetch_hints_total := prefetch_hints_total v + 1\<rparr>)
        (map (\<lambda>k. (k, model, ck, deadline)) keys))"
| "dispatch env shared conn v (MExists model ck keys) =
     (case host_exists env (srv_store v) (map (\<lambda>k. (model, ck, k)) keys) of
        (bs, s) \<Rightarrow> (ExistsResponse bs, v\<lparr>srv_store := s\<rparr>))"
| "dispatch env shared conn v (MClear model ck) =
     (case host_clear env (srv_store v) model ck of (n, s) \<Rightarrow> (ClearAck n, v\<lparr>srv_store := s\<rparr>))"
| "dispatch env shared conn v MStats =
     (let s = srv_store v
      in (StatsResponse (length (store_entries s)) (host_bytes s) (region_bytes (store_spillover s))
            (region_bytes (store_long s)) (store_stats s), v))"
| "dispatch env shared conn v MHello = (HelloAck, v)"
| "dispatch env shared conn v MOther = (ErrorMessage ''bad_op'', v)"

text \<open>A connection that ends gives its leases back.\<close>

definition disconnect :: "KvdServer \<Rightarrow> nat \<Rightarrow> KvdServer" where
  "disconnect v conn =
     v\<lparr>srv_store := (srv_store v)\<lparr>shared_arena :=
         map_option (\<lambda>a. snd (cancel_connection_reservations a conn)) (shared_arena (srv_store v))\<rparr>\<rparr>"


section \<open>Slots of other keys\<close>

text \<open>The eviction log has room for one more key.\<close>

definition log_room :: "SharedArena \<Rightarrow> bool" where
  "log_room a \<longleftrightarrow> length (recent_evicted_keys a) < EVICT_LOG_CAP"

lemma log_eviction_room: "log_room a \<Longrightarrow> recent_evicted_keys (log_eviction a k) = recent_evicted_keys a @ [k]"
  by (simp add: log_room_def log_eviction_def Let_def)

lemma init_grid_log: "init_grid a n = Some b \<Longrightarrow> recent_evicted_keys b = recent_evicted_keys a"
  by (auto simp: init_grid_def Let_def split: if_splits)

lemma free_key_log [simp]: "recent_evicted_keys (free_key a k) = recent_evicted_keys a"
  by (simp add: free_key_def split: option.split)

text \<open>What becomes of a key's slot when another slot is taken.\<close>

lemma take_slot_fate:
  assumes "take_slot a = Inr (slot, b)" and "log_room a"
  shows "set (recent_evicted_keys a) \<subseteq> set (recent_evicted_keys b)"
    and "dict_get (slot_index a) key = Some s \<Longrightarrow>
      dict_get (slot_index b) key = Some s \<or> key \<in> set (recent_evicted_keys b) \<and> s = slot"
proof -
  have "set (recent_evicted_keys a) \<subseteq> set (recent_evicted_keys b) \<and> (dict_get (slot_index a) key = Some s \<longrightarrow>
      dict_get (slot_index b) key = Some s \<or> key \<in> set (recent_evicted_keys b) \<and> s = slot)"
  proof (cases "free_slots a = []")
    case True
    then obtain k rest where i: "slot_index a = (k, slot) # rest"
      and b: "b = log_eviction (a\<lparr>slot_index := rest, arena_evictions := arena_evictions a + 1\<rparr>) k"
      using assms(1) by (auto simp: take_slot_def split: list.splits)
    have "recent_evicted_keys b = recent_evicted_keys a @ [k]"
      unfolding b using log_eviction_room [of "a\<lparr>slot_index := rest, arena_evictions := arena_evictions a + 1\<rparr>" k] assms(2)
      by (simp add: log_room_def)
    then show ?thesis by (auto simp: i b)
  next
    case False
    then show ?thesis using assms(1) by (auto simp: take_slot_def)
  qed
  then show "set (recent_evicted_keys a) \<subseteq> set (recent_evicted_keys b)"
    "dict_get (slot_index a) key = Some s \<Longrightarrow> dict_get (slot_index b) key = Some s \<or> key \<in> set (recent_evicted_keys b) \<and> s = slot"
    by blast+
qed

lemma put_alloc_cases:
  assumes "put_alloc a k n = (res, b)" and "arena_inv a"
  obtains (refused) "\<And>slot. res \<noteq> Inr (Some slot)" "slot_index b = slot_index a" "recent_evicted_keys b = recent_evicted_keys a" "mem b = mem a"
  | (taken) c slot d where "res = Inr (Some slot)" "slot_index c = slot_index a" "recent_evicted_keys c = recent_evicted_keys a"
      "take_slot (free_key c k) = Inr (slot, d)" "b = d\<lparr>slot_index := dict_put k slot (slot_index d)\<rparr>" "mem c = mem a"
proof (cases "n > arena_capacity a \<or> init_grid a n = None")
  case True
  then show ?thesis using assms(1) refused by (auto simp: put_alloc_def split: if_splits)
next
  case False
  then obtain c where c: "init_grid a n = Some c" "\<not> n > arena_capacity a" by auto
  have ci: "slot_index c = slot_index a" "recent_evicted_keys c = recent_evicted_keys a" "mem c = mem a"
    using init_grid_inv [OF assms(2) c(1)] init_grid_log [OF c(1)] by simp_all
  show ?thesis
  proof (cases "n + HEADER_BYTES > slot_size c")
    case True
    then show ?thesis using assms(1) c ci refused by (auto simp: put_alloc_def)
  next
    case fits: False
    show ?thesis
    proof (cases "take_slot (free_key c k)")
      case (Inl e)
      then have "free_slots (free_key c k) = []" by (auto simp: take_slot_def split: if_splits)
      then have "free_key c k = c" by (auto simp: free_key_def split: option.splits)
      then show ?thesis using assms(1) c ci fits Inl refused by (auto simp: put_alloc_def)
    next
      case (Inr x)
      obtain slot d where x: "x = (slot, d)" by (cases x)
      show ?thesis by (rule taken [of slot c d]) (use assms(1) c ci fits Inr x in \<open>simp_all add: put_alloc_def\<close>)
    qed
  qed
qed

lemma put_alloc_fate:
  assumes "put_alloc a k n = (res, b)" and "arena_inv a" and "log_room a"
  shows "set (recent_evicted_keys a) \<subseteq> set (recent_evicted_keys b)" and "mem b = mem a"
    and "dict_get (slot_index a) key = Some s \<Longrightarrow>
      dict_get (slot_index b) key = Some s \<or> res = Inr (Some s) \<and> key \<in> set (recent_evicted_keys b)"
    and "(\<And>slot. res \<noteq> Inr (Some slot)) \<Longrightarrow> recent_evicted_keys b = recent_evicted_keys a"
proof -
  have "set (recent_evicted_keys a) \<subseteq> set (recent_evicted_keys b) \<and> mem b = mem a \<and> (dict_get (slot_index a) key = Some s \<longrightarrow>
      dict_get (slot_index b) key = Some s \<or> res = Inr (Some s) \<and> key \<in> set (recent_evicted_keys b)) \<and>
      ((\<forall>slot. res \<noteq> Inr (Some slot)) \<longrightarrow> recent_evicted_keys b = recent_evicted_keys a)"
    using assms(1,2)
  proof (cases rule: put_alloc_cases)
    case (taken c slot d)
    have room: "log_room (free_key c k)" using assms(3) by (simp add: log_room_def taken(3))
    note F = take_slot_fate [OF taken(4) room]
    have mem: "mem b = mem a" using take_slot_spec [OF taken(4)] taken(5,6) by simp
    have log: "set (recent_evicted_keys a) \<subseteq> set (recent_evicted_keys b)" using F(1) by (simp add: taken(3,5))
    have "dict_get (slot_index b) key = Some s \<or> res = Inr (Some s) \<and> key \<in> set (recent_evicted_keys b)"
      if i: "dict_get (slot_index a) key = Some s"
    proof (cases "key = k")
      case True
      then have "slot = s" using taken(2,4) i by (auto simp: take_slot_def free_key_def)
      then show ?thesis using True by (simp add: taken(5) dict_get_put)
    next
      case False
      then have "dict_get (slot_index (free_key c k)) key = Some s" using i by (simp add: free_key_index taken(2))
      from F(2) [OF this] show ?thesis using False by (auto simp: taken(1,5) dict_get_put)
    qed
    with mem log show ?thesis by (simp add: taken(1))
  qed simp
  then show "set (recent_evicted_keys a) \<subseteq> set (recent_evicted_keys b)" "mem b = mem a"
    "dict_get (slot_index a) key = Some s \<Longrightarrow> dict_get (slot_index b) key = Some s \<or> res = Inr (Some s) \<and> key \<in> set (recent_evicted_keys b)"
    "(\<And>slot. res \<noteq> Inr (Some slot)) \<Longrightarrow> recent_evicted_keys b = recent_evicted_keys a"
    by blast+
qed

text \<open>A row's slot is the one the index has for its key, or the key waits in the log and the slot
  is being written.\<close>

definition loosely :: "SharedArena \<Rightarrow> byte list \<Rightarrow> nat \<Rightarrow> bool" where
  "loosely a key slot \<longleftrightarrow> dict_get (slot_index a) key = Some slot \<or> key \<in> set (recent_evicted_keys a)"

definition backed :: "SharedArena \<Rightarrow> byte list \<Rightarrow> nat \<Rightarrow> bool" where
  "backed a key slot \<longleftrightarrow> dict_get (slot_index a) key = Some slot \<or>
     key \<in> set (recent_evicted_keys a) \<and> slot_version (mem a slot) mod 2 = 1"

lemma backed_loosely: "backed a key slot \<Longrightarrow> loosely a key slot"
  by (auto simp: backed_def loosely_def)

lemma put_write_fields:
  "slot_index (snd (put_write a slot v)) = slot_index a" "recent_evicted_keys (snd (put_write a slot v)) = recent_evicted_keys a"
  by (simp_all add: put_write_def split: prod.split option.split)

lemma write_slot_failed_odd:
  assumes "write_slot_seqlock v m = (Some e, m')" and "slot_version m < 2 ^ 32"
  shows "slot_version m' mod 2 = 1"
proof (cases "next_odd (slot_version m) < 2 ^ 32")
  case True
  then have "slot_version m' = next_odd (slot_version m)"
    using assms(1) by (auto simp: write_slot_seqlock_def pack_u32_def Let_def write_payload_def split: if_splits)
  then show ?thesis by (simp add: next_odd_odd)
next
  case False
  then have "m' = m" using assms(1) by (simp add: write_slot_seqlock_def pack_u32_def)
  moreover have "slot_version m mod 2 = 1" using False assms(2) by (auto simp: next_odd_def split: if_splits)
  ultimately show ?thesis by simp
qed

lemma arena_put_fate:
  assumes "arena_put a k v = (res, b)" and "arena_inv a" and "log_room a"
  shows "loosely a key s \<Longrightarrow> loosely b key s"
    and "(\<And>slot. res \<noteq> Inr (Some slot)) \<Longrightarrow> backed a key s \<Longrightarrow> backed b key s"
    and "res = Inr (Some slot) \<Longrightarrow> dict_get (slot_index b) k = Some slot"
    and "res = Inr None \<Longrightarrow> log_room b"
proof -
  obtain r c where al: "put_alloc a k (length v) = (r, c)" by (cases "put_alloc a k (length v)")
  note F = put_alloc_fate [OF al assms(2,3)]
  show "loosely b key s" if "loosely a key s"
  proof -
    have "slot_index b = slot_index c \<and> recent_evicted_keys b = recent_evicted_keys c"
      using assms(1) put_write_fields [of c _ v]
      by (auto simp: arena_put_def al split: sum.splits option.splits prod.splits) (metis snd_conv)+
    then show ?thesis using that F(1,3) by (auto simp: loosely_def)
  qed
  show "dict_get (slot_index b) k = Some slot" if "res = Inr (Some slot)"
  proof -
    have r: "r = Inr (Some slot)" using assms(1) that by (auto simp: arena_put_def al split: sum.splits option.splits prod.splits)
    have "dict_get (slot_index c) k = Some slot" using put_alloc_accepted [OF assms(2)] al r by blast
    moreover have "slot_index b = slot_index c"
      using assms(1) put_write_fields(1) [of c slot v] by (auto simp: arena_put_def al r split: prod.splits option.splits)
    ultimately show ?thesis by simp
  qed
  show "log_room b" if "res = Inr None"
  proof -
    have "r = Inr None" "b = c" using assms(1) that by (auto simp: arena_put_def al split: sum.splits option.splits prod.splits)
    then show ?thesis using F(4) assms(3) by (simp add: log_room_def)
  qed
  show "backed b key s" if no: "\<And>slot. res \<noteq> Inr (Some slot)" and bk: "backed a key s"
  proof (cases "\<exists>slot. r = Inr (Some slot)")
    case False
    then have "b = c" using assms(1) by (auto simp: arena_put_def al split: sum.splits option.splits)
    then show ?thesis using bk False F by (auto simp: backed_def)
  next
    case True
    then obtain slot where r: "r = Inr (Some slot)" by blast
    obtain e m where w: "write_slot_seqlock v (mem c slot) = (Some e, m)" and b: "b = c\<lparr>mem := (mem c)(slot := m)\<rparr>"
      using assms(1) no by (auto simp: arena_put_def al r put_write_def split: prod.splits option.splits)
    have odd: "slot_version m mod 2 = 1"
      by (rule write_slot_failed_odd [OF w]) (use arena_invD(6) [OF assms(2)] F(2) in simp)
    show ?thesis using bk F(1) F(3) [of key s] odd by (auto simp: backed_def b r F(2))
  qed
qed


lemma reserve_backed:
  assumes "reserve a n c = (res, b)" and "arena_inv a" and "log_room a" and "backed a key s"
  shows "backed b key s"
proof (cases "n \<le> 0 \<or> nat n > arena_capacity a \<or> init_grid a (nat n) = None")
  case True
  then show ?thesis using assms(1,4) by (auto simp: reserve_def backed_def split: if_splits option.splits)
next
  case False
  then obtain g where g: "init_grid a (nat n) = Some g" "\<not> n \<le> 0" "\<not> nat n > arena_capacity a" by auto
  have gi: "slot_index g = slot_index a" "recent_evicted_keys g = recent_evicted_keys a" "mem g = mem a" "arena_inv g"
    using init_grid_inv [OF assms(2) g(1)] init_grid_log [OF g(1)] by simp_all
  have bg: "backed g key s" "log_room g" using assms(3,4) by (simp_all add: backed_def log_room_def gi)
  show ?thesis
  proof (cases "nat n + HEADER_BYTES > slot_size g \<or> (free_slots g = [] \<and> slot_index g = []) \<or> (\<exists>e. take_slot g = Inl e)")
    case True
    then have "b = g" using assms(1) g by (auto simp: reserve_def split: if_splits)
    then show ?thesis using bg by simp
  next
    case False
    then obtain slot d where t: "take_slot g = Inr (slot, d)" by (cases "take_slot g") auto
    note F = take_slot_fate [OF t bg(2)]
    have md: "mem d = mem a" using take_slot_spec [OF t] gi(3) by simp
    obtain e m where w: "mark_writing (mem d slot) = (e, m)" by (cases "mark_writing (mem d slot)")
    have odd: "slot_version m mod 2 = 1 \<and> (e \<noteq> None \<longrightarrow> m = mem d slot)"
      using mark_writing_odd [OF _ w] arena_invD(6) [OF assms(2)] md by simp
    have b: "slot_index b = slot_index d" "recent_evicted_keys b = recent_evicted_keys d" "mem b = (mem d)(slot := m)"
      using assms(1) g False t w odd by (auto simp: reserve_def Let_def split: option.splits if_splits)
    show ?thesis using bg(1) F(1) F(2) [of key s] odd by (auto simp: backed_def b md gi)
  qed
qed

lemma commit_fate:
  assumes "commit_reservation a t k n c = (Inr r, b)"
  shows "(\<exists>x. r = Committed x) \<and> recent_evicted_keys b = recent_evicted_keys a \<and>
      (\<exists>slot. dict_get (slot_index b) k = Some slot) \<and> (\<forall>key. key \<noteq> k \<longrightarrow> dict_get (slot_index b) key = dict_get (slot_index a) key) \<or>
    b = a \<and> \<not> (\<exists>x. r = Committed x)"
  using assms
  by (auto simp: commit_reservation_def Let_def dict_get_put dict_get_del split: option.splits if_splits prod.splits)

lemma evict_key_index:
  "dict_get (slot_index (snd (arena_evict_key a k False))) key = (if key = k then None else dict_get (slot_index a) key)"
  "recent_evicted_keys (snd (arena_evict_key a k False)) = recent_evicted_keys a"
  "mem (snd (arena_evict_key a k False)) = mem a"
  by (auto simp: arena_evict_key_def Let_def free_key_index split: option.split)

lemma cancel_fields:
  "slot_index (snd (cancel_reservation a t c)) = slot_index a" "recent_evicted_keys (snd (cancel_reservation a t c)) = recent_evicted_keys a"
  "mem (snd (cancel_reservation a t c)) = mem a"
  "slot_index (snd (cancel_connection_reservations a c)) = slot_index a"
  "recent_evicted_keys (snd (cancel_connection_reservations a c)) = recent_evicted_keys a"
  "mem (snd (cancel_connection_reservations a c)) = mem a"
  by (simp_all add: cancel_reservation_def cancel_connection_reservations_def Let_def split: option.split)

section \<open>Regions that hold the right bytes\<close>

text \<open>\<open>content\<close> is what a key stands for. Empty bytes stand for a block that cannot be read.\<close>

definition served :: "(identity \<Rightarrow> byte list) \<Rightarrow> identity \<Rightarrow> byte list \<Rightarrow> bool" where
  "served content k v \<longleftrightarrow> v = [] \<or> v = content k"

definition region_good :: "(identity \<Rightarrow> bool) \<Rightarrow> (identity \<Rightarrow> byte list) \<Rightarrow> ssd_lib \<Rightarrow> SsdRegion \<Rightarrow> bool" where
  "region_good ok content lib r \<longleftrightarrow> region_wf r \<and>
     (\<forall>k. dict_get (region_entries r) k \<noteq> None \<longrightarrow> names_ok k \<and> ok k) \<and>
     (\<forall>k b. names_ok k \<longrightarrow> dict_get (region_disk r) (data_path lib k) = Some b \<longrightarrow> served content k b)"

lemma region_goodD:
  assumes "region_good ok content lib r"
  shows "region_wf r" and "dict_get (region_entries r) k \<noteq> None \<Longrightarrow> names_ok k \<and> ok k"
    and "names_ok k \<Longrightarrow> dict_get (region_disk r) (data_path lib k) = Some b \<Longrightarrow> served content k b"
  using assms unfolding region_good_def by blast+

lemma region_goodI:
  assumes "region_wf r" and "\<And>k. dict_get (region_entries r) k \<noteq> None \<Longrightarrow> names_ok k \<and> ok k"
    and "\<And>k b. names_ok k \<Longrightarrow> dict_get (region_disk r) (data_path lib k) = Some b \<Longrightarrow> served content k b"
  shows "region_good ok content lib r"
  using assms unfolding region_good_def by blast

text \<open>Dropping entries and unlinking files.\<close>

lemma region_good_drop:
  assumes "region_good ok content lib r" and "region_wf r'"
    and "\<And>k. dict_get (region_entries r') k \<noteq> None \<Longrightarrow> dict_get (region_entries r) k \<noteq> None"
    and "\<And>p b. dict_get (region_disk r') p = Some b \<Longrightarrow> dict_get (region_disk r) p = Some b"
  shows "region_good ok content lib r'"
  by (rule region_goodI) (use assms region_goodD [OF assms(1)] in blast)+

lemma unlinks_shrink:
  assumes "\<forall>op \<in> set ops. \<exists>p. op = Unlink p" and "dict_get (run_ops d ops) p = Some b"
  shows "dict_get d p = Some b"
  using assms(2) by (simp add: run_unlinks [OF assms(1)] split: if_splits)

lemma evict_ops_unlinks: "\<forall>op \<in> set (evict_ops lib vs). \<exists>p. op = Unlink p"
  by (auto simp: evict_ops_unlink)

lemma region_good_put:
  assumes "region_good ok content lib r" and "names_ok k" and "ok k" and "served content k v"
  shows "region_good ok content lib (snd (region_put kind wrong full lib now rand io r k v ret meta))"
proof (cases "validate_retention ret")
  case (Inl e)
  then show ?thesis using assms(1) by (simp add: region_put_def)
next
  case (Inr y)
  note G = region_goodD [OF assms(1)]
  obtain r1 dops accepted reason where p: "put_plan kind wrong full lib now rand io r k v ret meta = (r1, dops, accepted, reason)"
    by (cases "put_plan kind wrong full lib now rand io r k v ret meta")
  let ?e = "written_entry r now k v ret meta"
  obtain vs W where dops: "dops = evict_ops lib vs @ W"
    and r1: "\<forall>k'. k' \<noteq> k \<longrightarrow> dict_get (region_entries r1) k' =
      (if k' \<in> ent_identity ` set vs then None else dict_get (region_entries r) k')"
    and W: "W = [] \<or> write_block_file lib now rand io ?e v = (W, accepted)"
    using put_plan_shape [OF G(1) p] by blast
  have dk: "region_disk r1 = region_disk r" using put_disk [OF G(1), of kind wrong full lib now rand io k v ret meta] p by simp
  have wf: "region_wf r1" using put_plan_wf [OF G(1), of kind wrong full lib now rand io k v ret meta] p by simp
  let ?d = "run_ops (region_disk r) (evict_ops lib vs)"
  have s: "snd (region_put kind wrong full lib now rand io r k v ret meta) = r1\<lparr>region_disk := run_ops ?d W\<rparr>"
    by (simp add: region_put_def Inr p execute_def dk dops)
  have ide: "ent_identity ?e = k" by (rule written_entry_identity [OF G(1)])
  show ?thesis unfolding s
  proof (rule region_goodI)
    show "region_wf (r1\<lparr>region_disk := run_ops ?d W\<rparr>)" using wf by simp
  next
    fix i assume i: "dict_get (region_entries (r1\<lparr>region_disk := run_ops ?d W\<rparr>)) i \<noteq> None"
    show "names_ok i \<and> ok i"
    proof (cases "i = k")
      case False
      then have "dict_get (region_entries r) i \<noteq> None" using i r1 by (simp split: if_splits)
      then show ?thesis by (rule G(2))
    qed (use assms(2,3) in simp)
  next
    fix i b assume i: "names_ok i" and b: "dict_get (region_disk (r1\<lparr>region_disk := run_ops ?d W\<rparr>)) (data_path lib i) = Some b"
    have old: "served content i b" if "dict_get ?d (data_path lib i) = Some b"
      using G(3) [OF i] unlinks_shrink [OF evict_ops_unlinks that] by blast
    have b': "dict_get (run_ops ?d W) (data_path lib i) = Some b" using b by simp
    from W show "served content i b"
    proof
      assume "W = []"
      then show ?thesis using old b' by simp
    next
      assume w: "write_block_file lib now rand io ?e v = (W, accepted)"
      show ?thesis
      proof (cases "i = k")
        case True
        have "dict_get (run_ops ?d W) (data_path lib k) = dict_get ?d (data_path lib k) \<or> dict_get (run_ops ?d W) (data_path lib k) = Some v"
          using write_prefix_data [OF w ide assms(2), of ?d "length W"] by auto
        then show ?thesis using b' old assms(4) True by auto
      next
        case False
        have "data_path lib i \<notin> op_targets op" if "op \<in> set W" for op
          using write_ops_own [OF w that] own_path_other(1) [OF _ assms(2) i False] ide by metis
        then have "dict_get (run_ops ?d W) (data_path lib i) = dict_get ?d (data_path lib i)" by (intro run_ops_frame) blast
        then show ?thesis using b' old by simp
      qed
    qed
  qed
qed


lemma region_good_read:
  assumes "region_good ok content lib r" and "read_region env r k = (hit, r')" and "env_lib env = lib"
  shows "region_good ok content lib r' \<and> (\<forall>e v. hit = Some (e, v) \<longrightarrow> ok k \<and> served content k v)"
proof (cases "dict_get (region_entries r) k")
  case None
  then show ?thesis using assms(1,2) by (auto simp: read_region_def get_entry_def)
next
  case (Some e)
  note G = region_goodD [OF assms(1)]
  have nk: "names_ok k" "ok k" using G(2) Some by simp_all
  have id: "ent_identity e = k" by (rule region_wfD(3) [OF G(1) Some])
  let ?e = "e\<lparr>ent_last_access := fst (env_now env)\<rparr>"
  let ?r = "r\<lparr>region_entries := dict_put k ?e (region_entries r)\<rparr>"
  have wf: "region_wf ?r" by (rule touch_entry_wf [OF G(1) Some])
  have good: "region_good ok content lib ?r"
    by (rule region_good_drop [OF assms(1) wf]) (use Some in \<open>auto simp: dict_get_put split: if_splits\<close>)
  have dp: "fst (paths_for lib e) = data_path lib k" by (simp add: paths_for_identity id)
  show ?thesis
  proof (cases "dict_get (region_disk r) (data_path lib k)")
    case None
    have "region_wf (forget_entry ?r k ?e)" by (rule forget_entry_wf(1) [OF wf]) (simp add: dict_get_put)
    then have "region_good ok content lib (forget_entry ?r k ?e)"
      by (rule region_good_drop [OF good]) (auto simp: forget_entry_def dict_get_put dict_get_del split: if_splits)
    then show ?thesis using assms(2,3) Some None by (auto simp: read_region_def get_entry_def get_bytes_def Let_def dp)
  next
    case (Some b)
    then show ?thesis
      using assms(2,3) \<open>dict_get (region_entries r) k = Some e\<close> good nk G(3) [OF nk(1) Some]
      by (auto simp: read_region_def get_entry_def get_bytes_def Let_def dp)
  qed
qed

lemma region_good_remove:
  assumes "region_good ok content lib r"
  shows "region_good ok content lib (snd (region_remove lib r k))"
proof (cases "dict_get (region_entries r) k")
  case (Some e)
  note G = region_goodD [OF assms]
  let ?r = "(forget_entry r k e)\<lparr>region_disk := run_ops (region_disk r) (evict_ops lib [e])\<rparr>"
  have "region_good ok content lib ?r"
  proof (rule region_good_drop [OF assms])
    show "region_wf ?r" using forget_entry_wf(1) [OF G(1) Some] by simp
  next
    fix p b assume "dict_get (region_disk ?r) p = Some b"
    then have "dict_get (run_ops (region_disk r) (evict_ops lib [e])) p = Some b" by simp
    then show "dict_get (region_disk r) p = Some b" by (rule unlinks_shrink [OF evict_ops_unlinks])
  qed (auto simp: forget_entry_def dict_get_del split: if_splits)
  then show ?thesis by (simp add: region_remove_def Some evict_ops_def)
qed (use assms in \<open>simp add: region_remove_def\<close>)

lemma region_good_clear:
  assumes "region_good ok content lib r"
  shows "region_good ok content lib (snd (region_clear lib r))"
proof -
  let ?ops = "evict_ops lib (map snd (region_entries r))"
  have eq: "snd (region_clear lib r) = r\<lparr>region_entries := [], region_used := 0, region_disk := run_ops (region_disk r) ?ops\<rparr>"
    by (simp add: region_clear_def evict_ops_def)
  show ?thesis unfolding eq
  proof (rule region_good_drop [OF assms])
    fix p b assume "dict_get (region_disk (r\<lparr>region_entries := [], region_used := 0, region_disk := run_ops (region_disk r) ?ops\<rparr>)) p = Some b"
    then have "dict_get (run_ops (region_disk r) ?ops) p = Some b" by simp
    then show "dict_get (region_disk r) p = Some b" by (rule unlinks_shrink [OF evict_ops_unlinks])
  qed (simp_all add: region_wf_def)
qed

lemma region_good_clear_namespace:
  assumes "region_good ok content (env_lib env) r"
  shows "region_good ok content (env_lib env) (clear_ssd_namespace env r model ck)"
proof -
  have "region_good ok content (env_lib env) (foldl (\<lambda>r k. snd (region_remove (env_lib env) r k)) r ks)" for ks
    using assms by (induction ks arbitrary: r) (simp_all add: region_good_remove)
  then show ?thesis by (simp add: clear_ssd_namespace_def)
qed

section \<open>Stores that hold the right bytes\<close>

text \<open>The content of the keys, the one identity a key's bytes may be used with when an arena is
  wired, the library and whether there is an arena.\<close>

record kvd_ctx =
  ctx_content :: "identity \<Rightarrow> byte list"
  ctx_ident :: "byte list \<Rightarrow> identity"
  ctx_lib :: ssd_lib
  ctx_arena :: bool

definition id_ok :: "kvd_ctx \<Rightarrow> identity \<Rightarrow> bool" where
  "id_ok c k \<longleftrightarrow> names_ok k \<and> (ctx_arena c \<longrightarrow> ctx_ident c (block_key k) = k)"

definition arena_good :: "kvd_ctx \<Rightarrow> SharedArena \<Rightarrow> bool" where
  "arena_good c a \<longleftrightarrow> arena_inv a \<and> (\<forall>key v. arena_lookup a key = Some v \<longrightarrow> served (ctx_content c) (ctx_ident c key) v)"

definition row_good :: "(SharedArena \<Rightarrow> byte list \<Rightarrow> nat \<Rightarrow> bool) \<Rightarrow> kvd_ctx \<Rightarrow> SharedArena option \<Rightarrow> identity \<Rightarrow> Entry \<Rightarrow> bool" where
  "row_good P c a k e \<longleftrightarrow> id_ok c k \<and>
     (case he_slot e of None \<Rightarrow> served (ctx_content c) k (he_value e) | Some slot \<Rightarrow> \<exists>x. a = Some x \<and> P x (block_key k) slot)"

definition kvd_state :: "(SharedArena \<Rightarrow> byte list \<Rightarrow> nat \<Rightarrow> bool) \<Rightarrow> kvd_ctx \<Rightarrow> HostStore \<Rightarrow> bool" where
  "kvd_state P c s \<longleftrightarrow> rows_wf s \<and> (shared_arena s \<noteq> None) = ctx_arena c \<and>
     (\<forall>k e. dict_get (store_entries s) k = Some e \<longrightarrow> row_good P c (shared_arena s) k e) \<and>
     (\<forall>a. shared_arena s = Some a \<longrightarrow> arena_good c a) \<and>
     (\<forall>r. store_long s = Some r \<longrightarrow> region_good (id_ok c) (ctx_content c) (ctx_lib c) r) \<and>
     (\<forall>r. store_spillover s = Some r \<longrightarrow> region_good (id_ok c) (ctx_content c) (ctx_lib c) r)"

lemma kvd_stateD:
  assumes "kvd_state P c s"
  shows "rows_wf s" and "(shared_arena s \<noteq> None) = ctx_arena c"
    and "dict_get (store_entries s) k = Some e \<Longrightarrow> row_good P c (shared_arena s) k e"
    and "shared_arena s = Some a \<Longrightarrow> arena_good c a"
    and "store_long s = Some r \<Longrightarrow> region_good (id_ok c) (ctx_content c) (ctx_lib c) r"
    and "store_spillover s = Some r \<Longrightarrow> region_good (id_ok c) (ctx_content c) (ctx_lib c) r"
proof -
  note D = assms [unfolded kvd_state_def]
  show "rows_wf s" "(shared_arena s \<noteq> None) = ctx_arena c" using D by blast+
  show "row_good P c (shared_arena s) k e" if "dict_get (store_entries s) k = Some e"
    by (rule D [THEN conjunct2, THEN conjunct2, THEN conjunct1, rule_format, OF that])
  show "arena_good c a" if "shared_arena s = Some a"
    by (rule D [THEN conjunct2, THEN conjunct2, THEN conjunct2, THEN conjunct1, rule_format, OF that])
  show "region_good (id_ok c) (ctx_content c) (ctx_lib c) r" if "store_long s = Some r"
    by (rule D [THEN conjunct2, THEN conjunct2, THEN conjunct2, THEN conjunct2, THEN conjunct1, rule_format, OF that])
  show "region_good (id_ok c) (ctx_content c) (ctx_lib c) r" if "store_spillover s = Some r"
    by (rule D [THEN conjunct2, THEN conjunct2, THEN conjunct2, THEN conjunct2, THEN conjunct2, rule_format, OF that])
qed

lemma kvd_stateI:
  assumes "rows_wf s" and "(shared_arena s \<noteq> None) = ctx_arena c"
    and "\<And>k e. dict_get (store_entries s) k = Some e \<Longrightarrow> row_good P c (shared_arena s) k e"
    and "\<And>a. shared_arena s = Some a \<Longrightarrow> arena_good c a"
    and "\<And>r. store_long s = Some r \<Longrightarrow> region_good (id_ok c) (ctx_content c) (ctx_lib c) r"
    and "\<And>r. store_spillover s = Some r \<Longrightarrow> region_good (id_ok c) (ctx_content c) (ctx_lib c) r"
  shows "kvd_state P c s"
  unfolding kvd_state_def by (intro conjI allI impI) (fact assms)+

text \<open>A step that keeps or drops rows and replaces the arena by one that serves the kept rows.\<close>

lemma kvd_state_step:
  assumes "kvd_state P c s" and "rows_wf s'" and "(shared_arena s' = None) = (shared_arena s = None)"
    and "\<And>k e. dict_get (store_entries s') k = Some e \<Longrightarrow> \<exists>e0. dict_get (store_entries s) k = Some e0 \<and>
      he_slot e = he_slot e0 \<and> he_value e = he_value e0"
    and "\<And>a b k e slot. shared_arena s = Some a \<Longrightarrow> shared_arena s' = Some b \<Longrightarrow> dict_get (store_entries s') k = Some e \<Longrightarrow>
      he_slot e = Some slot \<Longrightarrow> id_ok c k \<Longrightarrow> P a (block_key k) slot \<Longrightarrow> Q b (block_key k) slot"
    and "\<And>b. shared_arena s' = Some b \<Longrightarrow> arena_good c b"
    and "store_long s' = store_long s" and "store_spillover s' = store_spillover s"
  shows "kvd_state Q c s'"
proof (rule kvd_stateI)
  note D = kvd_stateD [OF assms(1)]
  show "rows_wf s'" by (rule assms(2))
  show "(shared_arena s' \<noteq> None) = ctx_arena c" using assms(3) D(2) by simp
  show "row_good Q c (shared_arena s') k e" if e: "dict_get (store_entries s') k = Some e" for k e
  proof -
    obtain e0 where e0: "dict_get (store_entries s) k = Some e0" "he_slot e = he_slot e0" "he_value e = he_value e0"
      using assms(4) [OF e] by blast
    have g: "row_good P c (shared_arena s) k e0" by (rule D(3) [OF e0(1)])
    show ?thesis
    proof (cases "he_slot e")
      case None
      then show ?thesis using g e0 by (simp add: row_good_def)
    next
      case (Some slot)
      then obtain a where a: "shared_arena s = Some a" "P a (block_key k) slot" "id_ok c k" using g e0 by (auto simp: row_good_def)
      then obtain b where b: "shared_arena s' = Some b" using assms(3) by (cases "shared_arena s'") auto
      from assms(5) [OF a(1) b e Some a(3,2)] show ?thesis using Some a(3) b by (simp add: row_good_def)
    qed
  qed
  show "region_good (id_ok c) (ctx_content c) (ctx_lib c) r" if "store_long s' = Some r" for r using D(5) that assms(7) by simp
  show "region_good (id_ok c) (ctx_content c) (ctx_lib c) r" if "store_spillover s' = Some r" for r using D(6) that assms(8) by simp
qed (rule assms(6))


abbreviation kvd_inv :: "kvd_ctx \<Rightarrow> HostStore \<Rightarrow> bool" where
  "kvd_inv \<equiv> kvd_state backed"

definition kvd_live :: "kvd_ctx \<Rightarrow> HostStore \<Rightarrow> bool" where
  "kvd_live c s \<longleftrightarrow> kvd_inv c s \<and> (\<forall>a. shared_arena s = Some a \<longrightarrow> log_room a)"

lemma arena_good_shrinks: "arena_good c a \<Longrightarrow> shrinks a b \<Longrightarrow> arena_good c b"
  using shrinks_lookup [of a b] unfolding arena_good_def by (blast dest: shrinks_def [THEN iffD1])

lemma arena_goodD:
  assumes "arena_good c a"
  shows "arena_inv a" and "arena_lookup a key = Some v \<Longrightarrow> served (ctx_content c) (ctx_ident c key) v"
  using assms by (auto simp: arena_good_def)

lemma other_key: "id_ok c k \<Longrightarrow> id_ok c i \<Longrightarrow> ctx_arena c \<Longrightarrow> i \<noteq> k \<Longrightarrow> block_key i \<noteq> block_key k"
  by (metis id_ok_def)

subsection \<open>Removing rows and reading slots\<close>

lemma kvd_release:
  assumes "kvd_state backed c s" and "dict_get (store_entries s) k = Some e"
  shows "kvd_state backed c (release_slot (pop_row s k e) e)"
proof -
  note D = kvd_stateD [OF assms(1)]
  have he: "he_key e = block_key k" using rows_wfD(3) [OF D(1) assms(2)] by (auto simp: row_identity_def)
  have ek: "id_ok c k" using D(3) [OF assms(2)] by (simp add: row_good_def)
  have ar: "shared_arena (release_slot (pop_row s k e) e) =
      (if he_slot e = None then shared_arena s else map_option (\<lambda>a. snd (arena_evict_key a (block_key k) False)) (shared_arena s))"
    by (simp add: release_slot_def pop_row_def he)
  have en: "store_entries (release_slot (pop_row s k e) e) = dict_del k (store_entries s)"
    by (simp add: release_slot_def pop_row_def)
  show ?thesis
  proof (rule kvd_state_step [OF assms(1)])
    show "rows_wf (release_slot (pop_row s k e) e)" using rows_wf_pop [OF D(1) assms(2)] by simp
    show "(shared_arena (release_slot (pop_row s k e) e) = None) = (shared_arena s = None)" by (simp add: ar)
  next
    fix i x assume "dict_get (store_entries (release_slot (pop_row s k e) e)) i = Some x"
    then show "\<exists>e0. dict_get (store_entries s) i = Some e0 \<and> he_slot x = he_slot e0 \<and> he_value x = he_value e0"
      by (auto simp: en dict_get_del split: if_splits)
  next
    fix a b i x slot
    assume a: "shared_arena s = Some a" and b: "shared_arena (release_slot (pop_row s k e) e) = Some b"
      and i: "dict_get (store_entries (release_slot (pop_row s k e) e)) i = Some x" and ok: "id_ok c i" and P: "backed a (block_key i) slot"
    have "i \<noteq> k" using i by (auto simp: en dict_get_del)
    moreover have "ctx_arena c" using D(2) a by simp
    ultimately have "block_key i \<noteq> block_key k" using other_key [OF ek ok] by blast
    then show "backed b (block_key i) slot" using P a b by (auto simp: ar backed_def evict_key_index split: if_splits)
  next
    fix b assume b: "shared_arena (release_slot (pop_row s k e) e) = Some b"
    then obtain a where a: "shared_arena s = Some a" by (auto simp: ar split: if_splits)
    have g: "arena_good c a" by (rule D(4) [OF a])
    show "arena_good c b" using a b g arena_good_shrinks [OF g evict_key_shrinks [OF arena_goodD(1) [OF g]]] by (auto simp: ar split: if_splits)
  qed (simp_all add: release_slot_def pop_row_def)
qed

lemma kvd_state_same:
  assumes "kvd_state P c s" and "store_entries s' = store_entries s" "store_key_index s' = store_key_index s"
    "store_used_bytes s' = store_used_bytes s" "shared_arena s' = shared_arena s" "store_long s' = store_long s" "store_spillover s' = store_spillover s"
  shows "kvd_state P c s'"
  using assms(1) rows_wf_cong [OF assms(2-4)] unfolding kvd_state_def assms by simp

lemma kvd_remove: "kvd_inv c s \<Longrightarrow> dict_get (store_entries s) k = Some e \<Longrightarrow> kvd_inv c (remove_entry_locked s k e)"
  unfolding remove_entry_locked_def by (rule kvd_release)

lemma kvd_evict: "kvd_inv c s \<Longrightarrow> dict_get (store_entries s) k = Some e \<Longrightarrow> kvd_inv c (evict_locked s k e)"
  unfolding evict_locked_def by (rule kvd_state_same [OF kvd_release]) (simp_all add: bump_evictions_def)

lemma get_slice_fields:
  "slot_index (snd (get_slice a n)) = slot_index a" "recent_evicted_keys (snd (get_slice a n)) = recent_evicted_keys a"
  "mem (snd (get_slice a n)) = mem a"
  by (simp_all add: get_slice_def split: option.split)

lemma resolve_arena:
  "shared_arena (snd (resolve_value s e)) = shared_arena s \<or>
   (\<exists>a n. shared_arena s = Some a \<and> shared_arena (snd (resolve_value s e)) = Some (snd (get_slice a n)))"
  by (auto simp: resolve_value_def split: option.split prod.split) (metis snd_conv)+

lemma kvd_resolve:
  assumes "kvd_inv c s"
  shows "kvd_inv c (snd (resolve_value s e))"
proof (rule kvd_state_step [OF assms])
  note D = kvd_stateD [OF assms]
  show "rows_wf (snd (resolve_value s e))" using D(1) by simp
  show "(shared_arena (snd (resolve_value s e)) = None) = (shared_arena s = None)" using resolve_arena [of s e] by auto
  show "\<exists>e0. dict_get (store_entries s) k = Some e0 \<and> he_slot x = he_slot e0 \<and> he_value x = he_value e0"
    if "dict_get (store_entries (snd (resolve_value s e))) k = Some x" for k x using that by simp
  show "backed b (block_key k) slot" if "shared_arena s = Some a" "shared_arena (snd (resolve_value s e)) = Some b" "backed a (block_key k) slot" for a b k slot
    using resolve_arena [of s e] that by (auto simp: backed_def get_slice_fields)
  show "arena_good c b" if "shared_arena (snd (resolve_value s e)) = Some b" for b
    using resolve_arena [of s e] that D(4) arena_good_shrinks [OF _ get_slice_shrinks] arena_goodD(1) by (metis option.inject)
qed simp_all

lemma resolve_served:
  assumes "row_good backed c (shared_arena s) k e" and "\<And>a. shared_arena s = Some a \<Longrightarrow> arena_good c a" and "(shared_arena s \<noteq> None) = ctx_arena c"
  shows "served (ctx_content c) k (fst (resolve_value s e))"
proof (cases "he_slot e")
  case None
  then show ?thesis using assms(1) by (simp add: resolve_value_def row_good_def)
next
  case (Some slot)
  then obtain a where a: "shared_arena s = Some a" "backed a (block_key k) slot" "id_ok c k" using assms(1) by (auto simp: row_good_def)
  have id: "ctx_ident c (block_key k) = k" using a(1,3) assms(3) by (simp add: id_ok_def)
  have read: "fst (resolve_value s e) = [] \<or> read_slot (slot_size a) (mem a slot) = Some (fst (resolve_value s e))"
    using Some a(1) by (auto simp: resolve_value_def get_slice_def split: option.split)
  from a(2) show ?thesis
  proof (cases "dict_get (slot_index a) (block_key k) = Some slot")
    case True
    then show ?thesis using read arena_goodD(2) [OF assms(2) [OF a(1)], of "block_key k"] id
      by (auto simp: arena_lookup_def served_def)
  next
    case False
    then show ?thesis using a(2) read read_odd by (auto simp: backed_def served_def)
  qed
qed

lemma kvd_resolve_served:
  assumes "kvd_inv c s" and "dict_get (store_entries s) k = Some e"
  shows "served (ctx_content c) k (fst (resolve_value s e))"
  using resolve_served [OF kvd_stateD(3) [OF assms] kvd_stateD(4) [OF assms(1)] kvd_stateD(2) [OF assms(1)]] .


subsection \<open>The eviction loop\<close>

lemma collect_cases:
  assumes "collect_for_spillover s k = (sp, s1)"
  shows "s1 = s \<and> sp = None \<or> (\<exists>e. dict_get (store_entries s) k = Some e \<and> s1 = snd (resolve_value s e) \<and>
    sp = Some (row_identity e, fst (resolve_value s e), he_metadata e))"
  using assms by (auto simp: collect_for_spillover_def row_identity_def split: option.splits if_splits prod.splits)

lemma kvd_collect: "kvd_inv c s \<Longrightarrow> kvd_inv c (snd (collect_for_spillover s k))"
  using collect_cases [of s k] kvd_resolve by (cases "collect_for_spillover s k") auto

lemma kvd_evict_for: "kvd_inv c s \<Longrightarrow> evict_for demand ret s = (sps, s', ok) \<Longrightarrow> kvd_inv c s'"
  by (erule evict_for_keeps [where P = "kvd_inv c"]) (simp_all add: kvd_collect kvd_evict)

definition spill_ok :: "kvd_ctx \<Rightarrow> spill \<Rightarrow> bool" where
  "spill_ok c x \<longleftrightarrow> id_ok c (fst x) \<and> served (ctx_content c) (fst x) (fst (snd x))"

lemma evict_for_spills:
  assumes "evict_for demand ret s = (sps, s', ok)" and "kvd_inv c s"
  shows "\<forall>x \<in> set sps. spill_ok c x"
  using assms
proof (induction demand ret s arbitrary: sps s' ok rule: evict_for.induct)
  case (1 demand ret s)
  show ?case
  proof (cases "store_used_bytes s + int demand \<le> int (store_max_bytes s) \<or> pick_victim s ret = None")
    case True
    then show ?thesis using 1(2) by (auto simp: evict_for.simps [of demand ret s] split: option.splits if_splits)
  next
    case False
    then obtain k where k: "pick_victim s ret = Some k" by blast
    obtain e where e: "dict_get (store_entries s) k = Some e"
      using pick_victim_in [OF k] by (cases "dict_get (store_entries s) k") (auto simp: dict_get_None_iff)
    obtain sp s1 where cl: "collect_for_spillover s k = (sp, s1)" by (cases "collect_for_spillover s k")
    obtain sps' s2 ok' where r: "evict_for demand ret (evict_locked s1 k e) = (sps', s2, ok')"
      by (cases "evict_for demand ret (evict_locked s1 k e)")
    have full: "\<not> store_used_bytes s + int demand \<le> int (store_max_bytes s)" using False by blast
    have sps: "sps = (case sp of None \<Rightarrow> sps' | Some x \<Rightarrow> x # sps')"
      using 1(2) full k e cl r by (simp add: evict_for.simps [of demand ret s])
    have s1: "kvd_inv c s1" "store_entries s1 = store_entries s" using kvd_collect [OF 1(3), of k] collect_entries [of s k] cl by simp_all
    have rest: "\<forall>x \<in> set sps'. spill_ok c x"
      by (rule 1(1) [OF full k e cl [symmetric] refl r kvd_evict [OF s1(1)]]) (simp add: s1(2) e)
    have "spill_ok c x" if x: "sp = Some x" for x
    proof -
      have xe: "x = (row_identity e, fst (resolve_value s e), he_metadata e)" using collect_cases [OF cl] x e by auto
      have id: "row_identity e = k" by (rule rows_wfD(3) [OF kvd_stateD(1) [OF 1(3)] e])
      have "id_ok c k" using kvd_stateD(3) [OF 1(3) e] by (simp add: row_good_def)
      then show ?thesis using kvd_resolve_served [OF 1(3) e] by (simp add: spill_ok_def xe id)
    qed
    then show ?thesis using rest by (auto simp: sps split: option.splits)
  qed
qed

lemma evict_for_log:
  assumes "evict_for demand ret s = (sps, s', ok)" and "\<forall>a. shared_arena s = Some a \<longrightarrow> log_room a"
  shows "\<forall>a. shared_arena s' = Some a \<longrightarrow> log_room a"
  using assms
proof (rule evict_for_keeps [where P = "\<lambda>s. \<forall>a. shared_arena s = Some a \<longrightarrow> log_room a"])
  fix s :: HostStore and k e assume "\<forall>a. shared_arena s = Some a \<longrightarrow> log_room a"
  moreover have "shared_arena (snd (collect_for_spillover s k)) = shared_arena s \<or>
     (\<exists>a n. shared_arena s = Some a \<and> shared_arena (snd (collect_for_spillover s k)) = Some (snd (get_slice a n)))"
    using collect_cases [of s k] resolve_arena [of s] by (cases "collect_for_spillover s k") auto
  ultimately show "\<forall>a. shared_arena (evict_locked (snd (collect_for_spillover s k)) k e) = Some a \<longrightarrow> log_room a"
    by (auto simp: evict_locked_def bump_evictions_def release_slot_def log_room_def evict_key_index get_slice_fields)
qed

subsection \<open>The drain\<close>

lemma drop_rows_get:
  "dict_get (store_entries (foldl (drop_row ev) s ids)) k = (if k \<in> set ids then None else dict_get (store_entries s) k)"
proof (induction ids arbitrary: s)
  case (Cons i ids)
  have "dict_get (store_entries (drop_row ev s i)) k = (if k = i then None else dict_get (store_entries s) k)"
    by (auto simp: drop_row_def bump_evictions_def pop_row_def dict_get_del split: option.split)
  then show ?case using Cons.IH [of "drop_row ev s i"] by auto
qed simp

lemma drop_bucket_get:
  assumes "rows_wf s"
  shows "dict_get (store_entries (drop_bucket ev s key)) k = (if block_key k = key then None else dict_get (store_entries s) k)"
proof (cases "dict_get (store_key_index s) key")
  case None
  then have "dict_get (store_entries s) k = None" if "block_key k = key" using rows_wfD(4) [OF assms, of k] that by auto
  then show ?thesis by (simp add: drop_bucket_def None)
next
  case (Some ids)
  have "block_key k = key" if "k \<in> set ids" by (rule rows_wfD(5) [OF assms Some that])
  moreover have "dict_get (store_entries s) k = None" if "block_key k = key" "k \<notin> set ids"
    using rows_wfD(4) [OF assms, of k] Some that by auto
  ultimately show ?thesis by (auto simp: drop_bucket_def Some drop_rows_get)
qed

lemma drop_buckets_get:
  assumes "rows_wf s"
  shows "dict_get (store_entries (foldl (drop_bucket ev) s keys)) k = (if block_key k \<in> set keys then None else dict_get (store_entries s) k)"
  using assms by (induction keys arbitrary: s) (simp_all add: rows_wf_drop_bucket drop_bucket_get)

lemma drop_bucket_fields:
  "shared_arena (drop_bucket ev s key) = shared_arena s \<and> store_long (drop_bucket ev s key) = store_long s \<and>
   store_spillover (drop_bucket ev s key) = store_spillover s"
  by (rule drop_bucket_keeps [where P = "\<lambda>t. shared_arena t = shared_arena s \<and> store_long t = store_long s \<and> store_spillover t = store_spillover s"])
    (simp_all add: pop_row_def bump_evictions_def)

lemma drop_buckets_fields:
  "shared_arena (foldl (drop_bucket ev) s keys) = shared_arena s \<and> store_long (foldl (drop_bucket ev) s keys) = store_long s \<and>
   store_spillover (foldl (drop_bucket ev) s keys) = store_spillover s"
  by (induction keys arbitrary: s) (simp_all add: drop_bucket_fields)

lemma drain_live:
  assumes "kvd_state loosely c s"
  shows "kvd_live c (drain_arena s)"
proof (cases "shared_arena s")
  case None
  have "kvd_inv c s" by (rule kvd_state_step [OF assms kvd_stateD(1) [OF assms]]) (use None in simp_all)
  then show ?thesis using None by (simp add: kvd_live_def drain_arena_def)
next
  case (Some a)
  note D = kvd_stateD [OF assms]
  let ?a = "a\<lparr>recent_evicted_keys := []\<rparr>" and ?t = "s\<lparr>shared_arena := Some (a\<lparr>recent_evicted_keys := []\<rparr>)\<rparr>"
  let ?s = "foldl (drop_bucket True) ?t (recent_evicted_keys a)"
  have eq: "drain_arena s = ?s" by (simp add: drain_arena_def Some drain_recent_evictions_def)
  have wf: "rows_wf ?t" using D(1) by simp
  note F = drop_buckets_fields [of True ?t "recent_evicted_keys a"]
  have "kvd_inv c ?s"
  proof (rule kvd_state_step [OF assms])
    show "rows_wf ?s" using rows_wf_drain [OF D(1)] eq by simp
    show "(shared_arena ?s = None) = (shared_arena s = None)" using F Some by simp
  next
    fix k e assume "dict_get (store_entries ?s) k = Some e"
    then show "\<exists>e0. dict_get (store_entries s) k = Some e0 \<and> he_slot e = he_slot e0 \<and> he_value e = he_value e0"
      by (auto simp: drop_buckets_get [OF wf] split: if_splits)
  next
    fix x b k e slot
    assume x: "shared_arena s = Some x" "shared_arena ?s = Some b" and k: "dict_get (store_entries ?s) k = Some e" and l: "loosely x (block_key k) slot"
    have "block_key k \<notin> set (recent_evicted_keys a)" using k by (auto simp: drop_buckets_get [OF wf] split: if_splits)
    then show "backed b (block_key k) slot" using l x F Some by (auto simp: loosely_def backed_def)
  next
    fix b assume b: "shared_arena ?s = Some b"
    have "arena_good c a" by (rule D(4) [OF Some])
    then have "arena_good c (snd (drain_recent_evictions a))"
      using arena_good_shrinks drain_shrinks arena_goodD(1) by blast
    then show "arena_good c b" using b F by (simp add: drain_recent_evictions_def)
  qed (use F in simp_all)
  moreover have "log_room ?a" by (simp add: log_room_def EVICT_LOG_CAP_def)
  ultimately show ?thesis using F by (simp add: kvd_live_def eq)
qed


subsection \<open>Set\<close>

text \<open>The arena after a put of the right bytes.\<close>

lemma arena_good_put:
  assumes "arena_good c a" and "arena_put a (block_key k) v = (res, b)" and "ctx_ident c (block_key k) = k" and "served (ctx_content c) k v"
  shows "arena_good c b"
proof -
  note S = arena_put_step [OF arena_goodD(1) [OF assms(1)] assms(2)]
  have "served (ctx_content c) (ctx_ident c key) x" if x: "arena_lookup b key = Some x" for key x
  proof (cases "key = block_key k \<and> (\<exists>slot. res = Inr (Some slot))")
    case True
    then have "x = v" using S(2) x by auto
    then show ?thesis using True assms(3,4) by simp
  next
    case False
    then have "arena_lookup a key = Some x" using S(3) [OF x] by blast
    then show ?thesis by (rule arena_goodD(2) [OF assms(1)])
  qed
  then show ?thesis using S(1) by (simp add: arena_good_def)
qed

lemma store_bytes_cases:
  assumes "store_bytes s key v = (res, s')"
  obtains (plain) "shared_arena s = None" "s' = s" "res = Inr None"
  | (arena) a b where "shared_arena s = Some a" "arena_put a key v = (res, b)" "s' = s\<lparr>shared_arena := Some b\<rparr>"
  using assms by (auto simp: store_bytes_def split: option.splits prod.splits)

text \<open>After the bytes are pushed: a failed or refused put keeps every row backed; any other one may
  have taken the slot of a row whose key it logged.\<close>

lemma store_bytes_state:
  assumes "kvd_live c s" and "id_ok c k" and "served (ctx_content c) k v" and "store_bytes s (block_key k) v = (res, s')"
  shows "(\<And>slot. res \<noteq> Inr (Some slot)) \<Longrightarrow> kvd_inv c s'" and "kvd_state loosely c s'"
    and "res = Inr (Some slot) \<Longrightarrow> \<exists>b. shared_arena s' = Some b \<and> dict_get (slot_index b) (block_key k) = Some slot"
proof -
  have inv: "kvd_inv c s" and room: "\<And>a. shared_arena s = Some a \<Longrightarrow> log_room a" using assms(1) by (auto simp: kvd_live_def)
  note D = kvd_stateD [OF inv]
  have step: "kvd_state Q c s'"
    if Q: "\<And>a b key slot. shared_arena s = Some a \<Longrightarrow> arena_put a (block_key k) v = (res, b) \<Longrightarrow> arena_inv a \<Longrightarrow> log_room a \<Longrightarrow>
        backed a key slot \<Longrightarrow> Q b key slot" for Q
    using assms(4)
  proof (cases rule: store_bytes_cases)
    case plain
    show ?thesis unfolding plain(2) by (rule kvd_state_step [OF inv D(1)]) (use plain(1) in simp_all)
  next
    case (arena a b)
    have good: "arena_good c a" by (rule D(4) [OF arena(1)])
    have id: "ctx_ident c (block_key k) = k" using assms(2) D(2) arena(1) by (simp add: id_ok_def)
    show ?thesis
    proof (rule kvd_state_step [OF inv])
      show "rows_wf s'" using D(1) by (simp add: arena(3))
      show "Q y (block_key i) slot" if "shared_arena s = Some x" "shared_arena s' = Some y" "backed x (block_key i) slot" for x y i slot
        using Q [OF arena(1,2) arena_goodD(1) [OF good] room [OF arena(1)]] that arena(1,3) by simp
      show "arena_good c y" if "shared_arena s' = Some y" for y
        using arena_good_put [OF good arena(2) id assms(3)] that arena(3) by simp
    qed (simp_all add: arena(1,3))
  qed
  show "kvd_inv c s'" if no: "\<And>slot. res \<noteq> Inr (Some slot)"
    by (rule step) (rule arena_put_fate(2); assumption?; use no in blast)
  show "kvd_state loosely c s'"
    by (rule step) (rule arena_put_fate(1); (assumption | rule backed_loosely)+)
  show "\<exists>b. shared_arena s' = Some b \<and> dict_get (slot_index b) (block_key k) = Some slot" if "res = Inr (Some slot)"
    using assms(4)
  proof (cases rule: store_bytes_cases)
    case (arena a b)
    then show ?thesis
      using arena_put_fate(3) [OF arena(2) arena_goodD(1) [OF D(4) [OF arena(1)]] room [OF arena(1)] that] by simp
  qed (use that in simp)
qed

text \<open>Filing the row.\<close>

lemma filed_state:
  assumes "kvd_state loosely c s" and "id_ok c k" and "rows_wf s'"
    and "store_entries s' = dict_put k e (store_entries s)" and "shared_arena s' = shared_arena s"
    and "store_long s' = store_long s" "store_spillover s' = store_spillover s"
    and "he_slot e = None \<Longrightarrow> served (ctx_content c) k (he_value e)"
    and "\<And>slot. he_slot e = Some slot \<Longrightarrow> \<exists>b. shared_arena s = Some b \<and> dict_get (slot_index b) (block_key k) = Some slot"
  shows "kvd_state loosely c s'"
proof (rule kvd_stateI)
  note D = kvd_stateD [OF assms(1)]
  show "row_good loosely c (shared_arena s') i x" if "dict_get (store_entries s') i = Some x" for i x
  proof (cases "i = k")
    case True
    then have x: "x = e" using that by (simp add: assms(4) dict_get_put)
    show ?thesis
    proof (cases "he_slot e")
      case None
      then show ?thesis using assms(2,8) True x by (simp add: row_good_def)
    next
      case (Some slot)
      then show ?thesis using assms(2,5) assms(9) [OF Some] True x by (auto simp: row_good_def loosely_def)
    qed
  next
    case False
    then have "dict_get (store_entries s) i = Some x" using that by (simp add: assms(4) dict_get_put)
    from D(3) [OF this] show ?thesis by (simp add: assms(5))
  qed
qed (use assms kvd_stateD [OF assms(1)] in simp_all)

lemma place_row:
  assumes "store_bytes s key v = (Inr slot, s')" and "shared_arena s = None \<longrightarrow> he_slot old = None"
  shows "he_slot (place s' slot v old) = slot" and "slot = None \<Longrightarrow> he_value (place s' slot v old) = v"
  using assms by (auto simp: place_def store_bytes_def split: option.splits prod.splits)


lemma rows_wf_replace:
  "rows_wf s \<Longrightarrow> dict_get (store_entries s) k = Some old \<Longrightarrow> row_identity e = k \<Longrightarrow> rows_wf (replace_row s k old e)"
  by (erule (2) rows_wf_update) (simp_all add: replace_row_def)

lemma rows_wf_add:
  "rows_wf s \<Longrightarrow> dict_get (store_entries s) k = None \<Longrightarrow> row_identity e = k \<Longrightarrow> rows_wf (add_row s k e)"
  by (erule (2) rows_wf_insert) (simp_all add: add_row_def inline_size_alt)

lemma kvd_live_same:
  assumes "kvd_live c s" and "store_entries s' = store_entries s" "store_key_index s' = store_key_index s"
    "store_used_bytes s' = store_used_bytes s" "shared_arena s' = shared_arena s" "store_long s' = store_long s" "store_spillover s' = store_spillover s"
  shows "kvd_live c s'"
  using assms(1) kvd_state_same [OF _ assms(2-7)] by (simp add: kvd_live_def assms(5))

lemma kvd_live_inv: "kvd_live c s \<Longrightarrow> kvd_inv c s"
  by (simp add: kvd_live_def)

lemma kvd_live_bumps:
  "kvd_live c s \<Longrightarrow> kvd_live c (bump_sets s)" "kvd_live c s \<Longrightarrow> kvd_live c (bump_rejections s)"
  "kvd_live c s \<Longrightarrow> kvd_live c (s\<lparr>store_stats := x\<rparr>)"
  by (rule kvd_live_same; simp add: bump_sets_def bump_rejections_def)+

lemma kvd_set_existing:
  assumes "kvd_live c s" and "id_ok c k" and "served (ctx_content c) k v" and old: "dict_get (store_entries s) k = Some old"
    and "set_existing env s k old v ret meta ex = (res, s')"
  shows "kvd_inv c s' \<and> (\<forall>x. res = Inr x \<longrightarrow> kvd_live c s' \<and> snd x = [])"
proof (cases "priority ret < priority (he_retention old)")
  case True
  then have "res = Inr ((False, Some ''retention_downgrade_not_allowed''), [])" "s' = bump_rejections s"
    using assms(5) by (simp_all add: set_existing_def)
  then show ?thesis using kvd_live_bumps(2) [OF assms(1)] kvd_live_inv by auto
next
  case False
  obtain r s1 where b: "store_bytes s (block_key k) v = (r, s1)" by (cases "store_bytes s (block_key k) v")
  note S = store_bytes_state [OF assms(1-3) b]
  show ?thesis
  proof (cases r)
    case (Inl e)
    then have "res = Inl e" "s' = s1" using assms(5) False b by (auto simp: set_existing_def)
    then show ?thesis using S(1) Inl by simp
  next
    case (Inr slot)
    let ?e = "(place s1 slot v old)\<lparr>he_retention := ret, he_last_access := clock_now env, he_metadata := meta, he_expires_at := ex\<rparr>"
    let ?t = "replace_row s1 k old ?e"
    have eq: "s' = drain_arena ?t" "res = Inr ((True, None), [])" using assms(5) False b Inr by (simp_all add: set_existing_def Let_def)
    have inv: "kvd_inv c s" by (rule kvd_live_inv [OF assms(1)])
    have "shared_arena s = None \<longrightarrow> he_slot old = None"
      using kvd_stateD(3) [OF inv old] by (auto simp: row_good_def split: option.splits)
    note P = place_row [OF b [unfolded Inr] this]
    have id: "row_identity old = k" by (rule rows_wfD(3) [OF kvd_stateD(1) [OF inv] old])
    have old1: "dict_get (store_entries s1) k = Some old" using old store_bytes_fields(1) [OF b] by simp
    have "kvd_state loosely c ?t"
    proof (rule filed_state [OF S(2) assms(2)])
      show "rows_wf ?t" by (rule rows_wf_replace [OF kvd_stateD(1) [OF S(2)] old1]) (simp add: id)
      show "store_entries ?t = dict_put k ?e (store_entries s1)" by (simp add: replace_row_def)
      show "served (ctx_content c) k (he_value ?e)" if "he_slot ?e = None" using that P assms(3) by simp
      show "\<exists>b. shared_arena s1 = Some b \<and> dict_get (slot_index b) (block_key k) = Some n" if "he_slot ?e = Some n" for n
        using S(3) [of n] that P(1) Inr by simp
    qed (simp_all add: replace_row_def)
    from drain_live [OF this] show ?thesis using eq kvd_live_inv by auto
  qed
qed

lemma evict_for_none:
  assumes "evict_for demand ret s = (sps, s1, ok)" and "dict_get (store_entries s) k = None"
  shows "dict_get (store_entries s1) k = None"
proof (rule evict_for_keeps [OF assms(1), where P = "\<lambda>s. dict_get (store_entries s) k = None"])
  fix s :: HostStore and i e assume "dict_get (store_entries s) k = None"
  then show "dict_get (store_entries (evict_locked (snd (collect_for_spillover s i)) i e)) k = None"
    by (simp add: evict_entries dict_get_del)
qed (rule assms(2))

lemma kvd_set_new:
  assumes "kvd_live c s" and "id_ok c k" and "served (ctx_content c) k v" and none: "dict_get (store_entries s) k = None"
    and "set_new env s k v ret meta ex = (res, s')"
  shows "kvd_inv c s' \<and> (\<forall>x. res = Inr x \<longrightarrow> kvd_live c s' \<and> (\<forall>y \<in> set (snd x). spill_ok c y))"
proof -
  define demand where "demand = (if would_use_arena s (length v) then 0 else length v)"
  obtain sps s1 ok where ev: "evict_for demand ret s = (sps, s1, ok)" by (cases "evict_for demand ret s")
  have inv: "kvd_inv c s" by (rule kvd_live_inv [OF assms(1)])
  have live1: "kvd_live c s1"
    unfolding kvd_live_def by (intro conjI kvd_evict_for [OF inv ev] evict_for_log [OF ev kvd_live_def [THEN iffD1, OF assms(1), THEN conjunct2]])
  have sp: "\<forall>y \<in> set sps. spill_ok c y" by (rule evict_for_spills [OF ev inv])
  have none1: "dict_get (store_entries s1) k = None" by (rule evict_for_none [OF ev none])
  obtain r s2 where b: "store_bytes s1 (block_key k) v = (r, s2)" by (cases "store_bytes s1 (block_key k) v")
  note S = store_bytes_state [OF live1 assms(2,3) b]
  note U = assms(5) [unfolded set_new_def Let_def, folded demand_def, unfolded ev prod.case b]
  consider (big) "demand > store_max_bytes s" | (full) "\<not> demand > store_max_bytes s" "\<not> ok"
    | (raised) e where "\<not> demand > store_max_bytes s" "ok" "r = Inl e" | (stored) slot where "\<not> demand > store_max_bytes s" "ok" "r = Inr slot"
    by (cases r) auto
  then show ?thesis
  proof cases
    case big
    then have "s' = bump_rejections s" "\<forall>x. res = Inr x \<longrightarrow> snd x = []" using U by auto
    then show ?thesis using kvd_live_bumps(2) [OF assms(1)] kvd_live_inv by auto
  next
    case full
    then have "s' = bump_rejections s1" "\<forall>x. res = Inr x \<longrightarrow> snd x = []" using U by auto
    then show ?thesis using kvd_live_bumps(2) [OF live1] kvd_live_inv by auto
  next
    case (raised e)
    then have "s' = s2" "res = Inl e" using U by auto
    then show ?thesis using S(1) raised(3) by simp
  next
    case (stored slot)
    let ?e = "place s2 slot v (make_entry env k v ret meta ex)"
    let ?t = "add_row s2 k ?e"
    have eq: "s' = drain_arena ?t" "res = Inr ((True, None), sps)"
      using U stored by auto
    have P: "he_slot ?e = slot" "slot = None \<Longrightarrow> he_value ?e = v"
      using place_row [OF b [unfolded stored(3)], of "make_entry env k v ret meta ex"] by simp_all
    have none2: "dict_get (store_entries s2) k = None" using none1 store_bytes_fields(1) [OF b] by simp
    have "kvd_state loosely c ?t"
    proof (rule filed_state [OF S(2) assms(2)])
      show "rows_wf ?t" by (rule rows_wf_add [OF kvd_stateD(1) [OF S(2)] none2]) simp
      show "store_entries ?t = dict_put k ?e (store_entries s2)" by (simp add: add_row_def)
      show "served (ctx_content c) k (he_value ?e)" if "he_slot ?e = None" using that P assms(3) by simp
      show "\<exists>b. shared_arena s2 = Some b \<and> dict_get (slot_index b) (block_key k) = Some n" if "he_slot ?e = Some n" for n
        using S(3) [of n] that P(1) stored(3) by simp
    qed (simp_all add: add_row_def)
    from drain_live [OF this] show ?thesis using eq sp kvd_live_inv by auto
  qed
qed

lemma kvd_live_regions:
  assumes "kvd_live c s"
  shows "(\<And>r. lg = Some r \<Longrightarrow> region_good (id_ok c) (ctx_content c) (ctx_lib c) r) \<Longrightarrow> kvd_live c (s\<lparr>store_long := lg\<rparr>)"
    and "(\<And>r. sp = Some r \<Longrightarrow> region_good (id_ok c) (ctx_content c) (ctx_lib c) r) \<Longrightarrow> kvd_live c (s\<lparr>store_spillover := sp\<rparr>)"
  using assms unfolding kvd_live_def kvd_state_def by auto

lemma kvd_region_put:
  assumes "region_good (id_ok c) (ctx_content c) (ctx_lib c) r" and "id_ok c k" and "served (ctx_content c) k v"
  shows "region_good (id_ok c) (ctx_content c) (ctx_lib c) (snd (region_put kind wrong full (ctx_lib c) now rand io r k v ret meta))"
  by (rule region_good_put [OF assms(1) _ assms(2,3)]) (use assms(2) in \<open>simp add: id_ok_def\<close>)

lemma kvd_spill:
  assumes "kvd_live c s" and "spill_ok c x" and "env_lib env = ctx_lib c"
  shows "kvd_live c (spill_one env s x)"
proof -
  note D = kvd_stateD [OF kvd_live_inv [OF assms(1)]]
  obtain k v meta where x: "x = (k, v, meta)" by (cases x)
  let ?sp = "map_option (\<lambda>r. snd (spillover_put (env_lib env) (env_now env) (env_rand env) (env_spill_io env k) r k v RETENTION_SHORT meta)) (store_spillover s)"
  have "kvd_live c (s\<lparr>store_spillover := ?sp\<rparr>)"
    by (rule kvd_live_regions(2) [OF assms(1)])
      (use assms(2,3) D(6) in \<open>auto simp: x spill_ok_def spillover_put_def intro: kvd_region_put\<close>)
  then show ?thesis by (simp add: x spill_one_def)
qed

lemma kvd_spills: "kvd_live c s \<Longrightarrow> \<forall>x \<in> set xs. spill_ok c x \<Longrightarrow> env_lib env = ctx_lib c \<Longrightarrow> kvd_live c (foldl (spill_one env) s xs)"
  by (induction xs arbitrary: s) (simp_all add: kvd_spill)

lemma kvd_live_resolve: "kvd_live c s \<Longrightarrow> kvd_live c (snd (resolve_value s e))"
  using kvd_resolve [of c s e] resolve_arena [of s e] unfolding kvd_live_def log_room_def
  by (auto simp: get_slice_fields)

lemma kvd_write_through:
  assumes "kvd_live c s" and "env_lib env = ctx_lib c"
  shows "kvd_live c (write_through env s k)"
proof (cases "store_long s = None \<or> dict_get (store_entries s) k = None")
  case True
  then show ?thesis using assms(1) by (auto simp: write_through_def split: option.split)
next
  case False
  then obtain r e where r: "store_long s = Some r" and e: "dict_get (store_entries s) k = Some e" by auto
  have inv: "kvd_inv c s" by (rule kvd_live_inv [OF assms(1)])
  note D = kvd_stateD [OF inv]
  let ?s = "snd (resolve_value s e)" and ?v = "fst (resolve_value s e)"
  have nk: "id_ok c k" using D(3) [OF e] by (simp add: row_good_def)
  have "kvd_live c (?s\<lparr>store_long := map_option (\<lambda>r. snd (long_put (env_lib env) (env_now env) (env_rand env)
      (env_long_io env k) r k ?v RETENTION_LONG (he_metadata e))) (store_long ?s)\<rparr>)"
    by (rule kvd_live_regions(1) [OF kvd_live_resolve [OF assms(1)]])
      (use D(5,6) assms(2) in \<open>auto simp: long_put_def intro: kvd_region_put [OF _ nk kvd_resolve_served [OF inv e]]\<close>)
  then show ?thesis by (simp add: write_through_def r e case_prod_beta)
qed

lemma kvd_set:
  assumes "kvd_live c s" and "id_ok c k" and "served (ctx_content c) k v" and "env_lib env = ctx_lib c"
    and "host_set env s k v ret meta ttl = (res, s')"
  shows "kvd_inv c s' \<and> (\<forall>x. res = Inr x \<longrightarrow> kvd_live c s')"
proof (cases "(\<exists>e. validate_retention ret = Inl e) \<or> (case ttl of None \<Rightarrow> False | Some t \<Rightarrow> t \<le> 0)")
  case True
  then have "s' = s \<or> s' = bump_sets s" using assms(5) by (auto simp: host_set_def split: sum.splits)
  then have "kvd_live c s'" using assms(1) kvd_live_bumps(1) by auto
  then show ?thesis using kvd_live_inv by blast
next
  case False
  let ?s = "bump_sets s" and ?ex = "map_option (\<lambda>t. clock_now env + t) ttl"
  let ?ram = "case dict_get (store_entries ?s) k of Some old \<Rightarrow> set_existing env ?s k old v ret meta ?ex | None \<Rightarrow> set_new env ?s k v ret meta ?ex"
  obtain r s1 where ram: "?ram = (r, s1)" by (cases ?ram)
  have live: "kvd_live c ?s" by (rule kvd_live_bumps(1) [OF assms(1)])
  have R: "kvd_inv c s1 \<and> (\<forall>x. r = Inr x \<longrightarrow> kvd_live c s1 \<and> (\<forall>y \<in> set (snd x). spill_ok c y))"
  proof (cases "dict_get (store_entries ?s) k")
    case None
    then show ?thesis using kvd_set_new [OF live assms(2,3) None] ram by simp
  next
    case (Some old)
    then have "set_existing env ?s k old v ret meta ?ex = (r, s1)" using ram by simp
    from kvd_set_existing [OF live assms(2,3) Some this] show ?thesis by auto
  qed
  have eq: "(res, s') = (case r of Inl e \<Rightarrow> (Inl e, s1) | Inr ((accepted, reason), spills) \<Rightarrow>
      if \<not> accepted then (Inr (False, reason), s1)
      else (Inr (True, None), if ret = RETENTION_LONG then write_through env (foldl (spill_one env) s1 spills) k else foldl (spill_one env) s1 spills))"
  proof -
    obtain y where y: "validate_retention ret = Inr y" using False by (cases "validate_retention ret") auto
    have t: "\<not> (case ttl of None \<Rightarrow> False | Some t \<Rightarrow> t \<le> 0)" using False by blast
    show ?thesis using assms(5) [unfolded host_set_def y sum.case if_not_P [OF t] Let_def ram prod.case] by simp
  qed
  show ?thesis
  proof (cases r)
    case (Inl e)
    then show ?thesis using eq R by simp
  next
    case (Inr x)
    obtain acc reason spills where x: "x = ((acc, reason), spills)" by (cases x) auto
    have "kvd_live c s1" "\<forall>y \<in> set spills. spill_ok c y" using R Inr x by auto
    then have sp: "kvd_live c (foldl (spill_one env) s1 spills)" using kvd_spills assms(4) by blast
    have "s' = s1 \<or> s' = foldl (spill_one env) s1 spills \<or> s' = write_through env (foldl (spill_one env) s1 spills) k"
      using eq by (auto simp: Inr x split: if_splits)
    then have "kvd_live c s'" using sp kvd_write_through [OF sp assms(4), of k] \<open>kvd_live c s1\<close> by auto
    then show ?thesis using kvd_live_inv by blast
  qed
qed

end
