(* ===== verification/Kvd_Safety.thy ===== *)
theory Kvd_Safety
  imports Kvd_Server
begin

text \<open>
  What the KV daemon answers. A history of the daemon is any sequence of requests, prefetch turns,
  writes of lease holders and disconnects; the stores among them are honest, that is, they store
  under a key what the key stands for. Then no read ever returns bytes that belong to another key.
\<close>

declare split_paired_Ex [simp del] split_paired_All [simp del]

section \<open>The store keeps the right bytes\<close>

lemma kvd_liveI: "kvd_inv c s \<Longrightarrow> (\<And>a. shared_arena s = Some a \<Longrightarrow> log_room a) \<Longrightarrow> kvd_live c s"
  by (simp add: kvd_live_def)

lemma kvd_liveD: "kvd_live c s \<Longrightarrow> shared_arena s = Some a \<Longrightarrow> log_room a"
  by (simp add: kvd_live_def)

lemma kvd_touch:
  assumes "kvd_live c s" and "dict_get (store_entries s) k = Some e"
  shows "kvd_live c (s\<lparr>store_entries := dict_put k (e\<lparr>he_last_access := t\<rparr>) (store_entries s)\<rparr>)"
proof (rule kvd_liveI)
  let ?s = "s\<lparr>store_entries := dict_put k (e\<lparr>he_last_access := t\<rparr>) (store_entries s)\<rparr>"
  have inv: "kvd_inv c s" by (rule kvd_live_inv [OF assms(1)])
  note D = kvd_stateD [OF inv]
  show "kvd_inv c ?s"
  proof (rule kvd_state_step [OF inv])
    show "rows_wf ?s"
      by (rule rows_wf_update [OF D(1) assms(2), of "e\<lparr>he_last_access := t\<rparr>"])
        (use rows_wfD(3) [OF D(1) assms(2)] in \<open>simp_all add: inline_size_update\<close>)
    show "\<exists>e0. dict_get (store_entries s) i = Some e0 \<and> he_slot x = he_slot e0 \<and> he_value x = he_value e0"
      if "dict_get (store_entries ?s) i = Some x" for i x
      using that assms(2) by (auto simp: dict_get_put split: if_splits)
    show "arena_good c b" if "shared_arena ?s = Some b" for b using D(4) that by simp
  qed simp_all
  show "log_room a" if "shared_arena ?s = Some a" for a using kvd_liveD [OF assms(1)] that by simp
qed

lemma kvd_live_remove:
  assumes "kvd_live c s" and "dict_get (store_entries s) k = Some e"
  shows "kvd_live c (remove_entry_locked s k e)"
proof (rule kvd_liveI [OF kvd_remove [OF kvd_live_inv [OF assms(1)] assms(2)]])
  fix a assume "shared_arena (remove_entry_locked s k e) = Some a"
  then obtain b where "shared_arena s = Some b" "recent_evicted_keys a = recent_evicted_keys b"
    by (auto simp: remove_entry_locked_def release_slot_def pop_row_def evict_key_index split: if_splits)
  then show "log_room a" using kvd_liveD [OF assms(1)] by (simp add: log_room_def)
qed

interpretation kvd: store_invariant "kvd_live c" "kvd_inv c" "\<lambda>k v. id_ok c k \<and> served (ctx_content c) k v" "ctx_lib c" for c
proof
  fix s :: HostStore and r env k hit r'
  assume live: "kvd_live c s" and lib: "env_lib env = ctx_lib c" and rd: "read_region env r k = (hit, r')"
  note D = kvd_stateD [OF kvd_live_inv [OF live]]
  {
    assume "store_long s = Some r"
    note R = region_good_read [OF D(5) [OF this] rd lib]
    show "kvd_live c (s\<lparr>store_long := Some r'\<rparr>) \<and> (\<forall>e v. hit = Some (e, v) \<longrightarrow> id_ok c k \<and> served (ctx_content c) k v)"
      by (intro conjI kvd_live_regions(1) [OF live] R [THEN conjunct2]) (use R in simp)
  next
    assume "store_spillover s = Some r"
    note R = region_good_read [OF D(6) [OF this] rd lib]
    show "kvd_live c (s\<lparr>store_spillover := Some r'\<rparr>) \<and> (\<forall>e v. hit = Some (e, v) \<longrightarrow> id_ok c k \<and> served (ctx_content c) k v)"
      by (intro conjI kvd_live_regions(2) [OF live] R [THEN conjunct2]) (use R in simp)
  }
next
  fix s k v env ret meta ttl res s'
  assume "kvd_live c s" and ok: "id_ok c k \<and> served (ctx_content c) k v" and "env_lib env = ctx_lib c"
    and "host_set env s k v ret meta ttl = (res, s')"
  then show "kvd_inv c s' \<and> (\<forall>x. res = Inr x \<longrightarrow> kvd_live c s')" using kvd_set [OF _ conjunct1 [OF ok] conjunct2 [OF ok]] by blast
qed (rule kvd_live_inv kvd_live_bumps(3) kvd_touch kvd_live_remove; assumption)+

section \<open>What a lookup hands out\<close>

text \<open>The entry a lookup returns is the row the store now has, or a loose copy of a block read
  from disk.\<close>

context store_invariant
begin

lemma promote_result:
  assumes "\<forall>e v. hit = Some (e, v) \<longrightarrow> ok k v" and "promote_hit env s k hit = (Inr (Some e), s')"
  shows "dict_get (store_entries s') k = Some e \<or> he_slot e = None \<and> ok k (he_value e)"
proof (cases hit)
  case (Some x)
  obtain d v where x: "x = (d, v)" by (cases x)
  obtain res s1 where h: "host_set env s k v (ent_retention d) (ent_metadata d) None = (res, s1)"
    by (cases "host_set env s k v (ent_retention d) (ent_metadata d) None")
  have "ok k v" using assms(1) Some x by simp
  then show ?thesis using assms(2)
    by (auto simp: promote_hit_def promote_from_ssd_def Some x h bump_hits_def make_entry_def
        split: sum.splits option.splits bool.splits prod.splits)
qed (use assms(2) in \<open>simp add: promote_hit_def\<close>)

lemma long_result:
  assumes "live s" and "env_lib env = lib" and "try_long env s k = (Inr (Some e), s')"
  shows "dict_get (store_entries s') k = Some e \<or> he_slot e = None \<and> ok k (he_value e)"
proof (cases "store_long s")
  case (Some r)
  obtain hit r' where rd: "read_region env r k = (hit, r')" by (cases "read_region env r k")
  note L = live_long [OF assms(1) Some assms(2) rd, THEN conjunct2]
  show ?thesis by (rule promote_result [OF L]) (use assms(3) Some rd in \<open>simp add: try_long_def\<close>)
qed (use assms(3) in \<open>simp add: try_long_def\<close>)

lemma spillover_result:
  assumes "live s" and "env_lib env = lib" and "try_spillover env s k = (Inr (Some e), s')"
  shows "dict_get (store_entries s') k = Some e \<or> he_slot e = None \<and> ok k (he_value e)"
proof (cases "store_spillover s")
  case (Some r)
  obtain hit r' where rd: "read_region env r k = (hit, r')" by (cases "read_region env r k")
  note L = live_spillover [OF assms(1) Some assms(2) rd, THEN conjunct2]
  show ?thesis by (rule promote_result [OF L]) (use assms(3) Some rd in \<open>simp add: try_spillover_def\<close>)
qed (use assms(3) in \<open>simp add: try_spillover_def\<close>)

lemma get_result:
  assumes "live s" and "env_lib env = lib" and "host_get env s k = (Inr (Some e), s')"
  shows "dict_get (store_entries s') k = Some e \<or> he_slot e = None \<and> ok k (he_value e)"
proof (cases "dict_get (store_entries s) k")
  case (Some x)
  have "store_entries (bump_gets s) = store_entries s" by (simp add: bump_gets_def)
  then show ?thesis using assms(3) Some
    by (auto simp: host_get_def Let_def bump_hits_def dict_get_put split: if_splits)
next
  case None
  have g: "live (bump_gets s)" using live_bumps(1) [OF assms(1)] .
  have en: "store_entries (bump_gets s) = store_entries s" by (simp add: bump_gets_def)
  obtain r1 s1 where l: "try_long env (bump_gets s) k = (r1, s1)" by (cases "try_long env (bump_gets s) k")
  obtain r2 s2 where sp: "try_spillover env s1 k = (r2, s2)" by (cases "try_spillover env s1 k")
  show ?thesis
  proof (cases "r1 = Inr None")
    case True
    have "live s1" using try_long_settled [OF g assms(2), of k] settled_live l True by metis
    moreover have "(r2, s2) = (Inr (Some e), s')"
      using assms(3) None en l sp True by (auto simp: host_get_def Let_def split: sum.splits option.splits)
    ultimately show ?thesis using spillover_result [OF _ assms(2)] sp by auto
  next
    case False
    have "(r1, s1) = (Inr (Some e), s')"
      using assms(3) None en l False by (auto simp: host_get_def Let_def split: sum.splits option.splits)
    then show ?thesis using long_result [OF g assms(2)] l by auto
  qed
qed

end

section \<open>Answers\<close>

text \<open>A response to a get of \<open>k\<close> carries no bytes, empty bytes or the bytes of \<open>k\<close>; a reference
  into the shared arena denotes a slot in which a reader finds the bytes of \<open>k\<close> or nothing.\<close>

definition answers :: "kvd_ctx \<Rightarrow> identity \<Rightarrow> HostStore \<Rightarrow> kvd_response \<Rightarrow> bool" where
  "answers c k s resp =
     (case resp of
        GetResponse None _ \<Rightarrow> True
      | GetResponse (Some b) _ \<Rightarrow> served (ctx_content c) k b
      | GetSharedResponse (off, len, ver, ret) ss \<Rightarrow>
          (\<exists>a slot. shared_arena s = Some a \<and> ss = slot_size a \<and> off = slot * ss + HEADER_BYTES \<and>
             ver = slot_version (mem a slot) \<and> (\<forall>b. read_slot ss (mem a slot) = Some b \<longrightarrow> served (ctx_content c) k b))
      | ErrorMessage _ \<Rightarrow> True
      | _ \<Rightarrow> False)"

lemma slot_served:
  assumes "arena_good c a" and "backed a (block_key k) slot" and "ctx_ident c (block_key k) = k"
    and "read_slot (slot_size a) (mem a slot) = Some b"
  shows "served (ctx_content c) k b"
proof (cases "dict_get (slot_index a) (block_key k) = Some slot")
  case True
  then show ?thesis using arena_goodD(2) [OF assms(1), of "block_key k" b] assms(3,4) by (simp add: arena_lookup_def)
next
  case False
  then have "slot_version (mem a slot) mod 2 = 1" using assms(2) by (simp add: backed_def)
  then show ?thesis using assms(4) by (simp add: read_odd)
qed

lemma result_good:
  assumes "kvd_inv c s" and "dict_get (store_entries s) k = Some e \<or> he_slot e = None \<and> id_ok c k \<and> served (ctx_content c) k (he_value e)"
  shows "row_good backed c (shared_arena s) k e"
  using assms(2)
proof
  assume "dict_get (store_entries s) k = Some e"
  then show ?thesis by (rule kvd_stateD(3) [OF assms(1)])
qed (simp add: row_good_def)

lemma answer_live: "kvd_live c s \<Longrightarrow> kvd_live c (snd (answer_entry shared s e))"
  using kvd_live_resolve [of c s e]
  by (auto simp: answer_entry_def case_prod_beta split: option.split prod.split)

lemma answer_good:
  assumes "kvd_live c s" and "row_good backed c (shared_arena s) k e"
  shows "answers c k (snd (answer_entry shared s e)) (fst (answer_entry shared s e))"
proof -
  note D = kvd_stateD [OF kvd_live_inv [OF assms(1)]]
  have res: "served (ctx_content c) k (fst (resolve_value s e))" by (rule resolve_served [OF assms(2) D(4) D(2)])
  show ?thesis
  proof (cases "\<exists>slot a m. he_slot e = Some slot \<and> shared_arena s = Some a \<and> shared \<and> get_slot_metadata a (int slot) = Some m")
    case False
    then have "\<exists>b ret. fst (answer_entry shared s e) = GetResponse b ret \<and> (b = None \<or> b = Some (fst (resolve_value s e)))"
      by (auto simp: answer_entry_def case_prod_beta split: option.splits)
    then show ?thesis using res by (auto simp: answers_def)
  next
    case True
    then obtain slot a m where m: "he_slot e = Some slot" "shared_arena s = Some a" shared "get_slot_metadata a (int slot) = Some m"
      by blast
    have b: "backed a (block_key k) slot" "id_ok c k" using assms(2) m(1,2) by (auto simp: row_good_def)
    have id: "ctx_ident c (block_key k) = k" using b(2) D(2) m(2) by (simp add: id_ok_def)
    have "m = (slot * slot_size a + HEADER_BYTES, slot_length (mem a slot), slot_version (mem a slot))"
      using m(4) by (simp add: get_slot_metadata_def split: if_splits)
    then have "answer_entry shared s e =
        (GetSharedResponse (slot * slot_size a + HEADER_BYTES, slot_length (mem a slot), slot_version (mem a slot), he_retention e) (slot_size a), s)"
      using m by (simp add: answer_entry_def)
    then show ?thesis using slot_served [OF D(4) [OF m(2)] b(1) id] m(2) by (auto simp: answers_def)
  qed
qed

lemma claim_store [simp]: "srv_store (claim_warmed_key v key) = srv_store v"
  by (simp add: claim_warmed_key_def)

lemma handle_get_good:
  assumes "kvd_live c (srv_store v)" and "env_lib env = ctx_lib c" and "handle_get env shared v k = (resp, v')"
  shows "kvd_inv c (srv_store v')" and "answers c k (srv_store v') resp"
proof -
  obtain res s where g: "host_get env (srv_store v) k = (res, s)" by (cases "host_get env (srv_store v) k")
  have "kvd.settled c (res, s)" using kvd.get_settled [OF assms(1,2), of k] g by simp
  then have inv: "kvd_inv c s" and live: "\<And>x. res = Inr x \<Longrightarrow> kvd_live c s" by (auto simp: kvd.settled_def)
  consider (err) e where "res = Inl e" | (miss) "res = Inr None" | (hit) e where "res = Inr (Some e)"
    by (cases res) auto
  then have "kvd_inv c (srv_store v') \<and> answers c k (srv_store v') resp"
  proof cases
    case (hit e)
    obtain r s2 where a: "answer_entry shared s e = (r, s2)" by (cases "answer_entry shared s e")
    have rg: "row_good backed c (shared_arena s) k e"
      by (rule result_good [OF inv kvd.get_result [OF assms(1,2) g [unfolded hit]]])
    have eq: "resp = r" "srv_store v' = s2" using assms(3) g hit a by (auto simp: handle_get_def)
    show ?thesis using answer_live [OF live [OF hit], of shared e] answer_good [OF live [OF hit] rg, of shared] kvd_live_inv a
      by (simp add: eq)
  qed (use assms(3) g inv in \<open>auto simp: handle_get_def answers_def\<close>)
  then show "kvd_inv c (srv_store v')" and "answers c k (srv_store v') resp" by blast+
qed

section \<open>The other requests\<close>

text \<open>Replacing the arena by one that serves the same rows.\<close>

lemma kvd_new_arena:
  assumes "kvd_inv c s" and "shared_arena s = Some a" and "arena_good c b"
    and "\<And>key slot. backed a key slot \<Longrightarrow> backed b key slot"
  shows "kvd_inv c (s\<lparr>shared_arena := Some b\<rparr>)"
  by (rule kvd_state_step [OF assms(1)]) (use kvd_stateD(1) [OF assms(1)] assms(2-4) in simp_all)

lemma kvd_shrunk_arena:
  assumes "kvd_inv c s" and "shared_arena s = Some a" and "shrinks a b"
    and "slot_index b = slot_index a" "recent_evicted_keys b = recent_evicted_keys a" "mem b = mem a"
  shows "kvd_inv c (s\<lparr>shared_arena := Some b\<rparr>)"
  by (rule kvd_new_arena [OF assms(1,2) arena_good_shrinks [OF kvd_stateD(4) [OF assms(1,2)] assms(3)]])
    (simp add: backed_def assms(4-6))

lemma handle_reserve_good:
  assumes "kvd_live c (srv_store v)" and "handle_reserve conn v sz = (resp, v')"
  shows "kvd_inv c (srv_store v')"
proof (cases "shared_arena (srv_store v)")
  case None
  then show ?thesis using assms kvd_live_inv by (auto simp: handle_reserve_def)
next
  case (Some a)
  obtain res b where r: "reserve a sz conn = (res, b)" by (cases "reserve a sz conn")
  have inv: "kvd_inv c (srv_store v)" by (rule kvd_live_inv [OF assms(1)])
  note G = kvd_stateD(4) [OF inv Some]
  have "arena_lookup b key = Some x \<Longrightarrow> arena_lookup a key = Some x" "arena_inv b" for key x
    using reserve_step [OF arena_goodD(1) [OF G] r] by blast+
  then have "arena_good c b" using G by (auto simp: arena_good_def)
  then have "kvd_inv c ((srv_store v)\<lparr>shared_arena := Some b\<rparr>)"
    by (rule kvd_new_arena [OF inv Some]) (rule reserve_backed [OF r arena_goodD(1) [OF G] kvd_liveD [OF assms(1) Some]])
  then show ?thesis using assms(2) Some r by (auto simp: handle_reserve_def)
qed

lemma handle_cancel_good:
  assumes "kvd_inv c (srv_store v)"
  shows "kvd_inv c (srv_store (snd (handle_cancel conn v token)))" and "kvd_inv c (srv_store (disconnect v conn))"
proof -
  have "kvd_inv c ((srv_store v)\<lparr>shared_arena := map_option f (shared_arena (srv_store v))\<rparr>)"
    if "\<And>a. arena_inv a \<Longrightarrow> shrinks a (f a)" "\<And>a. slot_index (f a) = slot_index a"
      "\<And>a. recent_evicted_keys (f a) = recent_evicted_keys a" "\<And>a. mem (f a) = mem a" for f
  proof (cases "shared_arena (srv_store v)")
    case None
    show ?thesis by (rule kvd_state_same [OF assms]) (simp_all add: None)
  next
    case (Some a)
    show ?thesis
      using kvd_shrunk_arena [OF assms Some that(1) [OF arena_goodD(1) [OF kvd_stateD(4) [OF assms Some]]] that(2-4)]
      by (simp add: Some)
  qed
  then show "kvd_inv c (srv_store (snd (handle_cancel conn v token)))" "kvd_inv c (srv_store (disconnect v conn))"
    by (simp_all add: handle_cancel_def disconnect_def cancel_fields cancel_shrinks cancel_connection_shrinks)
qed

text \<open>A lease holder writes through its own mapping.\<close>

lemma lease_write_good:
  assumes "kvd_inv c s" and "shared_arena s = Some a" and "dict_get (reservations a) token = Some r"
  shows "kvd_inv c (s\<lparr>shared_arena := Some (engine_write a (slot_id r) bytes)\<rparr>)"
proof (rule kvd_new_arena [OF assms(1,2)])
  note G = kvd_stateD(4) [OF assms(1,2)]
  show "arena_good c (engine_write a (slot_id r) bytes)"
    using engine_write_step [OF arena_goodD(1) [OF G] assms(3)] arena_goodD(2) [OF G] by (auto simp: arena_good_def)
  show "backed (engine_write a (slot_id r) bytes) key slot" if "backed a key slot" for key slot
    using that by (auto simp: backed_def engine_write_def write_payload_def)
qed

subsection \<open>Commit\<close>

lemma committed:
  assumes "commit_reservation a t key n conn = (Inr (Committed ow), b)"
  obtains r where "dict_get (reservations a) t = Some r" "connection_id r = conn"
    "\<forall>i. dict_get (slot_index b) i = (if i = key then Some (slot_id r) else dict_get (slot_index a) i)"
    "recent_evicted_keys b = recent_evicted_keys a"
    "ow = (case dict_get (slot_index a) key of None \<Rightarrow> None | Some x \<Rightarrow> if x \<noteq> slot_id r then Some key else None)"
  using assms
  by (auto simp: commit_reservation_def Let_def dict_get_put dict_get_del split: option.splits if_splits prod.splits)

lemma slot_for_key_fields:
  "fst (get_slot_for_key a k) = dict_get (slot_index a) k"
  "dict_wf (slot_index a) \<Longrightarrow> dict_get (slot_index (snd (get_slot_for_key a k))) i = dict_get (slot_index a) i"
  "recent_evicted_keys (snd (get_slot_for_key a k)) = recent_evicted_keys a"
  by (simp_all add: get_slot_for_key_def dict_get_move_to_end split: option.split)

text \<open>The client wrote the bytes of the key into its slot before it commits, and the version counter
  of the slot has room.\<close>

definition honest_commit :: "kvd_ctx \<Rightarrow> HostStore \<Rightarrow> nat \<Rightarrow> nat \<Rightarrow> identity \<Rightarrow> int \<Rightarrow> bool" where
  "honest_commit c s conn token k len \<longleftrightarrow> id_ok c k \<and>
     (\<forall>a. shared_arena s = Some a \<longrightarrow>
        (\<exists>res. fst (commit_reservation a token (block_key k) len conn) = Inr res) \<and>
        (\<forall>r. dict_get (reservations a) token = Some r \<and> connection_id r = conn \<longrightarrow>
           map (slot_payload (mem a (slot_id r))) [0..<nat len] = ctx_content c k))"

lemma commit_arena_good:
  assumes "arena_good c a" and "commit_reservation a token (block_key k) len conn = (Inr (Committed ow), b)"
    and "ctx_ident c (block_key k) = k"
    and "\<And>r. dict_get (reservations a) token = Some r \<Longrightarrow> connection_id r = conn \<Longrightarrow>
      map (slot_payload (mem a (slot_id r))) [0..<nat len] = ctx_content c k"
  shows "arena_good c (snd (get_slot_for_key b (block_key k)))"
proof -
  note S = commit_step [OF arena_goodD(1) [OF assms(1)] assms(2)]
  obtain r where r: "dict_get (reservations a) token = Some r" "connection_id r = conn" using committed [OF assms(2)] .
  have "served (ctx_content c) (ctx_ident c key) x" if x: "arena_lookup b key = Some x" for key x
  proof (cases "key = block_key k")
    case True
    then have "x = ctx_content c k" using S(2) [OF refl r(1)] assms(4) [OF r] x by simp
    then show ?thesis using True assms(3) by (simp add: served_def)
  next
    case False
    then show ?thesis using arena_goodD(2) [OF assms(1)] S(3) [OF x] by blast
  qed
  then have "arena_good c b" using S(1) by (simp add: arena_good_def)
  then show ?thesis using arena_good_shrinks get_slot_shrinks arena_goodD(1) by blast
qed

text \<open>After the rows of a slot the commit has freed are dropped, every row left has its slot in the
  index or waits for the drain.\<close>

lemma commit_dropped:
  assumes "kvd_inv c s" and "shared_arena s = Some a"
    and cm: "commit_reservation a token (block_key k) len conn = (Inr (Committed ow), b)"
    and gs: "get_slot_for_key b (block_key k) = (slot, d)" and good: "arena_good c d"
    and s1: "s1 = (case ow of None \<Rightarrow> bump_sets (s\<lparr>shared_arena := Some d\<rparr>)
      | Some key \<Rightarrow> drop_bucket False (bump_sets (s\<lparr>shared_arena := Some d\<rparr>)) key)"
  shows "kvd_state loosely c s1"
    and "slot_or_minus_one slot = Some q \<Longrightarrow> \<exists>y. shared_arena s1 = Some y \<and> dict_get (slot_index y) (block_key k) = Some q"
proof -
  note D = kvd_stateD [OF assms(1)]
  let ?s0 = "bump_sets (s\<lparr>shared_arena := Some d\<rparr>)"
  have ain: "arena_inv a" by (rule arena_goodD(1) [OF D(4) [OF assms(2)]])
  obtain r where "dict_get (reservations a) token = Some r" "connection_id r = conn"
      and r: "\<forall>i. dict_get (slot_index b) i = (if i = block_key k then Some (slot_id r) else dict_get (slot_index a) i)"
      "recent_evicted_keys b = recent_evicted_keys a"
      "ow = (case dict_get (slot_index a) (block_key k) of None \<Rightarrow> None | Some x \<Rightarrow> if x \<noteq> slot_id r then Some (block_key k) else None)"
    using committed [OF cm] .
  note F = slot_for_key_fields [of b "block_key k", unfolded gs fst_conv snd_conv]
  have d: "dict_get (slot_index d) i = dict_get (slot_index b) i" for i
    by (rule F(2) [OF arena_invD(1) [OF commit_step(1) [OF ain cm]]])
  have wf0: "rows_wf ?s0" using D(1) by simp
  have wf1: "rows_wf s1" using wf0 by (simp add: s1 rows_wf_drop_bucket split: option.split)
  have en0: "store_entries ?s0 = store_entries s" by (simp add: bump_sets_def)
  have get1: "dict_get (store_entries s1) i = (if ow = Some (block_key i) then None else dict_get (store_entries s) i)" for i
    using drop_bucket_get [OF wf0, of False _ i] en0 by (auto simp: s1 split: option.split)
  have f1: "shared_arena s1 = Some d" "store_long s1 = store_long s" "store_spillover s1 = store_spillover s"
    using drop_bucket_fields [of False ?s0] by (simp_all add: s1 bump_sets_def split: option.split)
  show "kvd_state loosely c s1"
  proof (rule kvd_state_step [OF assms(1) wf1])
    show "\<exists>e0. dict_get (store_entries s) i = Some e0 \<and> he_slot e = he_slot e0 \<and> he_value e = he_value e0"
      if "dict_get (store_entries s1) i = Some e" for i e using that by (simp add: get1 split: if_splits)
    show "loosely y (block_key i) q" if "shared_arena s = Some x" "shared_arena s1 = Some y" "dict_get (store_entries s1) i = Some e"
        "backed x (block_key i) q" for x y i e q
    proof -
      have "ow \<noteq> Some (block_key i)" using that(3) by (simp add: get1 split: if_splits)
      moreover have x: "x = a" "y = d" using that(1,2) assms(2) f1(1) by simp_all
      ultimately show ?thesis using that(4) by (auto simp: x loosely_def backed_def d r F(3) split: if_splits)
    qed
  qed (use assms(2) f1 good in simp_all)
  show "\<exists>y. shared_arena s1 = Some y \<and> dict_get (slot_index y) (block_key k) = Some q" if "slot_or_minus_one slot = Some q"
    using that d r(1) f1(1) F(1) by (simp add: slot_or_minus_one_def split: option.splits if_splits)
qed

lemma commit_lease_live:
  assumes "kvd_inv c s" and "shared_arena s = Some a" and "id_ok c k"
    and "commit_reservation a token (block_key k) len conn = (Inr (Committed ow), b)"
    and "get_slot_for_key b (block_key k) = (slot, d)" and "arena_good c d"
    and res: "commit_arena_lease env (s\<lparr>shared_arena := Some d\<rparr>) k (slot_or_minus_one slot) n ret ttl ow = (None, s')"
  shows "kvd_live c s'"
proof -
  define s1 where "s1 = (case ow of None \<Rightarrow> bump_sets (s\<lparr>shared_arena := Some d\<rparr>)
      | Some key \<Rightarrow> drop_bucket False (bump_sets (s\<lparr>shared_arena := Some d\<rparr>)) key)"
  note C = commit_dropped [OF assms(1,2,4-6) s1_def]
  have wf1: "rows_wf s1" by (rule kvd_stateD(1) [OF C(1)])
  let ?ex = "case ttl of None \<Rightarrow> None | Some t \<Rightarrow> if t > 0 then Some (clock_now env + t) else None"
  obtain y where y: "validate_retention ret = Inr y"
    using res by (cases "validate_retention ret") (auto simp: commit_arena_lease_def)
  note U = res [unfolded commit_arena_lease_def y sum.case Let_def, folded s1_def]
  show ?thesis
  proof (cases "dict_get (store_entries s1) k")
    case None
    let ?e = "(make_entry env k [] ret (UserMeta []) ?ex)\<lparr>he_slot := slot_or_minus_one slot, he_size_cache := n\<rparr>"
    let ?t = "s1\<lparr>store_entries := dict_put k ?e (store_entries s1), store_key_index := key_index_add k (store_key_index s1)\<rparr>"
    have "kvd_state loosely c ?t"
    proof (rule filed_state [OF C(1) assms(3)])
      show "rows_wf ?t" by (rule rows_wf_insert [OF wf1 None, of ?e]) (simp_all add: inline_size_def split: option.split)
      show "served (ctx_content c) k (he_value ?e)" by (simp add: served_def make_entry_def split: prod.split)
    qed (use C(2) in simp_all)
    from drain_live [OF this] show ?thesis using U None by simp
  next
    case (Some old)
    let ?e = "old\<lparr>he_value := [], he_slot := slot_or_minus_one slot, he_size_cache := n,
      he_retention := ret, he_last_access := clock_now env, he_expires_at := ?ex\<rparr>"
    let ?t = "s1\<lparr>store_entries := dict_put k ?e (store_entries s1),
      store_used_bytes := (if he_slot old = None then store_used_bytes s1 - int (size_bytes old) else store_used_bytes s1)\<rparr>"
    have "kvd_state loosely c ?t"
    proof (rule filed_state [OF C(1) assms(3)])
      show "rows_wf ?t"
        by (rule rows_wf_update [OF wf1 Some, of ?e])
          (use rows_wfD(3) [OF wf1 Some] in \<open>simp_all add: inline_size_alt, simp_all add: inline_size_def size_bytes_def split: option.split\<close>)
      show "served (ctx_content c) k (he_value ?e)" by (simp add: served_def)
    qed (use C(2) in simp_all)
    from drain_live [OF this] show ?thesis using U Some by simp
  qed
qed

lemma handle_commit_good:
  assumes "kvd_inv c (srv_store v)" and "honest_commit c (srv_store v) conn token k len"
    and "handle_commit env conn v token k len ret ttl = (resp, v')"
  shows "kvd_inv c (srv_store v')"
proof (cases "shared_arena (srv_store v)")
  case None
  then show ?thesis using assms(1,3) by (simp add: handle_commit_def)
next
  case (Some a)
  define ret' where "ret' = (if ret = ''default'' \<or> ret = [] then ''short'' else ret)"
  obtain res b where cm: "commit_reservation a token (block_key k) len conn = (Inr res, b)"
    using assms(2) Some by (cases "commit_reservation a token (block_key k) len conn") (auto simp: honest_commit_def)
  have h: "id_ok c k" "\<And>r. dict_get (reservations a) token = Some r \<Longrightarrow> connection_id r = conn \<Longrightarrow>
      map (slot_payload (mem a (slot_id r))) [0..<nat len] = ctx_content c k"
    using assms(2) Some by (simp_all add: honest_commit_def)
  note U = assms(3) [unfolded handle_commit_def Some option.case Let_def, folded ret'_def, unfolded cm prod.case sum.case]
  note D = kvd_stateD [OF assms(1)]
  show ?thesis
  proof (cases "ret' \<in> {''none'', ''ephemeral'', ''short'', ''long''} \<and> (\<exists>ow. res = Committed ow)")
    case False
    then have "srv_store v' = srv_store v \<or> srv_store v' = (srv_store v)\<lparr>shared_arena := Some b\<rparr> \<and> b = a"
      using U commit_fate [OF cm] by (auto split: if_splits commit_result.splits)
    then show ?thesis using assms(1) kvd_state_same [OF assms(1)] Some by auto
  next
    case True
    then obtain ow where ow: "res = Committed ow" and ok: "ret' \<in> {''none'', ''ephemeral'', ''short'', ''long''}" by blast
    obtain slot d where g: "get_slot_for_key b (block_key k) = (slot, d)" by (cases "get_slot_for_key b (block_key k)")
    have id: "ctx_ident c (block_key k) = k" using h(1) D(2) Some by (simp add: id_ok_def)
    have "arena_good c (snd (get_slot_for_key b (block_key k)))"
      by (rule commit_arena_good [OF D(4) [OF Some] cm [unfolded ow] id]) (rule h(2))
    then have good: "arena_good c d" by (simp add: g)
    obtain e s where l: "commit_arena_lease env ((srv_store v)\<lparr>shared_arena := Some d\<rparr>) k (slot_or_minus_one slot) (nat len) ret'
        (if ttl > 0 then Some (real_of_int ttl) else None) ow = (e, s)" (is "?L = _") by (cases ?L)
    have e: "e = None" using l ok by (auto simp: commit_arena_lease_def validate_retention_def Let_def)
    have "\<not> ret' \<notin> {''none'', ''ephemeral'', ''short'', ''long''}" using ok by simp
    note V = U [unfolded if_not_P [OF this] ow commit_result.case g prod.case l e option.case]
    have "srv_store v' = s" using V by auto
    then show ?thesis using kvd_live_inv [OF commit_lease_live [OF assms(1) Some h(1) cm [unfolded ow] g good l [unfolded e]]] by simp
  qed
qed

subsection \<open>Clear\<close>

lemma release_arena_None [simp]: "(shared_arena (release_slot s e) = None) = (shared_arena s = None)"
  by (simp add: release_slot_def)

lemma release_arena:
  fixes s :: HostStore
  assumes "\<forall>a. shared_arena s = Some a \<longrightarrow> arena_good c a"
  shows "\<forall>b. shared_arena (release_slot s e) = Some b \<longrightarrow> arena_good c b"
proof (intro allI impI)
  fix b assume b: "shared_arena (release_slot s e) = Some b"
  then obtain a where a: "shared_arena s = Some a" by (cases "shared_arena s") (auto simp: release_slot_def split: if_splits)
  have G: "arena_good c a" using assms a by simp
  have "b = a \<or> b = snd (arena_evict_key a (he_key e) False)" using a b by (auto simp: release_slot_def split: if_splits)
  then show "arena_good c b" using G arena_good_shrinks [OF G evict_key_shrinks [OF arena_goodD(1) [OF G]]] by auto
qed

lemma release_all_arena:
  fixes s :: HostStore
  assumes "\<forall>a. shared_arena s = Some a \<longrightarrow> arena_good c a"
  shows "\<forall>b. shared_arena (foldl release_slot s es) = Some b \<longrightarrow> arena_good c b"
  using assms
proof (induction es arbitrary: s)
  case (Cons e es)
  show ?case using Cons.IH [OF release_arena [OF Cons.prems, of e]] by simp
qed simp

lemma release_all_fields:
  "(shared_arena (foldl release_slot s es) = None) = (shared_arena s = None)"
  "store_long (foldl release_slot s es) = store_long s" "store_spillover (foldl release_slot s es) = store_spillover s"
proof -
  have "(shared_arena (foldl release_slot s es) = None) = (shared_arena s = None) \<and>
    store_long (foldl release_slot s es) = store_long s \<and> store_spillover (foldl release_slot s es) = store_spillover s"
  proof (induction es arbitrary: s)
    case (Cons e es)
    show ?case using Cons.IH [of "release_slot s e"] by (simp add: release_slot_def)
  qed simp
  then show "(shared_arena (foldl release_slot s es) = None) = (shared_arena s = None)"
    "store_long (foldl release_slot s es) = store_long s" "store_spillover (foldl release_slot s es) = store_spillover s"
    by blast+
qed

lemma kvd_regions:
  assumes "kvd_inv c s" and "\<And>r. lg = Some r \<Longrightarrow> region_good (id_ok c) (ctx_content c) (ctx_lib c) r"
    and "\<And>r. sp = Some r \<Longrightarrow> region_good (id_ok c) (ctx_content c) (ctx_lib c) r"
  shows "kvd_inv c (s\<lparr>store_spillover := sp, store_long := lg\<rparr>)"
proof (rule kvd_stateI)
  note D = kvd_stateD [OF assms(1)]
  show "rows_wf (s\<lparr>store_spillover := sp, store_long := lg\<rparr>)" using D(1) by simp
  show "(shared_arena (s\<lparr>store_spillover := sp, store_long := lg\<rparr>) \<noteq> None) = ctx_arena c" using D(2) by simp
  show "row_good backed c (shared_arena (s\<lparr>store_spillover := sp, store_long := lg\<rparr>)) k e"
    if "dict_get (store_entries (s\<lparr>store_spillover := sp, store_long := lg\<rparr>)) k = Some e" for k e
    using D(3) [of k e] that by simp
  show "arena_good c a" if "shared_arena (s\<lparr>store_spillover := sp, store_long := lg\<rparr>) = Some a" for a
    using D(4) [of a] that by simp
qed (use assms(2,3) in simp_all)

lemma host_clear_good:
  assumes "kvd_inv c s" and "env_lib env = ctx_lib c"
  shows "kvd_inv c (snd (host_clear env s model ck))"
proof (cases "model = [] \<and> ck = []")
  case True
  note D = kvd_stateD [OF assms(1)]
  let ?s = "foldl release_slot s (map snd (store_entries s))"
  have ar: "\<forall>b. shared_arena ?s = Some b \<longrightarrow> arena_good c b" by (rule release_all_arena) (use D(4) in blast)
  let ?t = "?s\<lparr>store_entries := [], store_key_index := [], store_used_bytes := 0,
      store_spillover := map_option (\<lambda>r. snd (region_clear (env_lib env) r)) (store_spillover ?s),
      store_long := map_option (\<lambda>r. snd (region_clear (env_lib env) r)) (store_long ?s)\<rparr>"
  have eq: "snd (host_clear env s model ck) = ?t" using True by (simp add: host_clear_def Let_def)
  have reg: "region_good (id_ok c) (ctx_content c) (ctx_lib c) (snd (region_clear (env_lib env) r))"
    if "region_good (id_ok c) (ctx_content c) (ctx_lib c) r" for r
    unfolding assms(2) by (rule region_good_clear [OF that])
  show ?thesis
  proof (rule kvd_stateI)
    show "rows_wf (snd (host_clear env s model ck))" by (rule rows_wf_clear [OF D(1)])
    show "(shared_arena (snd (host_clear env s model ck)) \<noteq> None) = ctx_arena c"
      using D(2) release_all_fields(1) [of s "map snd (store_entries s)"] by (simp add: eq)
    show "arena_good c b" if "shared_arena (snd (host_clear env s model ck)) = Some b" for b using ar that by (simp add: eq)
    show "region_good (id_ok c) (ctx_content c) (ctx_lib c) r" if "store_long (snd (host_clear env s model ck)) = Some r" for r
      using that D(5) reg by (auto simp: eq release_all_fields)
    show "region_good (id_ok c) (ctx_content c) (ctx_lib c) r" if "store_spillover (snd (host_clear env s model ck)) = Some r" for r
      using that D(6) reg by (auto simp: eq release_all_fields)
  qed (simp add: eq)
next
  case False
  note D = kvd_stateD [OF assms(1)]
  let ?xs = "filter (in_namespace model ck \<circ> fst) (store_entries s)"
  let ?s = "foldl (\<lambda>s (k, e). remove_entry_locked s k e) s ?xs"
  have inv: "kvd_inv c ?s"
  proof (rule remove_all_keeps [where P = "kvd_inv c", OF assms(1)])
    show "distinct (map fst ?xs)" using rows_wfD(1) [OF D(1)] by (simp add: distinct_map_filter)
    show "dict_get (store_entries s) k = Some e" if "(k, e) \<in> set ?xs" for k e
      using rows_wfD(1) [OF D(1)] that by (simp add: map_of_eq_Some_iff)
  qed (rule kvd_remove)
  note E = kvd_stateD(5,6) [OF inv]
  have reg: "region_good (id_ok c) (ctx_content c) (ctx_lib c) (clear_ssd_namespace env r model ck)"
    if "region_good (id_ok c) (ctx_content c) (ctx_lib c) r" for r
    using region_good_clear_namespace [where env = env, unfolded assms(2), OF that] .
  have "kvd_inv c (?s\<lparr>store_spillover := map_option (\<lambda>r. clear_ssd_namespace env r model ck) (store_spillover ?s),
      store_long := map_option (\<lambda>r. clear_ssd_namespace env r model ck) (store_long ?s)\<rparr>)"
    by (rule kvd_regions [OF inv]) (auto intro: reg E)
  then show ?thesis by (simp only: host_clear_def Let_def if_not_P [OF False] snd_conv)
qed

subsection \<open>Batches and prefetch\<close>

context store_invariant
begin

lemma batch_settled:
  assumes "live s" and "env_lib env = lib" and "\<forall>x \<in> set xs. ok (fst x) (fst (snd x))"
  shows "settled (batch_set_loop env s xs)"
  using assms(1,3)
proof (induction xs arbitrary: s)
  case (Cons x xs)
  obtain k v ret meta ttl where x: "x = (k, v, ret, meta, ttl)" by (cases x)
  obtain res s1 where h: "host_set env s k v ret meta ttl = (res, s1)" by (cases "host_set env s k v ret meta ttl")
  have "ok k v" using Cons.prems(2) by (simp add: x)
  from set_settled [OF Cons.prems(1) this assms(2), of ret meta ttl] have s1: "settled (res, s1)" by (simp add: h)
  obtain r2 s2 where l: "batch_set_loop env s1 xs = (r2, s2)" by (cases "batch_set_loop env s1 xs")
  have "settled (r2, s2)" if "res = Inr y" for y
    using Cons.IH [OF settled_live, of y s1] s1 that Cons.prems(2) l by simp
  then show ?case using s1 by (auto simp: x h l settled_def split: sum.split)
qed (simp add: settledI)

text \<open>Every entry a batched get returns satisfies what the rows of the store and the loose copies
  satisfy.\<close>

lemma many_ram_results:
  assumes "\<And>s k e. live s \<Longrightarrow> dict_get (store_entries s) k = Some e \<Longrightarrow> G k e" and "live s"
  shows "list_all2 (\<lambda>k r. \<forall>e. r = Some e \<longrightarrow> G k e) ks (fst (many_ram env s ks))"
  using assms(2)
proof (induction ks arbitrary: s)
  case (Cons k ks)
  let ?g = "bump_gets s"
  have g: "live ?g" by (rule live_bumps(1) [OF Cons.prems])
  show ?case
  proof (cases "dict_get (store_entries ?g) k")
    case None
    then show ?thesis using Cons.IH [OF g] by (simp add: Let_def case_prod_beta)
  next
    case (Some e)
    let ?e = "e\<lparr>he_last_access := clock_now env\<rparr>"
    let ?t = "?g\<lparr>store_entries := dict_put k ?e (store_entries ?g)\<rparr>"
    have t: "live ?t" by (rule live_touch [OF g Some])
    have "G k ?e" by (rule assms(1) [OF t]) (simp add: dict_get_put)
    then show ?thesis
      using Some Cons.IH [OF live_bumps(2) [OF t]] Cons.IH [OF live_remove [OF g Some]] by (simp add: Let_def case_prod_beta)
  qed
qed simp

lemma many_tier_results:
  assumes "\<And>s k. live s \<Longrightarrow> settled (tier s k)" and "\<And>s k e s'. live s \<Longrightarrow> tier s k = (Inr (Some e), s') \<Longrightarrow> G k e"
    and "live s" and "list_all2 (\<lambda>k r. \<forall>e. r = Some e \<longrightarrow> G k e) ks rs" and "many_tier tier s ks rs = (Inr rs', s')"
  shows "list_all2 (\<lambda>k r. \<forall>e. r = Some e \<longrightarrow> G k e) ks rs'"
  using assms(3-5)
proof (induction ks arbitrary: s rs rs' s')
  case (Cons k ks)
  obtain r rt where rs: "rs = r # rt" "\<forall>e. r = Some e \<longrightarrow> G k e" "list_all2 (\<lambda>k r. \<forall>e. r = Some e \<longrightarrow> G k e) ks rt"
    using Cons.prems(2) by (cases rs) auto
  obtain r1 s1 where t: "(case r of Some e \<Rightarrow> (Inr (Some e), s) | None \<Rightarrow> tier s k) = (r1, s1)"
    by (cases "case r of Some e \<Rightarrow> (Inr (Some e), s) | None \<Rightarrow> tier s k")
  obtain r2 s2 where m: "many_tier tier s1 ks rt = (r2, s2)" by (cases "many_tier tier s1 ks rt")
  obtain q rq where q: "r1 = Inr q" "r2 = Inr rq" "rs' = q # rq"
    using Cons.prems(3) by (simp add: rs(1) t m split: sum.splits)
  have s1: "live s1"
    using t assms(1) [OF Cons.prems(1), of k] Cons.prems(1) q(1) settled_live by (cases r) auto
  have "\<forall>e. q = Some e \<longrightarrow> G k e"
    using t rs(2) assms(2) [OF Cons.prems(1), of k] q(1) by (cases r) auto
  then show ?case using Cons.IH [OF s1 rs(3)] m q by simp
qed (simp add: list_all2_Nil)

lemma get_many_results:
  assumes "\<And>s k e. live s \<Longrightarrow> dict_get (store_entries s) k = Some e \<Longrightarrow> G k e"
    and "\<And>k e. he_slot e = None \<Longrightarrow> ok k (he_value e) \<Longrightarrow> G k e"
    and "live s" and "env_lib env = lib" and "host_get_many env s ks = (Inr rs, s')"
  shows "list_all2 (\<lambda>k r. \<forall>e. r = Some e \<longrightarrow> G k e) ks rs"
proof -
  obtain r1 s1 where a: "many_ram env s ks = (r1, s1)" by (cases "many_ram env s ks")
  obtain r2 s2 where b: "many_tier (try_long env) s1 ks r1 = (r2, s2)" by (cases "many_tier (try_long env) s1 ks r1")
  obtain q2 where q: "r2 = Inr q2" using assms(5) by (cases r2) (auto simp: host_get_many_def a b)
  obtain r3 s3 where d: "many_tier (try_spillover env) s2 ks q2 = (r3, s3)" by (cases "many_tier (try_spillover env) s2 ks q2")
  have r3: "r3 = Inr rs" using assms(5) by (cases r3) (auto simp: host_get_many_def a b q d)
  have l1: "live s1" using many_ram_live [OF assms(3), of env ks] a by simp
  have "list_all2 (\<lambda>k r. \<forall>e. r = Some e \<longrightarrow> G k e) ks (fst (many_ram env s ks))"
    by (rule many_ram_results [OF _ assms(3)]) (rule assms(1))
  then have A: "list_all2 (\<lambda>k r. \<forall>e. r = Some e \<longrightarrow> G k e) ks r1" by (simp add: a)
  have "settled (many_tier (try_long env) s1 ks r1)"
    by (rule many_tier_settled [OF _ l1]) (rule try_long_settled [OF _ assms(4)])
  then have l2: "live s2" using settled_live b q by simp
  have B: "list_all2 (\<lambda>k r. \<forall>e. r = Some e \<longrightarrow> G k e) ks q2"
  proof (rule many_tier_results [OF _ _ l1 A b [unfolded q]])
    show "settled (try_long env t k)" if "live t" for t k by (rule try_long_settled [OF that assms(4)])
    show "G k e" if t: "live t" "try_long env t k = (Inr (Some e), t')" for t k e t'
    proof -
      have "live t'" using try_long_settled [OF t(1) assms(4), of k] settled_live t(2) by simp
      then show ?thesis using long_result [OF t(1) assms(4) t(2)] assms(1,2) by blast
    qed
  qed
  show ?thesis
  proof (rule many_tier_results [OF _ _ l2 B d [unfolded r3]])
    show "settled (try_spillover env t k)" if "live t" for t k by (rule try_spillover_settled [OF that assms(4)])
    show "G k e" if t: "live t" "try_spillover env t k = (Inr (Some e), t')" for t k e t'
    proof -
      have "live t'" using try_spillover_settled [OF t(1) assms(4), of k] settled_live t(2) by simp
      then show ?thesis using spillover_result [OF t(1) assms(4) t(2)] assms(1,2) by blast
    qed
  qed
qed

end

section \<open>Histories of the daemon\<close>

text \<open>What the stores of a client must satisfy: the bytes are those the key stands for, and with an
  arena wired the key bytes belong to one identity only, since the arena files blocks by key bytes.\<close>

fun honest :: "kvd_ctx \<Rightarrow> HostStore \<Rightarrow> nat \<Rightarrow> kvd_msg \<Rightarrow> bool" where
  "honest c s conn (MSet k value ret meta ttl) \<longleftrightarrow> id_ok c k \<and> value = ctx_content c k"
| "honest c s conn (MBatchSet model ck keys values rets metas ttls) \<longleftrightarrow>
     (\<forall>x \<in> set (zip keys values). id_ok c (model, ck, fst x) \<and> snd x = ctx_content c (model, ck, fst x))"
| "honest c s conn (MSetCommit token k len ret ttl) \<longleftrightarrow> honest_commit c s conn token k len"
| "honest c s conn _ \<longleftrightarrow> True"

definition log_has_room :: "HostStore \<Rightarrow> bool" where
  "log_has_room s \<longleftrightarrow> (case shared_arena s of None \<Rightarrow> True | Some a \<Rightarrow> log_room a)"

lemma kvd_live_iff: "kvd_live c s \<longleftrightarrow> kvd_inv c s \<and> log_has_room s"
  by (simp add: kvd_live_def log_has_room_def split: option.split)

inductive kvd_reach :: "kvd_ctx \<Rightarrow> KvdServer \<Rightarrow> bool" for c where
  start: "make_store mx sp lg ar = Inr s \<Longrightarrow>
    (\<And>r. lg = Some r \<Longrightarrow> region_good (id_ok c) (ctx_content c) (ctx_lib c) r) \<Longrightarrow>
    (\<And>r. sp = Some r \<Longrightarrow> region_good (id_ok c) (ctx_content c) (ctx_lib c) r) \<Longrightarrow>
    (\<And>a. ar = Some a \<Longrightarrow> make_arena cap = Inr a) \<Longrightarrow> ctx_arena c = (ar \<noteq> None) \<Longrightarrow> kvd_reach c (make_server s n)"
| request: "kvd_reach c v \<Longrightarrow> honest c (srv_store v) conn msg \<Longrightarrow> log_has_room (srv_store v) \<Longrightarrow> env_lib env = ctx_lib c \<Longrightarrow>
    kvd_reach c (snd (dispatch env shared conn v msg))"
| prefetch: "kvd_reach c v \<Longrightarrow> log_has_room (srv_store v) \<Longrightarrow> env_lib env = ctx_lib c \<Longrightarrow> kvd_reach c (prefetch_turn env v)"
| lease_write: "kvd_reach c v \<Longrightarrow> shared_arena (srv_store v) = Some a \<Longrightarrow> dict_get (reservations a) token = Some r \<Longrightarrow>
    length bytes \<le> promised_size r \<Longrightarrow>
    kvd_reach c (v\<lparr>srv_store := (srv_store v)\<lparr>shared_arena := Some (engine_write a (slot_id r) bytes)\<rparr>\<rparr>)"
| hang_up: "kvd_reach c v \<Longrightarrow> kvd_reach c (disconnect v conn)"

lemma make_store_good:
  assumes "make_store mx sp lg ar = Inr s"
    and "\<And>r. lg = Some r \<Longrightarrow> region_good (id_ok c) (ctx_content c) (ctx_lib c) r"
    and "\<And>r. sp = Some r \<Longrightarrow> region_good (id_ok c) (ctx_content c) (ctx_lib c) r"
    and "\<And>a. ar = Some a \<Longrightarrow> make_arena cap = Inr a" and "ctx_arena c = (ar \<noteq> None)"
  shows "kvd_inv c s"
proof -
  have f: "store_entries s = []" "store_long s = lg" "store_spillover s = sp" "shared_arena s = ar"
    using assms(1) by (auto simp: make_store_def split: if_splits)
  show ?thesis
  proof (rule kvd_stateI)
    show "rows_wf s" by (rule rows_wf_make [OF assms(1)])
    show "arena_good c a" if "shared_arena s = Some a" for a
    proof -
      have "make_arena cap = Inr a" using assms(4) that f(4) by simp
      then show ?thesis by (simp add: arena_good_def make_arena_inv make_arena_empty)
    qed
  qed (use assms(2,3,5) in \<open>simp_all add: f\<close>)
qed

lemma hints_store [simp]: "srv_store (foldl enqueue_hint v hs) = srv_store v"
proof (induction hs arbitrary: v)
  case (Cons h hs)
  show ?case using Cons.IH [of "enqueue_hint v h"] by (simp add: enqueue_hint_def)
qed simp

lemma claim_all_store [simp]: "srv_store (claim_all shared v es) = srv_store v"
proof -
  have "srv_store (foldl claim_warmed_key v ks) = srv_store v" for ks by (induction ks arbitrary: v) simp_all
  then show ?thesis by (simp add: claim_all_def)
qed

lemma register_store [simp]: "srv_store (register_warmed_key v key) = srv_store v"
  by (simp add: register_warmed_key_def Let_def)

lemma resolve_all_live: "kvd_live c s \<Longrightarrow> kvd_live c (snd (resolve_all s es))"
proof (induction es arbitrary: s)
  case (Cons e es)
  show ?case
  proof (cases e)
    case (Some x)
    show ?thesis using Cons.IH [OF kvd_live_resolve [OF Cons.prems, of x]] by (simp add: Some case_prod_beta)
  qed (use Cons in \<open>simp add: case_prod_beta\<close>)
qed simp

lemma set_zip_pairs: "x \<in> set (zip (map f ks) (zip vs ys)) \<Longrightarrow> \<exists>k. fst x = f k \<and> (k, fst (snd x)) \<in> set (zip ks vs)"
proof (induction ks arbitrary: vs ys)
  case (Cons k ks)
  then show ?case by (cases vs; cases ys) auto
qed simp

lemma dispatch_good:
  assumes "kvd_live c (srv_store v)" and "honest c (srv_store v) conn msg" and "env_lib env = ctx_lib c"
  shows "kvd_inv c (srv_store (snd (dispatch env shared conn v msg)))"
proof (cases msg)
  case (MGet k)
  then show ?thesis using handle_get_good(1) [OF assms(1,3)] by (cases "handle_get env shared v k") simp
next
  case (MBatchGet model ck keys)
  let ?ks = "map (\<lambda>k. (model, ck, k)) keys"
  obtain res s where g: "host_get_many env (srv_store v) ?ks = (res, s)" by (cases "host_get_many env (srv_store v) ?ks")
  have st: "kvd.settled c (res, s)" using kvd.get_many_settled [OF assms(1,3), of ?ks] g by simp
  show ?thesis
  proof (cases res)
    case (Inl e)
    then show ?thesis using st by (simp add: MBatchGet handle_batch_get_def g kvd.settled_def)
  next
    case (Inr es)
    then have "kvd_live c s" using st kvd.settled_live by simp
    then have "kvd_inv c s" "kvd_inv c (snd (resolve_all s es))" using resolve_all_live kvd_live_inv by blast+
    then show ?thesis by (simp add: MBatchGet handle_batch_get_def g Inr case_prod_beta split: option.split)
  qed
next
  case (MSet k x ret meta ttl)
  have "kvd.settled c (host_set env (srv_store v) k x ret meta ttl)"
    by (rule kvd.set_settled [OF assms(1) _ assms(3)]) (use assms(2) in \<open>simp add: MSet served_def\<close>)
  then show ?thesis by (simp add: MSet handle_set_def kvd.settled_def case_prod_beta split: sum.split)
next
  case (MBatchSet model ck keys vs rets metas ttls)
  let ?xs = "zip (map (\<lambda>k. (model, ck, k)) keys) (zip vs (zip rets (zip metas (case ttls of None \<Rightarrow> replicate (length keys) None | Some ts \<Rightarrow> ts))))"
  have "\<forall>x \<in> set ?xs. id_ok c (fst x) \<and> served (ctx_content c) (fst x) (fst (snd x))"
    using assms(2) by (auto simp: MBatchSet served_def dest!: set_zip_pairs)
  then have "kvd.settled c (batch_set_loop env (srv_store v) ?xs)" by (rule kvd.batch_settled [OF assms(1,3)])
  then show ?thesis using kvd_live_inv [OF assms(1)]
    by (simp add: MBatchSet handle_batch_set_def kvd.settled_def Let_def case_prod_beta split: sum.split)
next
  case (MSetReserve sz)
  then show ?thesis using handle_reserve_good [OF assms(1)] by (cases "handle_reserve conn v sz") simp
next
  case (MSetCommit token k len ret ttl)
  then show ?thesis using handle_commit_good [OF kvd_live_inv [OF assms(1)]] assms(2)
    by (cases "handle_commit env conn v token k len ret ttl") simp
next
  case (MSetCancel token)
  then show ?thesis using handle_cancel_good(1) [OF kvd_live_inv [OF assms(1)]] by simp
next
  case (MExists model ck keys)
  then show ?thesis using kvd_live_inv [OF kvd.host_exists_live [OF assms(1)]] by (simp add: case_prod_beta)
next
  case (MClear model ck)
  then show ?thesis using host_clear_good [OF kvd_live_inv [OF assms(1)] assms(3)] by (simp add: case_prod_beta)
qed (use kvd_live_inv [OF assms(1)] in \<open>simp_all add: Let_def\<close>)

lemma prefetch_good:
  assumes "kvd_live c (srv_store v)" and "env_lib env = ctx_lib c"
  shows "kvd_inv c (srv_store (prefetch_turn env v))"
proof (cases "prefetch_queue v")
  case Nil
  then show ?thesis using kvd_live_inv [OF assms(1)] by (simp add: prefetch_turn_def)
next
  case (Cons h q)
  obtain key model ck dl where h: "h = (key, model, ck, dl)" by (cases h)
  obtain res s where w: "warm_from_ssd env (srv_store v) (model, ck, key) (max (real_of_int dl / 1000) (1 / 1000)) = (res, s)" (is "?w = _")
    by (cases ?w)
  have "kvd.settled c (res, s)" using kvd.warm_settled [OF assms, of "(model, ck, key)" "max (real_of_int dl / 1000) (1 / 1000)"] w by simp
  then show ?thesis by (auto simp: prefetch_turn_def Cons h do_prefetch_one_def w kvd.settled_def split: sum.split bool.split)
qed

lemma kvd_reach_inv: "kvd_reach c v \<Longrightarrow> kvd_inv c (srv_store v)"
proof (induction rule: kvd_reach.induct)
  case (start mx sp lg ar s cap n)
  show ?case using make_store_good [OF start] by (simp add: make_server_def)
next
  case (request v conn msg env shared)
  then show ?case by (intro dispatch_good) (simp_all add: kvd_live_iff)
next
  case (prefetch v env)
  then show ?case by (intro prefetch_good) (simp_all add: kvd_live_iff)
next
  case (lease_write v a token r bytes)
  then show ?case using lease_write_good by simp
qed (rule handle_cancel_good(2))

lemma resolve_inline:
  assumes "list_all2 (\<lambda>k r. \<forall>e. r = Some e \<longrightarrow> he_slot e = None \<and> P k (he_value e)) ks es"
  shows "list_all2 (\<lambda>k x. \<forall>b. x = Some b \<longrightarrow> P k b) ks (fst (resolve_all s es))"
  using assms
proof (induction ks es arbitrary: s rule: list_all2_induct)
  case (Cons k ks e es)
  show ?case
  proof (cases e)
    case (Some x)
    then show ?thesis using Cons by (simp add: resolve_value_def case_prod_beta)
  qed (use Cons in \<open>simp add: case_prod_beta\<close>)
qed simp

text \<open>
  C1. What the daemon serves, over the composition of dispatcher, block store, shared arena and SSD
  regions. Start it with an empty store, or on regions that hold the right bytes, and let any number
  of clients send requests in any order, with prefetches, lease writes, disk failures, evictions
  and disconnects in between. A get of a key then answers with nothing, with an error, with empty bytes
  or with the bytes of that key, and a reference into the arena leads a reader to the bytes of that key
  or to nothing; without an arena the same holds for each element of a batched get. The conditions on
  the clients and the history are those of \<open>honest\<close> and \<open>kvd_reach\<close>: what a client stores or
  commits under a key is what the key stands for; model and compatibility key of what it stores have
  no \<open>|\<close> and its file names no \<open>.tmp.\<close>; a commit finds a slot it can stamp, so it does not raise;
  the eviction log of the arena does not overflow between two operations that drain it; and with an
  arena no two identities share their key bytes, which \<open>arena_mixes_namespaces\<close> shows is needed.
\<close>

theorem kvd_serves_content:
  assumes "kvd_reach c v" and "log_has_room (srv_store v)" and "env_lib env = ctx_lib c"
  shows "(dispatch env shared conn v (MGet k) = (resp, v') \<longrightarrow> answers c k (srv_store v') resp) \<and>
    (\<not> ctx_arena c \<and> dispatch env shared conn v (MBatchGet model ck keys) = (BatchGetResponse vs rets, v') \<longrightarrow>
       list_all2 (\<lambda>key x. \<forall>b. x = Some b \<longrightarrow> served (ctx_content c) (model, ck, key) b) keys vs)"
proof (intro conjI impI; (elim conjE)?)
  have live: "kvd_live c (srv_store v)" using kvd_reach_inv [OF assms(1)] assms(2) by (simp add: kvd_live_iff)
  show "answers c k (srv_store v') resp" if "dispatch env shared conn v (MGet k) = (resp, v')"
    using handle_get_good(2) [OF live assms(3)] that by simp
  assume plain: "\<not> ctx_arena c" and g: "dispatch env shared conn v (MBatchGet model ck keys) = (BatchGetResponse vs rets, v')"
  let ?ks = "map (\<lambda>k. (model, ck, k)) keys"
  let ?G = "\<lambda>k e. he_slot e = None \<and> served (ctx_content c) k (he_value e)"
  obtain res s where m: "host_get_many env (srv_store v) ?ks = (res, s)" by (cases "host_get_many env (srv_store v) ?ks")
  obtain es where es: "res = Inr es" using g by (cases res) (simp_all add: handle_batch_get_def m)
  have "kvd_live c s" using kvd.get_many_settled [OF live assms(3), of ?ks] kvd.settled_live m es by simp
  from kvd_stateD(2) [OF kvd_live_inv [OF this]] have none: "shared_arena s = None" using plain by auto
  have "list_all2 (\<lambda>k r. \<forall>e. r = Some e \<longrightarrow> ?G k e) ?ks es"
  proof (rule kvd.get_many_results [OF _ _ live assms(3) m [unfolded es]])
    show "?G i e" if t: "kvd_live c t" "dict_get (store_entries t) i = Some e" for t i e
    proof -
      have "row_good backed c (shared_arena t) i e" by (rule kvd_stateD(3) [OF kvd_live_inv [OF t(1)] t(2)])
      moreover have "shared_arena t = None" using kvd_stateD(2) [OF kvd_live_inv [OF t(1)]] plain by auto
      ultimately show ?thesis by (simp add: row_good_def split: option.splits)
    qed
  qed simp
  from resolve_inline [OF this, of s] show "list_all2 (\<lambda>key x. \<forall>b. x = Some b \<longrightarrow> served (ctx_content c) (model, ck, key) b) keys vs"
    using g by (simp add: handle_batch_get_def m es none list_all2_map1 case_prod_beta)
qed

definition demo_ctx :: kvd_ctx where
  "demo_ctx = \<lparr>ctx_content = (\<lambda>_. [4, 5]), ctx_ident = (\<lambda>key. (''m'', ''c'', key)), ctx_lib = demo_lib, ctx_arena = True\<rparr>"

definition demo_daemon :: KvdServer where
  "demo_daemon = make_server (demo_store\<lparr>shared_arena := Some arena_demo\<rparr>) 8"

definition demo_msg :: kvd_msg where
  "demo_msg = MSet (''m'', ''c'', [9]) [4, 5] ''short'' (UserMeta []) None"

lemma demo_reach: "kvd_reach demo_ctx demo_daemon"
  unfolding demo_daemon_def
  by (rule kvd_reach.start [of 3 None None "Some arena_demo" _ _ 64])
    (simp_all add: make_store_def demo_store_def demo_ctx_def arena_demo_ok)

lemma demo_names: "names_ok (''m'', ''c'', [9])"
  unfolding names_ok_def by code_simp

lemma demo_reach_set: "kvd_reach demo_ctx (snd (dispatch demo_env False 1 demo_daemon demo_msg))"
proof (rule kvd_reach.request [OF demo_reach])
  show "honest demo_ctx (srv_store demo_daemon) 1 demo_msg"
    using demo_names by (simp add: demo_msg_def demo_ctx_def id_ok_def)
  show "log_has_room (srv_store demo_daemon)"
    by (simp add: demo_daemon_def make_server_def log_has_room_def log_room_def arena_eval)
qed (simp add: demo_env_def demo_ctx_def)

theorem kvd_serves_content_witness:
  "\<exists>v v'. v = snd (dispatch demo_env False 1 demo_daemon demo_msg) \<and>
     dispatch demo_env False 2 v (MGet (''m'', ''c'', [9])) = (GetResponse (Some [4, 5]) (Some ''short''), v') \<and>
     answers demo_ctx (''m'', ''c'', [9]) (srv_store v') (GetResponse (Some [4, 5]) (Some ''short''))"
proof -
  define v where "v = snd (dispatch demo_env False 1 demo_daemon demo_msg)"
  obtain resp v' where g: "dispatch demo_env False 2 v (MGet (''m'', ''c'', [9])) = (resp, v')"
    by (cases "dispatch demo_env False 2 v (MGet (''m'', ''c'', [9]))")
  have "fst (dispatch demo_env False 2 v (MGet (''m'', ''c'', [9]))) = GetResponse (Some [4, 5]) (Some ''short'')"
    by (simp add: v_def demo_msg_def demo_daemon_def make_server_def handle_set_def store_eval arena_eval drain_recent_evictions_def
        host_get_def is_expired_def bump_gets_def bump_hits_def handle_get_def answer_entry_def get_slice_def upt_rec)
  then have resp: "resp = GetResponse (Some [4, 5]) (Some ''short'')" by (simp only: g fst_conv)
  have room: "log_has_room (srv_store v)"
    by (simp add: v_def demo_msg_def demo_daemon_def make_server_def handle_set_def store_eval arena_eval drain_recent_evictions_def
        log_has_room_def log_room_def)
  have lib: "env_lib demo_env = ctx_lib demo_ctx" by (simp add: demo_env_def demo_ctx_def)
  note S = kvd_serves_content [OF demo_reach_set [folded v_def] room lib, THEN conjunct1, rule_format, OF g]
  show ?thesis
    by (rule exI [of _ v], rule exI [of _ v'], intro conjI) (rule v_def, rule g [unfolded resp], rule S [unfolded resp])
qed

section \<open>Where the daemon falls short\<close>

lemmas daemon_eval = demo_daemon_def make_server_def handle_set_def handle_reserve_def handle_commit_def handle_get_def answer_entry_def
  claim_warmed_key_def commit_arena_lease_def slot_or_minus_one_def drain_recent_evictions_def drop_bucket_def drop_row_def
  host_get_def is_expired_def bump_gets_def bump_hits_def bump_misses_def get_slice_def get_slot_for_key_def dict_move_to_end_def
  try_long_def try_spillover_def store_eval arena_eval

text \<open>The first block committed through a lease lies in slot 0. The handler writes
  \<open>arena.get_slot_for_key(key) or -1\<close>, and 0 is falsy: the row is filed as an inline block
  without bytes, and every get of the committed key answers with empty bytes.\<close>

lemma commit_into_slot_zero_reads_empty:
  defines "v1 \<equiv> snd (dispatch demo_env True 1 demo_daemon (MSetReserve 2))"
  defines "a \<equiv> the (shared_arena (srv_store v1))"
  defines "v2 \<equiv> v1\<lparr>srv_store := (srv_store v1)\<lparr>shared_arena := Some (engine_write a 0 [4, 5])\<rparr>\<rparr>"
  defines "p \<equiv> dispatch demo_env True 1 v2 (MSetCommit 1 (''m'', ''c'', [9]) 2 ''short'' 0)"
  shows "fst p = SetCommitResponse True ''''"
    and "fst (dispatch demo_env True 1 (snd p) (MGet (''m'', ''c'', [9]))) = GetResponse (Some []) (Some ''short'')"
  by (simp_all add: v1_def a_def v2_def p_def daemon_eval)

text \<open>The arena files blocks by key bytes alone, so a set of the same key bytes for another model
  replaces the bytes that the first model reads.\<close>

lemma arena_mixes_namespaces:
  defines "v1 \<equiv> snd (dispatch demo_env False 1 demo_daemon (MSet (''m'', ''c'', [9]) [4, 5] ''short'' (UserMeta []) None))"
  defines "v2 \<equiv> snd (dispatch demo_env False 1 v1 (MSet (''n'', ''c'', [9]) [6, 7] ''short'' (UserMeta []) None))"
  shows "fst (dispatch demo_env False 1 v2 (MGet (''m'', ''c'', [9]))) = GetResponse (Some [6, 7]) (Some ''short'')"
  by (simp add: v1_def v2_def daemon_eval upt_rec)

text \<open>A reserve may push a key out of the arena and leave it in the eviction log. A set of that key
  that follows is acknowledged, and its own drain then drops the row it has just filed.\<close>

lemma store_bytes_log:
  assumes "kvd_live c s" and "shared_arena s = Some a" and "store_bytes s key v = (r, s')"
  shows "\<exists>b. shared_arena s' = Some b \<and> set (recent_evicted_keys a) \<subseteq> set (recent_evicted_keys b)"
proof -
  have inv: "arena_inv a" by (rule arena_goodD(1) [OF kvd_stateD(4) [OF kvd_live_inv [OF assms(1)] assms(2)]])
  obtain x b where p: "put_alloc a key (length v) = (x, b)" by (cases "put_alloc a key (length v)")
  note F = put_alloc_fate(1) [OF p inv kvd_liveD [OF assms(1,2)]]
  have "recent_evicted_keys (snd (arena_put a key v)) = recent_evicted_keys b"
  proof (cases "\<exists>slot. x = Inr (Some slot)")
    case True
    then obtain slot where x: "x = Inr (Some slot)" by blast
    obtain o2 b2 where w: "put_write b slot v = (o2, b2)" by (cases "put_write b slot v")
    show ?thesis using put_write_fields(2) [of b slot v] by (cases o2) (simp_all add: arena_put_def p x w)
  qed (auto simp: arena_put_def p split: sum.split option.split)
  then show ?thesis using F assms(2,3) by (auto simp: store_bytes_def split: prod.splits)
qed

lemma drain_drops:
  assumes "rows_wf s" and "shared_arena s = Some a" and "block_key k \<in> set (recent_evicted_keys a)"
  shows "dict_get (store_entries (drain_arena s)) k = None"
proof -
  have "rows_wf (s\<lparr>shared_arena := Some (a\<lparr>recent_evicted_keys := []\<rparr>)\<rparr>)" using assms(1) by simp
  from drop_buckets_get [OF this] show ?thesis using assms(2,3) by (simp add: drain_arena_def drain_recent_evictions_def)
qed

lemma acknowledged_overwrite_dropped:
  assumes "kvd_live c s" and "shared_arena s = Some a" and "block_key k \<in> set (recent_evicted_keys a)"
    and "dict_get (store_entries s) k = Some old" and "set_existing env s k old v ret meta ex = (Inr ((True, reason), sps), s')"
  shows "dict_get (store_entries s') k = None"
proof -
  obtain r s1 where b: "store_bytes s (block_key k) v = (r, s1)" by (cases "store_bytes s (block_key k) v")
  obtain slot where r: "r = Inr slot" "\<not> priority ret < priority (he_retention old)"
    using assms(5) by (cases r) (auto simp: set_existing_def b split: if_splits)
  let ?e = "(place s1 slot v old)\<lparr>he_retention := ret, he_last_access := clock_now env, he_metadata := meta, he_expires_at := ex\<rparr>"
  have s': "s' = drain_arena (replace_row s1 k old ?e)" using assms(5) r b by (simp add: set_existing_def Let_def)
  obtain x where x: "shared_arena s1 = Some x" "set (recent_evicted_keys a) \<subseteq> set (recent_evicted_keys x)"
    using store_bytes_log [OF assms(1,2) b] by blast
  have wf: "rows_wf s" by (rule kvd_stateD(1) [OF kvd_live_inv [OF assms(1)]])
  have "rows_wf s1" using wf rows_wf_cong [OF store_bytes_fields(1,2,3) [OF b]] by simp
  moreover have "dict_get (store_entries s1) k = Some old" using assms(4) store_bytes_fields(1) [OF b] by simp
  ultimately have "rows_wf (replace_row s1 k old ?e)" by (rule rows_wf_replace) (simp add: rows_wfD(3) [OF wf assms(4)])
  then show ?thesis unfolding s' by (rule drain_drops [where a = x]) (use x assms(3) in \<open>auto simp: replace_row_def\<close>)
qed

end
