(* ===== verification/Spec2Isabelle.thy ===== *)
theory Spec2Isabelle
  imports Worker_Pool Breaker Kv_Index Kv_Policy Seqlock Kvd_Safety
begin

text \<open>
  A verification development for Infera, the inference orchestration layer under
  \<open>src/infera\<close>.

  \<^bold>\<open>The program.\<close> Infera places a router and a cache daemon around a fleet of inference engines.
  A request reaches the router, which reads its cache hints, drops the workers whose circuit breaker
  is open, expands the rest into routing targets (one per data-parallel rank) and asks a policy for
  one of them. The KV-aware policy hashes the prompt into a chain of block hashes and compares it
  with a mirror of each engine's cache, which an event client keeps from the engines' block events.
  On each host a daemon, kvd, keeps KV blocks for the engines: a row table in RAM, a shared-memory
  arena that engines map and read without a copy, and two SSD regions below it.

  \<^bold>\<open>Conventions.\<close> A Python dictionary is an association list with distinct keys in insertion order
  (\<open>Prelude\<close>: \<open>dict_get\<close>, \<open>dict_put\<close>, \<open>dict_del\<close>, \<open>dict_wf\<close>). A function that may raise returns
  \<open>py_error + 'a\<close>, and every raise of the source is a branch. Python integers are \<open>int\<close>, or \<open>nat\<close>
  where the source never makes them negative; bytes are \<open>byte list\<close> with \<open>byte\<close> an 8-bit word, and
  the 32-bit version field of a slot is bounded where the source packs it. Floats are reals. The
  clock and random file suffixes are arguments. A history is a list of operations or an inductive
  reachability predicate. Loops are structural recursions over the data they walk, so no definition
  needs fuel; the sweep of the index is a partial function proved to return, the eviction loops
  recurse on a measure that each eviction lowers, and the retry loop of the seqlock reader carries
  the attempt counter of the source.

  Code that is not under \<open>src\<close> is a parameter: the digests (\<open>xxh3\<close>, \<open>sha256\<close>) and the encoders
  of third-party packages, JSON text (\<open>ssd_lib\<close>), the tokenizer and chat template behind
  \<open>hashes_for\<close>. Theorems that rely on them name the law they need (no collision among the inputs
  met, decoding undoes encoding) as a hypothesis or as a field of a context, and have a witness with
  a concrete instance.

  \<^bold>\<open>Routing.\<close>
  \<^item> \<open>Worker_Pool\<close>: \<open>common/worker_pool.py\<close>, \<open>router/policy/target.py\<close>, \<open>router/dp_routing.py\<close>.
    The pool, the tokenizer canary, target expansion and route keys, the rank channels. Route keys
    are distinct, an accepted canary is the reference one, an aligned bootstrap room has the prefill
    rank as its residue.
  \<^item> \<open>Breaker\<close>: \<open>router/breaker.py\<close>, every operation. When it trips, how it backs off, that probes
    are spaced, that every worker is admitted again, and what the candidate filter returns.
  \<^item> \<open>Cache_Control\<close>: \<open>router/cache_control.py\<close>, the parser of cache hints over JSON values: the
    retention is the strongest hint, and exactly which bodies raise.
  \<^item> \<open>Render_Variant\<close>: \<open>router/kv_event/render_variant.py\<close>, template defaults and their registry.
  \<^item> \<open>Policy\<close>: \<open>router/policy/base.py\<close>, \<open>round_robin.py\<close>, \<open>session_affinity.py\<close>. The interface is the
    locale \<open>routing_policy\<close>: a policy answers with one of the targets it was given.
    \<open>affinity_over\<close> wraps a policy and is again a policy (a sublocale); both are interpreted on the
    round-robin policy here and on the KV-aware policy in \<open>Kv_Policy\<close>.
  \<^item> \<open>Kv_Policy\<close>: \<open>router/policy/kv_event_aware.py\<close>. The pick is the best trade of cached
    prefix against load, with both stated apart from the cost function of the code; the reference
    counts are a multiset of in-flight blocks, the decayed load is bounded, removing a worker
    forgets exactly it.

  \<^bold>\<open>Hash chains and the cache mirror.\<close>
  \<^item> \<open>Hashing\<close>: \<open>router/kv_event/hasher.py\<close>. An equal block hash means an equal prefix.
  \<^item> \<open>Mm_Hashing\<close>: \<open>kv/hashing.py\<close> and the key types of \<open>kv/types.py\<close>. Blocks with images get equal
    bytes exactly when they agree slot by slot; the keys form one linked chain with one key per full block.
  \<^item> \<open>Kv_Index\<close>: \<open>kv/index.py\<close>, the prefix index over an explicit heap of tree nodes shared by the
    trees and the flat lookup. Every operation implements its effect on a table from block to
    residency, a query counts the resident blocks of a prompt, and the sweep ends. Its loop is a
    \<open>partial_function\<close> in the option type, so that it returns is part of the theorem.
  \<^item> \<open>Kv_Events\<close>: \<open>router/kv_event/events.py\<close>, \<open>client.py\<close>, \<open>nats_client.py\<close>. The view of a worker
    is the set of blocks its engine holds, hashed as a query would hash them; what a registration
    keeps of it and what it drops.

  \<^bold>\<open>The KV daemon.\<close>
  \<^item> \<open>Cache_Tier\<close>: the contract of a storage tier as a locale, interpreted on the arena.
  \<^item> \<open>Arena\<close>: \<open>kvd/shared_arena.py\<close>. Allocator, leases, eviction log, reads. Free list, key index and
    leases partition the slots; a read returns the last store. The code clears the arena without
    looking at the leases; the histories of these theorems take a clear only while no lease is out
    (\<open>clears_unleased\<close>), and \<open>clear_double_leases\<close> shows the other case. The bytes a lease holder
    writes (\<open>engine_write\<close>) come from the engine's own mapping, so they are a step of the
    environment, not of the daemon.
  \<^item> \<open>Seqlock\<close>: the byte-level protocol of one slot as step relations of writer, lease holder and
    reader; a reader returns published bytes only, in a bounded number of accesses.
  \<^item> \<open>Ssd_Names\<close>, \<open>Ssd\<close>, \<open>Ssd_Recovery\<close>: \<open>kvd/ssd.py\<close>. Names and their decoding, index, budget,
    disk operations one by one, the recovery scan, and what a crash at any of them leaves behind.
    The file system is a map from paths to bytes; an operation is a list of disk steps of which a
    crash performs a prefix.
  \<^item> \<open>Host_Store\<close>: \<open>kvd/store.py\<close>, every operation of \<open>HostStore\<close> over arena and regions. The locale
    \<open>store_invariant\<close> says what a predicate must satisfy to be kept by every operation; it is
    interpreted on row accounting, on the absence of an arena and, in \<open>Kvd_Safety\<close>, on the
    content invariant.
  \<^item> \<open>Kvd_Server\<close>, \<open>Kvd_Safety\<close>: \<open>kvd/server.py\<close>. Every request handler, the prefetch worker and the
    disconnect as steps over the store; a get never answers with the bytes of another key, provided
    what clients store is what the key stands for, names can be told apart on disk, the eviction log
    is drained before it overflows and, with an arena, key bytes stand for one identity.

  Each component theory ends with the properties that make it correct. Next to them are lemmas that
  show where the code falls short of its comments, on concrete inputs.

  \<^bold>\<open>Not modelled.\<close> Socket loops, framing, descriptor passing and process start-up; the HTTP
  application and the proxying of streams to workers; etcd, Kubernetes and NATS connections;
  snapshot reconciliation and the index writer, which drive the index from asyncio tasks; the
  plug-ins that run inside the engines and drive GPU memory; the tablespace, LMCache and Mooncake
  regions; the planner and the performance projection, which fit measured data and promise no exact
  result; tooling, benchmarks and the Rust router, which is a program of its own. Threads: kvd runs
  its handlers on one event loop, so a handler is one step; the shared slot is the exception, and
  there \<open>Seqlock\<close> interleaves single memory accesses.
\<close>

end
